(* ===== verification/Muduo_Prelude.thy ===== *)
theory Muduo_Prelude
  imports Main "HOL-Library.Monad_Syntax" "HOL-Library.Word" "HOL-Library.Sublist"
    "HOL-Library.Signed_Division"
begin

text \<open>
  Shared vocabulary of the development: failing C++ code as \<open>option\<close> values, the few
  algorithms of the C++ standard library the sources call (\<open>std::find\<close>,
  \<open>std::search\<close>, \<open>std::copy\<close>, \<open>memchr\<close>, \<open>vector::resize\<close>), and generic
  lemmas on lists that the component theories rely on.

  A result \<open>None\<close> means that the call does not return normally: a failed
  \<open>assert\<close> (\<open>abort\<close>), an exception that leaves the function, or an access outside an
  object. A result \<open>Some x\<close> is a normal return.
\<close>

named_theorems run_simps \<open>equations that evaluate the option-valued operations\<close>
named_theorems wf_intros \<open>introduction rules for the well-formedness invariants\<close>

subsection \<open>Assertions\<close>

definition cassert :: "bool \<Rightarrow> unit option" where
  "cassert b = (if b then Some () else None)"

lemma cassert_bind [simp]: "Option.bind (cassert b) f = (if b then f () else None)"
  by (simp add: cassert_def)

lemma cassert_eq_Some [simp]: "cassert b = Some u \<longleftrightarrow> b"
  by (simp add: cassert_def)

lemma cassert_True [simp]: "cassert True = Some ()"
  by (simp add: cassert_def)

lemma bind_if [simp]:
  "Option.bind (if c then x else y) f = (if c then Option.bind x f else Option.bind y f)"
  by simp

lemma bind_eq_SomeE:
  assumes "Option.bind m f = Some y"
  obtains x where "m = Some x" and "f x = Some y"
  using assms by (cases m) auto

subsection \<open>Integers of the machine\<close>

text \<open>
  \<open>size_t\<close> values are natural numbers. A \<open>std::vector<char>\<close> never grows past
  \<open>max_size()\<close>, which is \<open>PTRDIFF_MAX\<close> on the 64-bit targets of the library;
  \<open>resize\<close> beyond it throws \<open>std::length_error\<close>. No sum of a length and an index of
  live objects reaches \<open>2 ^ 64\<close>, so additions of such values do not wrap around.
\<close>

definition max_size :: nat where
  "max_size = 2 ^ 63 - 1"

definition int_max :: int where
  "int_max = 2 ^ 31 - 1"

text \<open>\<open>static_cast<int>\<close> of a \<open>size_t\<close>: the low 32 bits, read as two's complement.\<close>

definition to_int32 :: "nat \<Rightarrow> int" where
  "to_int32 n = sint (of_nat n :: 32 word)"

lemma to_int32_small: "int n \<le> int_max \<Longrightarrow> to_int32 n = int n"
  by (simp add: to_int32_def int_max_def sint_uint uint_nat unat_of_nat
      signed_take_bit_int_eq_self)

lemma to_int32_eq: "to_int32 n = (int n + 2 ^ 31) mod 2 ^ 32 - 2 ^ 31"
proof -
  have "to_int32 n = signed_take_bit 31 (int n)"
    by (simp add: to_int32_def signed_of_nat)
  then show ?thesis
    by (simp add: signed_take_bit_eq_take_bit_shift take_bit_eq_mod)
qed

lemma to_int32_negative:
  assumes "2 ^ 31 \<le> n" and "n < 2 ^ 32"
  shows "to_int32 n < 0"
proof -
  have "(int n + 2 ^ 31) mod 2 ^ 32 = (int n - 2 ^ 31 + 2 ^ 32) mod 2 ^ 32"
    by (simp add: add.commute)
  also have "\<dots> = (int n - 2 ^ 31) mod 2 ^ 32"
    by (rule mod_add_self2)
  also have "\<dots> = int n - 2 ^ 31"
    using assms by (intro mod_pos_pos_trivial) auto
  finally show ?thesis using assms(2) by (simp add: to_int32_eq)
qed

text \<open>\<open>static_cast<int>\<close> of a wider signed integer.\<close>

definition cast_int32 :: "int \<Rightarrow> int" where
  "cast_int32 x = (x + 2 ^ 31) mod 2 ^ 32 - 2 ^ 31"

lemma cast_int32_id: "- (2 ^ 31) \<le> x \<Longrightarrow> x < 2 ^ 31 \<Longrightarrow> cast_int32 x = x"
  by (simp add: cast_int32_def)

text \<open>C++ \<open>/\<close> and \<open>%\<close> on \<open>int\<close> truncate towards zero.\<close>

lemma sdiv_nonneg: "0 \<le> (a :: int) \<Longrightarrow> 0 < b \<Longrightarrow> a sdiv b = a div b"
  by (simp add: signed_divide_int_def sgn_if)

lemma smod_nonneg: "0 \<le> (a :: int) \<Longrightarrow> 0 < b \<Longrightarrow> a smod b = a mod b"
  by (simp add: signed_modulo_int_def sgn_if)

subsection \<open>Algorithms of the standard library\<close>

text \<open>\<open>std::find (first, last, c)\<close> as an offset from \<open>first\<close>; the length when absent.\<close>

fun std_find :: "'a \<Rightarrow> 'a list \<Rightarrow> nat" where
  "std_find c [] = 0"
| "std_find c (x # xs) = (if x = c then 0 else Suc (std_find c xs))"

text \<open>\<open>std::search (first, last, p, p + m)\<close> as an offset; the length when absent.\<close>

fun std_search :: "'a list \<Rightarrow> 'a list \<Rightarrow> nat" where
  "std_search p [] = 0"
| "std_search p (x # xs) = (if prefix p (x # xs) then 0 else Suc (std_search p xs))"

text \<open>\<open>memchr (s, c, n)\<close>: a null pointer when absent.\<close>

definition memchr :: "'a \<Rightarrow> 'a list \<Rightarrow> nat option" where
  "memchr c xs = (let i = std_find c xs in if i = length xs then None else Some i)"

text \<open>\<open>std::copy\<close> of \<open>src\<close> over the elements of \<open>xs\<close> from \<open>d\<close> on; outside \<open>xs\<close> the
  write is undefined.\<close>

definition overwrite :: "'a list \<Rightarrow> nat \<Rightarrow> 'a list \<Rightarrow> 'a list option" where
  "overwrite xs d src =
     (if d + length src \<le> length xs
      then Some (take d xs @ src @ drop (d + length src) xs) else None)"

definition vector_resize :: "'a \<Rightarrow> 'a list \<Rightarrow> nat \<Rightarrow> 'a list option" where
  "vector_resize z xs n =
     (if n \<le> max_size then Some (take n xs @ replicate (n - length xs) z) else None)"

definition subrange :: "'a list \<Rightarrow> nat \<Rightarrow> nat \<Rightarrow> 'a list" where
  "subrange xs i j = take (j - i) (drop i xs)"

lemma length_subrange [simp]: "j \<le> length xs \<Longrightarrow> length (subrange xs i j) = j - i"
  by (simp add: subrange_def)

lemma subrange_same [simp]: "subrange xs i i = []"
  by (simp add: subrange_def)

lemma drop_subrange: "drop n (subrange xs i j) = subrange xs (i + n) j"
  by (simp add: subrange_def drop_take add.commute)

lemma take_subrange: "n \<le> j - i \<Longrightarrow> take n (subrange xs i j) = subrange xs i (i + n)"
  by (simp add: subrange_def min_absorb1)

lemma subrange_append_subrange:
  assumes "i \<le> j" "j \<le> k"
  shows "subrange xs i j @ subrange xs j k = subrange xs i k"
proof -
  have "take (k - i) (drop i xs) =
      take (j - i) (drop i xs) @ take (k - j) (drop (j - i) (drop i xs))"
    using assms take_add [of "j - i" "k - j" "drop i xs"] by simp
  then show ?thesis using assms by (simp add: subrange_def)
qed

subsection \<open>Facts about the searches\<close>

lemma std_find_le: "std_find c xs \<le> length xs"
  by (induction xs) auto

lemma std_find_iff: "std_find c xs < length xs \<longleftrightarrow> c \<in> set xs"
  by (induction xs) auto

lemma std_find_absent [simp]: "c \<notin> set xs \<Longrightarrow> std_find c xs = length xs"
  by (induction xs) auto

lemma std_find_takeWhile: "std_find c xs = length (takeWhile (\<lambda>x. x \<noteq> c) xs)"
  by (induction xs) auto

lemma std_find_append [simp]:
  "c \<notin> set xs \<Longrightarrow> std_find c (xs @ c # ys) = length xs"
  by (induction xs) auto

lemma take_std_find_not_in: "c \<notin> set (take (std_find c xs) xs)"
  by (induction xs) auto

lemma nth_std_find: "std_find c xs < length xs \<Longrightarrow> xs ! std_find c xs = c"
  by (induction xs) auto

lemma std_search_le: "std_search p xs \<le> length xs"
  by (induction xs) auto

lemma std_search_sound:
  "std_search p xs < length xs \<Longrightarrow> prefix p (drop (std_search p xs) xs)"
  by (induction xs) (auto split: if_splits)

lemma std_search_first:
  "i < std_search p xs \<Longrightarrow> \<not> prefix p (drop i xs)"
proof (induction xs arbitrary: i)
  case Nil
  then show ?case by simp
next
  case (Cons x xs)
  then show ?case by (cases i) (auto split: if_splits)
qed

lemma std_search_bound:
  assumes "std_search p xs < length xs"
  shows "std_search p xs + length p \<le> length xs"
proof -
  have "length p \<le> length (drop (std_search p xs) xs)"
    using std_search_sound [OF assms] by (rule prefix_length_le)
  then show ?thesis using assms by simp
qed

lemma std_search_none:
  assumes "p \<noteq> []" and "std_search p xs = length xs"
  shows "\<not> prefix p (drop i xs)"
proof (cases "i < length xs")
  case True
  then show ?thesis using std_search_first [of i p xs] assms(2) by simp
next
  case False
  then show ?thesis using assms(1) by simp
qed

lemma overwrite_Some [run_simps]:
  "d + length src \<le> length xs \<Longrightarrow>
    overwrite xs d src = Some (take d xs @ src @ drop (d + length src) xs)"
  by (simp add: overwrite_def)

lemma overwrite_SomeD:
  "overwrite xs d src = Some ys \<Longrightarrow>
    d + length src \<le> length xs \<and> ys = take d xs @ src @ drop (d + length src) xs"
  by (simp add: overwrite_def split: if_splits)

lemma length_overwrite: "overwrite xs d src = Some ys \<Longrightarrow> length ys = length xs"
  by (auto simp: overwrite_def split: if_splits)

lemma vector_resize_grow [run_simps]:
  "length xs \<le> n \<Longrightarrow> n \<le> max_size \<Longrightarrow>
    vector_resize z xs n = Some (xs @ replicate (n - length xs) z)"
  by (simp add: vector_resize_def)

subsection \<open>Options as lists\<close>

primrec option_list :: "'a option \<Rightarrow> 'a list" where
  "option_list None = []"
| "option_list (Some x) = [x]"

lemma option_list_map [simp]: "option_list (map_option f x) = map f (option_list x)"
  by (cases x) simp_all

lemma distinct_map_nth:
  assumes "\<And>i j. i < length xs \<Longrightarrow> j < length xs \<Longrightarrow> f (xs ! i) = f (xs ! j) \<Longrightarrow> i = j"
  shows "distinct (map f xs)"
  using assms by (auto simp: distinct_conv_nth)

lemma int_max_nonneg: "0 \<le> int_max"
  by (simp add: int_max_def)

lemma to_int32_le: "to_int32 n \<le> int n" "to_int32 n \<le> int_max"
proof -
  have "(int n + 2 ^ 31) mod 2 ^ 32 \<le> int n + 2 ^ 31" by (rule zmod_le_nonneg_dividend) simp
  then show "to_int32 n \<le> int n" by (simp add: to_int32_eq)
  have "(int n + 2 ^ 31) mod 2 ^ 32 < 2 ^ 32" by simp
  then show "to_int32 n \<le> int_max" by (simp add: to_int32_eq int_max_def)
qed

lemma find_distinct: "distinct (map f xs) \<Longrightarrow> x \<in> set xs \<Longrightarrow> find (\<lambda>y. f y = f x) xs = Some x"
  by (induction xs) auto

end
