(* ===== verification/ByteOrder.thy ===== *)
theory ByteOrder
  imports Muduo_Prelude
begin

text \<open>
  Byte order conversions (\<open>net/Endian.h\<close>) and the object representation of fixed-width
  integers. The byte order of the host is a parameter \<open>e\<close>; the conversions of
  \<open><endian.h>\<close> swap bytes on a little-endian host and do nothing on a big-endian one.
  The lemmas show that what is stored in memory after a conversion to network order is
  the big-endian encoding on either host, and that loading it back and converting to
  host order gives the value.
\<close>

datatype endian = Little | Big

subsection \<open>Encodings of natural numbers in bytes, most significant byte first\<close>

fun nat_to_be :: "nat \<Rightarrow> nat \<Rightarrow> char list" where
  "nat_to_be 0 x = []"
| "nat_to_be (Suc k) x = nat_to_be k (x div 256) @ [char_of (x mod 256)]"

definition be_to_nat :: "char list \<Rightarrow> nat" where
  "be_to_nat cs = foldl (\<lambda>a c. a * 256 + of_char c) 0 cs"

lemma length_nat_to_be [simp]: "length (nat_to_be k x) = k"
  by (induction k arbitrary: x) auto

lemma be_to_nat_snoc [simp]: "be_to_nat (cs @ [c]) = be_to_nat cs * 256 + of_char c"
  by (simp add: be_to_nat_def)

lemma be_to_nat_Nil [simp]: "be_to_nat [] = 0"
  by (simp add: be_to_nat_def)

lemma be_to_nat_of_nat_to_be: "be_to_nat (nat_to_be k x) = x mod 256 ^ k"
proof (induction k arbitrary: x)
  case 0
  then show ?case by simp
next
  case (Suc k)
  have "(x div 256) mod 256 ^ k * 256 + x mod 256 = x mod 256 ^ Suc k"
    using mod_mult2_eq [of x 256 "256 ^ k"] by (simp add: mult.commute)
  then show ?case using Suc by simp
qed

lemma be_to_nat_bound: "be_to_nat cs < 256 ^ length cs"
proof (induction cs rule: rev_induct)
  case Nil
  then show ?case by simp
next
  case (snoc c cs)
  have "of_char c < (256 :: nat)" by simp
  then have "be_to_nat cs * 256 + of_char c < 256 * 256 ^ length cs"
    using snoc by linarith
  then show ?case by simp
qed

lemma nat_to_be_of_be_to_nat: "nat_to_be (length cs) (be_to_nat cs) = cs"
proof (induction cs rule: rev_induct)
  case Nil
  then show ?case by simp
next
  case (snoc c cs)
  have lt: "of_char c < (256 :: nat)" by simp
  then show ?case using snoc by simp
qed

lemma nat_to_be_mod: "nat_to_be k (x mod 256 ^ k) = nat_to_be k x"
  by (metis be_to_nat_of_nat_to_be length_nat_to_be nat_to_be_of_be_to_nat)

subsection \<open>Object representation of the integer types\<close>

text \<open>The bytes of an object of \<open>k\<close> bytes at increasing addresses, and the value that
  \<open>memcpy\<close> of those bytes into such an object gives.\<close>

definition mem_bytes :: "endian \<Rightarrow> nat \<Rightarrow> 'w::len word \<Rightarrow> char list" where
  "mem_bytes e k w =
     (case e of Big \<Rightarrow> nat_to_be k (unat w) | Little \<Rightarrow> rev (nat_to_be k (unat w)))"

definition mem_load :: "endian \<Rightarrow> char list \<Rightarrow> 'w::len word" where
  "mem_load e cs =
     (case e of Big \<Rightarrow> of_nat (be_to_nat cs) | Little \<Rightarrow> of_nat (be_to_nat (rev cs)))"

text \<open>Reversing the bytes of a value, as the \<open>bswap\<close> instructions do.\<close>

definition byteswap :: "nat \<Rightarrow> 'w::len word \<Rightarrow> 'w word" where
  "byteswap k w = of_nat (be_to_nat (rev (nat_to_be k (unat w))))"

definition hostToNetwork64 :: "endian \<Rightarrow> 64 word \<Rightarrow> 64 word" where
  "hostToNetwork64 e host64 = (case e of Little \<Rightarrow> byteswap 8 host64 | Big \<Rightarrow> host64)"

definition hostToNetwork32 :: "endian \<Rightarrow> 32 word \<Rightarrow> 32 word" where
  "hostToNetwork32 e host32 = (case e of Little \<Rightarrow> byteswap 4 host32 | Big \<Rightarrow> host32)"

definition hostToNetwork16 :: "endian \<Rightarrow> 16 word \<Rightarrow> 16 word" where
  "hostToNetwork16 e host16 = (case e of Little \<Rightarrow> byteswap 2 host16 | Big \<Rightarrow> host16)"

definition networkToHost64 :: "endian \<Rightarrow> 64 word \<Rightarrow> 64 word" where
  "networkToHost64 e net64 = (case e of Little \<Rightarrow> byteswap 8 net64 | Big \<Rightarrow> net64)"

definition networkToHost32 :: "endian \<Rightarrow> 32 word \<Rightarrow> 32 word" where
  "networkToHost32 e net32 = (case e of Little \<Rightarrow> byteswap 4 net32 | Big \<Rightarrow> net32)"

definition networkToHost16 :: "endian \<Rightarrow> 16 word \<Rightarrow> 16 word" where
  "networkToHost16 e net16 = (case e of Little \<Rightarrow> byteswap 2 net16 | Big \<Rightarrow> net16)"

lemmas byte_order_defs = hostToNetwork64_def hostToNetwork32_def hostToNetwork16_def
  networkToHost64_def networkToHost32_def networkToHost16_def

lemma length_mem_bytes [simp]: "length (mem_bytes e k w) = k"
  by (cases e) (auto simp: mem_bytes_def)

lemma unat_byteswap:
  assumes "256 ^ k = (2 :: nat) ^ LENGTH('w::len)"
  shows "unat (byteswap k (w :: 'w word)) = be_to_nat (rev (nat_to_be k (unat w)))"
proof -
  have "be_to_nat (rev (nat_to_be k (unat w))) < 256 ^ k"
    using be_to_nat_bound [of "rev (nat_to_be k (unat w))"] by simp
  then show ?thesis using assms by (simp add: byteswap_def unat_of_nat)
qed

lemma nat_to_be_byteswap:
  assumes "256 ^ k = (2 :: nat) ^ LENGTH('w::len)"
  shows "nat_to_be k (unat (byteswap k (w :: 'w word))) = rev (nat_to_be k (unat w))"
  using nat_to_be_of_be_to_nat [of "rev (nat_to_be k (unat w))"]
  by (simp add: unat_byteswap [OF assms])

lemma byteswap_byteswap:
  assumes "256 ^ k = (2 :: nat) ^ LENGTH('w::len)"
  shows "byteswap k (byteswap k (w :: 'w word)) = w"
proof -
  have "unat w mod 256 ^ k = unat w" using assms by simp
  then show ?thesis
    by (simp add: byteswap_def [of k "byteswap k w"] nat_to_be_byteswap [OF assms]
        be_to_nat_of_nat_to_be)
qed

lemma networkToHost_hostToNetwork [simp]:
  "networkToHost64 e (hostToNetwork64 e a) = a"
  "networkToHost32 e (hostToNetwork32 e b) = b"
  "networkToHost16 e (hostToNetwork16 e c) = c"
  by (cases e; simp add: byte_order_defs byteswap_byteswap)+

text \<open>The stored bytes are the big-endian encoding, whatever the host.\<close>

lemma mem_bytes_hostToNetwork:
  "mem_bytes e 8 (hostToNetwork64 e a) = nat_to_be 8 (unat a)"
  "mem_bytes e 4 (hostToNetwork32 e b) = nat_to_be 4 (unat b)"
  "mem_bytes e 2 (hostToNetwork16 e c) = nat_to_be 2 (unat c)"
  by (cases e; simp add: byte_order_defs mem_bytes_def nat_to_be_byteswap)+

lemma mem_load_mem_bytes:
  assumes "256 ^ k = (2 :: nat) ^ LENGTH('w::len)"
  shows "mem_load e (mem_bytes e k (w :: 'w word)) = w"
proof -
  have "unat w mod 256 ^ k = unat w" using assms by simp
  then show ?thesis
    by (cases e) (simp_all add: mem_load_def mem_bytes_def be_to_nat_of_nat_to_be)
qed

lemma mem_load_network:
  "networkToHost64 e (mem_load e (nat_to_be 8 (unat a))) = a"
  "networkToHost32 e (mem_load e (nat_to_be 4 (unat b))) = b"
  "networkToHost16 e (mem_load e (nat_to_be 2 (unat c))) = c"
  by (simp_all only: mem_bytes_hostToNetwork [of e, symmetric])
    (simp_all add: mem_load_mem_bytes)

end
