(* ===== verification/Buffer.thy ===== *)
theory Buffer
  imports ByteOrder
begin

text \<open>
  The growable byte buffer of \<open>net/Buffer.h\<close> and \<open>net/Buffer.cc\<close>: every public
  operation, with its assertions. A pointer into the buffer is its offset from
  \<open>begin()\<close>; \<open>NULL\<close> is \<open>None\<close>. The system call \<open>readv\<close> is a parameter of
  \<open>Buffer_readFd\<close>.

  \<open>Buffer_wf\<close> is the class invariant \<open>readerIndex <= writerIndex <= size\<close> together
  with \<open>kCheapPrepend <= size\<close>. \<open>Buffer_content\<close> is the abstract value, the
  readable bytes; each operation is related to the operation on byte sequences it
  implements. The locale \<open>byte_queue\<close> is the contract the rest of the library uses.
\<close>

subsection \<open>State\<close>

definition kCheapPrepend :: nat where "kCheapPrepend = 8"

definition kInitialSize :: nat where "kInitialSize = 1024"

definition kCRLF :: string where "kCRLF = [CHR 0x0D, CHR 0x0A]"

record buffer =
  buffer_data :: "char list"
  readerIndex :: nat
  writerIndex :: nat

definition Buffer_ctor :: "nat \<Rightarrow> buffer" where
  "Buffer_ctor initialSize =
     \<lparr>buffer_data = replicate (kCheapPrepend + initialSize) (CHR 0x00),
      readerIndex = kCheapPrepend, writerIndex = kCheapPrepend\<rparr>"

abbreviation Buffer_default :: buffer where
  "Buffer_default \<equiv> Buffer_ctor kInitialSize"

definition Buffer_swap :: "buffer \<Rightarrow> buffer \<Rightarrow> buffer \<times> buffer" where
  "Buffer_swap b rhs =
     (b\<lparr>buffer_data := buffer_data rhs, readerIndex := readerIndex rhs,
        writerIndex := writerIndex rhs\<rparr>,
      rhs\<lparr>buffer_data := buffer_data b, readerIndex := readerIndex b,
          writerIndex := writerIndex b\<rparr>)"

subsection \<open>Observers\<close>

definition Buffer_readableBytes :: "buffer \<Rightarrow> nat" where
  "Buffer_readableBytes b = writerIndex b - readerIndex b"

definition Buffer_writableBytes :: "buffer \<Rightarrow> nat" where
  "Buffer_writableBytes b = length (buffer_data b) - writerIndex b"

definition Buffer_prependableBytes :: "buffer \<Rightarrow> nat" where
  "Buffer_prependableBytes b = readerIndex b"

definition Buffer_peek :: "buffer \<Rightarrow> nat" where
  "Buffer_peek b = readerIndex b"

definition Buffer_beginWrite :: "buffer \<Rightarrow> nat" where
  "Buffer_beginWrite b = writerIndex b"

text \<open>The bytes of the half-open range of pointers \<open>[p, q)\<close>.\<close>

definition Buffer_range :: "buffer \<Rightarrow> nat \<Rightarrow> nat \<Rightarrow> char list" where
  "Buffer_range b p q = subrange (buffer_data b) p q"

definition Buffer_findCRLF :: "buffer \<Rightarrow> nat option" where
  "Buffer_findCRLF b =
     (let crlf = Buffer_peek b
            + std_search kCRLF (Buffer_range b (Buffer_peek b) (Buffer_beginWrite b))
      in if crlf = Buffer_beginWrite b then None else Some crlf)"

definition Buffer_findCRLF_from :: "buffer \<Rightarrow> nat \<Rightarrow> nat option option" where
  "Buffer_findCRLF_from b start = do {
     cassert (Buffer_peek b \<le> start);
     cassert (start \<le> Buffer_beginWrite b);
     let crlf = start + std_search kCRLF (Buffer_range b start (Buffer_beginWrite b));
     Some (if crlf = Buffer_beginWrite b then None else Some crlf)
   }"

definition Buffer_findEOL :: "buffer \<Rightarrow> nat option" where
  "Buffer_findEOL b =
     map_option (\<lambda>i. Buffer_peek b + i)
       (memchr (CHR 0x0A) (Buffer_range b (Buffer_peek b) (Buffer_beginWrite b)))"

definition Buffer_findEOL_from :: "buffer \<Rightarrow> nat \<Rightarrow> nat option option" where
  "Buffer_findEOL_from b start = do {
     cassert (Buffer_peek b \<le> start);
     cassert (start \<le> Buffer_beginWrite b);
     Some (map_option (\<lambda>i. start + i)
       (memchr (CHR 0x0A) (Buffer_range b start (Buffer_beginWrite b))))
   }"

subsection \<open>Consuming\<close>

definition Buffer_retrieveAll :: "buffer \<Rightarrow> buffer" where
  "Buffer_retrieveAll b = b\<lparr>readerIndex := kCheapPrepend, writerIndex := kCheapPrepend\<rparr>"

definition Buffer_retrieve :: "buffer \<Rightarrow> nat \<Rightarrow> buffer option" where
  "Buffer_retrieve b len = do {
     cassert (len \<le> Buffer_readableBytes b);
     Some (if len < Buffer_readableBytes b
           then b\<lparr>readerIndex := readerIndex b + len\<rparr>
           else Buffer_retrieveAll b)
   }"

definition Buffer_retrieveUntil :: "buffer \<Rightarrow> nat \<Rightarrow> buffer option" where
  "Buffer_retrieveUntil b end_ptr = do {
     cassert (Buffer_peek b \<le> end_ptr);
     cassert (end_ptr \<le> Buffer_beginWrite b);
     Buffer_retrieve b (end_ptr - Buffer_peek b)
   }"

definition Buffer_retrieveInt64 :: "buffer \<Rightarrow> buffer option" where
  "Buffer_retrieveInt64 b = Buffer_retrieve b 8"

definition Buffer_retrieveInt32 :: "buffer \<Rightarrow> buffer option" where
  "Buffer_retrieveInt32 b = Buffer_retrieve b 4"

definition Buffer_retrieveInt16 :: "buffer \<Rightarrow> buffer option" where
  "Buffer_retrieveInt16 b = Buffer_retrieve b 2"

definition Buffer_retrieveInt8 :: "buffer \<Rightarrow> buffer option" where
  "Buffer_retrieveInt8 b = Buffer_retrieve b 1"

definition Buffer_retrieveAsString :: "buffer \<Rightarrow> nat \<Rightarrow> (string \<times> buffer) option" where
  "Buffer_retrieveAsString b len = do {
     cassert (len \<le> Buffer_readableBytes b);
     let result = Buffer_range b (Buffer_peek b) (Buffer_peek b + len);
     b' \<leftarrow> Buffer_retrieve b len;
     Some (result, b')
   }"

definition Buffer_retrieveAllAsString :: "buffer \<Rightarrow> (string \<times> buffer) option" where
  "Buffer_retrieveAllAsString b = Buffer_retrieveAsString b (Buffer_readableBytes b)"

text \<open>\<open>toStringPiece\<close>: a pointer and the number of readable bytes cast to \<open>int\<close>.\<close>

definition Buffer_toStringPiece :: "buffer \<Rightarrow> nat \<times> int" where
  "Buffer_toStringPiece b = (Buffer_peek b, to_int32 (Buffer_readableBytes b))"

subsection \<open>Producing\<close>

definition Buffer_makeSpace :: "buffer \<Rightarrow> nat \<Rightarrow> buffer option" where
  "Buffer_makeSpace b len =
     (if Buffer_writableBytes b + Buffer_prependableBytes b < len + kCheapPrepend
      then do {
        d \<leftarrow> vector_resize (CHR 0x00) (buffer_data b) (writerIndex b + len);
        Some (b\<lparr>buffer_data := d\<rparr>)
      }
      else do {
        cassert (kCheapPrepend < readerIndex b);
        let readable = Buffer_readableBytes b;
        d \<leftarrow> overwrite (buffer_data b) kCheapPrepend
               (Buffer_range b (readerIndex b) (writerIndex b));
        let b' = b\<lparr>buffer_data := d, readerIndex := kCheapPrepend,
                   writerIndex := kCheapPrepend + readable\<rparr>;
        cassert (readable = Buffer_readableBytes b');
        Some b'
      })"

definition Buffer_ensureWritableBytes :: "buffer \<Rightarrow> nat \<Rightarrow> buffer option" where
  "Buffer_ensureWritableBytes b len = do {
     b' \<leftarrow> (if Buffer_writableBytes b < len then Buffer_makeSpace b len else Some b);
     cassert (len \<le> Buffer_writableBytes b');
     Some b'
   }"

definition Buffer_hasWritten :: "buffer \<Rightarrow> nat \<Rightarrow> buffer option" where
  "Buffer_hasWritten b len = do {
     cassert (len \<le> Buffer_writableBytes b);
     Some (b\<lparr>writerIndex := writerIndex b + len\<rparr>)
   }"

definition Buffer_append :: "buffer \<Rightarrow> char list \<Rightarrow> buffer option" where
  "Buffer_append b data = do {
     b \<leftarrow> Buffer_ensureWritableBytes b (length data);
     d \<leftarrow> overwrite (buffer_data b) (Buffer_beginWrite b) data;
     Buffer_hasWritten (b\<lparr>buffer_data := d\<rparr>) (length data)
   }"

definition Buffer_unwrite :: "buffer \<Rightarrow> nat \<Rightarrow> buffer option" where
  "Buffer_unwrite b len = do {
     cassert (len \<le> Buffer_readableBytes b);
     Some (b\<lparr>writerIndex := writerIndex b - len\<rparr>)
   }"

definition Buffer_prepend :: "buffer \<Rightarrow> char list \<Rightarrow> buffer option" where
  "Buffer_prepend b data = do {
     cassert (length data \<le> Buffer_prependableBytes b);
     let r = readerIndex b - length data;
     d \<leftarrow> overwrite (buffer_data b) r data;
     Some (b\<lparr>buffer_data := d, readerIndex := r\<rparr>)
   }"

text \<open>\<open>shrink\<close> goes through \<open>toStringPiece\<close>: the length is an \<open>int\<close> that becomes a
  \<open>size_t\<close> again in \<open>append\<close>, where a negative one exceeds every vector.\<close>

definition Buffer_shrink :: "buffer \<Rightarrow> nat \<Rightarrow> buffer option" where
  "Buffer_shrink b reserve = do {
     other \<leftarrow> Buffer_ensureWritableBytes Buffer_default (Buffer_readableBytes b + reserve);
     let (p, n) = Buffer_toStringPiece b;
     cassert (0 \<le> n);
     other \<leftarrow> Buffer_append other (Buffer_range b p (p + nat n));
     Some (fst (Buffer_swap b other))
   }"

subsection \<open>Integers in network byte order\<close>

definition Buffer_appendInt64 :: "endian \<Rightarrow> buffer \<Rightarrow> 64 word \<Rightarrow> buffer option" where
  "Buffer_appendInt64 e b x = Buffer_append b (mem_bytes e 8 (hostToNetwork64 e x))"

definition Buffer_appendInt32 :: "endian \<Rightarrow> buffer \<Rightarrow> 32 word \<Rightarrow> buffer option" where
  "Buffer_appendInt32 e b x = Buffer_append b (mem_bytes e 4 (hostToNetwork32 e x))"

definition Buffer_appendInt16 :: "endian \<Rightarrow> buffer \<Rightarrow> 16 word \<Rightarrow> buffer option" where
  "Buffer_appendInt16 e b x = Buffer_append b (mem_bytes e 2 (hostToNetwork16 e x))"

definition Buffer_appendInt8 :: "endian \<Rightarrow> buffer \<Rightarrow> 8 word \<Rightarrow> buffer option" where
  "Buffer_appendInt8 e b x = Buffer_append b (mem_bytes e 1 x)"

definition Buffer_peekInt64 :: "endian \<Rightarrow> buffer \<Rightarrow> 64 word option" where
  "Buffer_peekInt64 e b = do {
     cassert (8 \<le> Buffer_readableBytes b);
     Some (networkToHost64 e (mem_load e (Buffer_range b (Buffer_peek b) (Buffer_peek b + 8))))
   }"

definition Buffer_peekInt32 :: "endian \<Rightarrow> buffer \<Rightarrow> 32 word option" where
  "Buffer_peekInt32 e b = do {
     cassert (4 \<le> Buffer_readableBytes b);
     Some (networkToHost32 e (mem_load e (Buffer_range b (Buffer_peek b) (Buffer_peek b + 4))))
   }"

definition Buffer_peekInt16 :: "endian \<Rightarrow> buffer \<Rightarrow> 16 word option" where
  "Buffer_peekInt16 e b = do {
     cassert (2 \<le> Buffer_readableBytes b);
     Some (networkToHost16 e (mem_load e (Buffer_range b (Buffer_peek b) (Buffer_peek b + 2))))
   }"

definition Buffer_peekInt8 :: "endian \<Rightarrow> buffer \<Rightarrow> 8 word option" where
  "Buffer_peekInt8 e b = do {
     cassert (1 \<le> Buffer_readableBytes b);
     Some (mem_load e (Buffer_range b (Buffer_peek b) (Buffer_peek b + 1)))
   }"

definition Buffer_readInt64 :: "endian \<Rightarrow> buffer \<Rightarrow> (64 word \<times> buffer) option" where
  "Buffer_readInt64 e b = do {
     result \<leftarrow> Buffer_peekInt64 e b;
     b' \<leftarrow> Buffer_retrieveInt64 b;
     Some (result, b')
   }"

definition Buffer_readInt32 :: "endian \<Rightarrow> buffer \<Rightarrow> (32 word \<times> buffer) option" where
  "Buffer_readInt32 e b = do {
     result \<leftarrow> Buffer_peekInt32 e b;
     b' \<leftarrow> Buffer_retrieveInt32 b;
     Some (result, b')
   }"

definition Buffer_readInt16 :: "endian \<Rightarrow> buffer \<Rightarrow> (16 word \<times> buffer) option" where
  "Buffer_readInt16 e b = do {
     result \<leftarrow> Buffer_peekInt16 e b;
     b' \<leftarrow> Buffer_retrieveInt16 b;
     Some (result, b')
   }"

definition Buffer_readInt8 :: "endian \<Rightarrow> buffer \<Rightarrow> (8 word \<times> buffer) option" where
  "Buffer_readInt8 e b = do {
     result \<leftarrow> Buffer_peekInt8 e b;
     b' \<leftarrow> Buffer_retrieveInt8 b;
     Some (result, b')
   }"

definition Buffer_prependInt64 :: "endian \<Rightarrow> buffer \<Rightarrow> 64 word \<Rightarrow> buffer option" where
  "Buffer_prependInt64 e b x = Buffer_prepend b (mem_bytes e 8 (hostToNetwork64 e x))"

definition Buffer_prependInt32 :: "endian \<Rightarrow> buffer \<Rightarrow> 32 word \<Rightarrow> buffer option" where
  "Buffer_prependInt32 e b x = Buffer_prepend b (mem_bytes e 4 (hostToNetwork32 e x))"

definition Buffer_prependInt16 :: "endian \<Rightarrow> buffer \<Rightarrow> 16 word \<Rightarrow> buffer option" where
  "Buffer_prependInt16 e b x = Buffer_prepend b (mem_bytes e 2 (hostToNetwork16 e x))"

definition Buffer_prependInt8 :: "endian \<Rightarrow> buffer \<Rightarrow> 8 word \<Rightarrow> buffer option" where
  "Buffer_prependInt8 e b x = Buffer_prepend b (mem_bytes e 1 x)"

subsection \<open>Reading from a descriptor\<close>

definition extrabuf_size :: nat where "extrabuf_size = 65536"

text \<open>
  \<open>readv\<close> takes the lengths of the buffers it may fill and gives an error number or
  the bytes read, which fill the buffers in order. The result of \<open>readFd\<close> is the
  return value, the error number stored through \<open>savedErrno\<close>, if any, and the buffer.
\<close>

type_synonym readv_fun = "nat list \<Rightarrow> int + char list"

definition readv_ok :: "readv_fun \<Rightarrow> bool" where
  "readv_ok readv \<longleftrightarrow> (\<forall>lens data. readv lens = Inr data \<longrightarrow> length data \<le> sum_list lens)"

definition Buffer_readFd :: "readv_fun \<Rightarrow> buffer \<Rightarrow> (int \<times> int option \<times> buffer) option" where
  "Buffer_readFd readv b =
     (let writable = Buffer_writableBytes b;
          lens = (if writable < extrabuf_size then [writable, extrabuf_size] else [writable])
      in case readv lens of
           Inl errno \<Rightarrow> Some (-1, Some errno, b)
         | Inr data \<Rightarrow> do {
             d \<leftarrow> overwrite (buffer_data b) (writerIndex b) (take writable data);
             let b1 = b\<lparr>buffer_data := d\<rparr>;
             b2 \<leftarrow> (if length data \<le> writable
                    then Some (b1\<lparr>writerIndex := writerIndex b1 + length data\<rparr>)
                    else Buffer_append (b1\<lparr>writerIndex := length (buffer_data b1)\<rparr>)
                           (drop writable data));
             Some (int (length data), None, b2)
           })"

lemmas buffer_eval = kCheapPrepend_def kInitialSize_def max_size_def int_max_def kCRLF_def
  Buffer_ctor_def Buffer_swap_def Buffer_readableBytes_def Buffer_writableBytes_def
  Buffer_prependableBytes_def Buffer_peek_def Buffer_beginWrite_def Buffer_range_def
  Buffer_findCRLF_def Buffer_findEOL_def Buffer_retrieveAll_def Buffer_retrieve_def
  Buffer_retrieveUntil_def Buffer_retrieveAsString_def Buffer_makeSpace_def
  Buffer_ensureWritableBytes_def Buffer_hasWritten_def Buffer_append_def Buffer_unwrite_def
  Buffer_prepend_def vector_resize_def overwrite_def subrange_def memchr_def

subsection \<open>Invariant and abstract value\<close>

definition Buffer_wf :: "buffer \<Rightarrow> bool" where
  "Buffer_wf b \<longleftrightarrow> readerIndex b \<le> writerIndex b \<and> writerIndex b \<le> length (buffer_data b) \<and>
     kCheapPrepend \<le> length (buffer_data b) \<and> length (buffer_data b) \<le> max_size"

definition Buffer_content :: "buffer \<Rightarrow> char list" where
  "Buffer_content b = Buffer_range b (readerIndex b) (writerIndex b)"

text \<open>The high end of the bytes in use; appending \<open>n\<close> bytes raises it by at most \<open>n\<close>.\<close>

definition Buffer_used :: "buffer \<Rightarrow> nat" where
  "Buffer_used b = max kCheapPrepend (writerIndex b)"

lemmas buffer_observers = Buffer_readableBytes_def Buffer_writableBytes_def
  Buffer_prependableBytes_def Buffer_peek_def Buffer_beginWrite_def Buffer_range_def

lemma max_size_large: "kCheapPrepend + kInitialSize \<le> max_size"
  by (simp add: kCheapPrepend_def kInitialSize_def max_size_def)

lemma length_Buffer_content [simp]:
  "Buffer_wf b \<Longrightarrow> length (Buffer_content b) = Buffer_readableBytes b"
  by (simp add: Buffer_wf_def Buffer_content_def buffer_observers)

lemma Buffer_ctor_wf [wf_intros]:
  "kCheapPrepend + n \<le> max_size \<Longrightarrow> Buffer_wf (Buffer_ctor n)"
  by (simp add: Buffer_wf_def Buffer_ctor_def)

text \<open>The three assertions of the constructor, and its abstract value.\<close>

lemma Buffer_ctor_asserts [simp]:
  "Buffer_readableBytes (Buffer_ctor n) = 0"
  "Buffer_writableBytes (Buffer_ctor n) = n"
  "Buffer_prependableBytes (Buffer_ctor n) = kCheapPrepend"
  "Buffer_content (Buffer_ctor n) = []"
  "Buffer_used (Buffer_ctor n) = kCheapPrepend"
  by (simp_all add: Buffer_ctor_def Buffer_content_def Buffer_used_def buffer_observers)

lemma Buffer_default_wf [simp]: "Buffer_wf Buffer_default"
  by (rule Buffer_ctor_wf [OF max_size_large])

lemma Buffer_range_content:
  "Buffer_wf b \<Longrightarrow> n \<le> Buffer_readableBytes b \<Longrightarrow>
    Buffer_range b (Buffer_peek b) (Buffer_peek b + n) = take n (Buffer_content b)"
  by (simp add: Buffer_content_def buffer_observers take_subrange)

lemma Buffer_used_bound: "Buffer_wf b \<Longrightarrow> Buffer_used b \<le> max_size"
  by (auto simp: Buffer_wf_def Buffer_used_def)

text \<open>A buffer that holds the given bytes, for examples.\<close>

definition buffer_holding :: "string \<Rightarrow> buffer" where
  "buffer_holding s = \<lparr>buffer_data = replicate kCheapPrepend (CHR 0x00) @ s,
     readerIndex = kCheapPrepend, writerIndex = kCheapPrepend + length s\<rparr>"

lemma buffer_holding_content [simp]: "Buffer_content (buffer_holding s) = s"
  by (simp add: Buffer_content_def Buffer_range_def buffer_holding_def subrange_def)

lemma buffer_holding_wf: "length s \<le> 1000 \<Longrightarrow> Buffer_wf (buffer_holding s)"
  by (simp add: Buffer_wf_def buffer_holding_def kCheapPrepend_def max_size_def)

subsection \<open>Consuming\<close>

lemma Buffer_retrieveAll_spec [simp]:
  assumes "Buffer_wf b"
  shows "Buffer_wf (Buffer_retrieveAll b)" "Buffer_content (Buffer_retrieveAll b) = []"
    "Buffer_used (Buffer_retrieveAll b) \<le> Buffer_used b"
  using assms
  by (simp_all add: Buffer_wf_def Buffer_retrieveAll_def Buffer_content_def Buffer_used_def
      buffer_observers)

lemma Buffer_retrieve_defined:
  "Buffer_retrieve b n = None \<longleftrightarrow> Buffer_readableBytes b < n"
  by (simp add: Buffer_retrieve_def not_le)

lemma Buffer_retrieve_spec:
  assumes "Buffer_wf b" and "Buffer_retrieve b n = Some b'"
  shows "Buffer_wf b' \<and> Buffer_content b' = drop n (Buffer_content b) \<and>
    Buffer_used b' \<le> Buffer_used b"
proof (cases "n < Buffer_readableBytes b")
  case True
  then show ?thesis using assms
    by (auto simp: Buffer_retrieve_def Buffer_wf_def Buffer_content_def Buffer_used_def
        buffer_observers drop_subrange)
next
  case False
  then have "b' = Buffer_retrieveAll b" using assms(2)
    by (simp add: Buffer_retrieve_def split: if_splits)
  then show ?thesis using assms(1) False by simp
qed

lemma Buffer_retrieveUntil_eq:
  "Buffer_wf b \<Longrightarrow> n \<le> Buffer_readableBytes b \<Longrightarrow>
    Buffer_retrieveUntil b (Buffer_peek b + n) = Buffer_retrieve b n"
  by (auto simp: Buffer_retrieveUntil_def Buffer_wf_def buffer_observers)

lemma Buffer_retrieveAsString_spec:
  assumes "Buffer_wf b" and "n \<le> Buffer_readableBytes b"
  obtains b' where "Buffer_retrieveAsString b n = Some (take n (Buffer_content b), b')"
    and "Buffer_retrieve b n = Some b'"
proof -
  obtain b' where "Buffer_retrieve b n = Some b'"
    using assms(2) Buffer_retrieve_defined [of b n] by fastforce
  then show ?thesis using that assms
    by (simp add: Buffer_retrieveAsString_def Buffer_range_content)
qed

lemma Buffer_retrieveAllAsString_spec:
  assumes "Buffer_wf b"
  obtains b' where "Buffer_retrieveAllAsString b = Some (Buffer_content b, b')"
    and "Buffer_wf b'" and "Buffer_content b' = []"
proof -
  obtain b' where b': "Buffer_retrieveAsString b (Buffer_readableBytes b) =
      Some (take (Buffer_readableBytes b) (Buffer_content b), b')"
      "Buffer_retrieve b (Buffer_readableBytes b) = Some b'"
    by (rule Buffer_retrieveAsString_spec [OF assms order_refl])
  show ?thesis
    by (rule that [of b'])
      (use b' assms Buffer_retrieve_spec [OF assms b'(2)] in
        \<open>simp_all add: Buffer_retrieveAllAsString_def\<close>)
qed

subsection \<open>Producing\<close>

lemma Buffer_makeSpace_spec:
  assumes wf: "Buffer_wf b" and small: "Buffer_writableBytes b < n"
    and fits: "Buffer_writableBytes b + Buffer_prependableBytes b < n + kCheapPrepend \<Longrightarrow>
      writerIndex b + n \<le> max_size"
  obtains b' where "Buffer_makeSpace b n = Some b'" and "Buffer_wf b'"
    and "Buffer_content b' = Buffer_content b" and "n \<le> Buffer_writableBytes b'"
    and "writerIndex b' \<le> writerIndex b"
proof (cases "Buffer_writableBytes b + Buffer_prependableBytes b < n + kCheapPrepend")
  case True
  define z :: "char list"
    where "z = replicate (writerIndex b + n - length (buffer_data b)) (CHR 0x00)"
  have len: "length (buffer_data b) \<le> writerIndex b + n"
    using wf small by (simp add: Buffer_wf_def buffer_observers)
  have "Buffer_makeSpace b n = Some (b\<lparr>buffer_data := buffer_data b @ z\<rparr>)"
    using True fits len by (simp add: Buffer_makeSpace_def run_simps z_def)
  then show ?thesis
    by (rule that) (use wf len fits [OF True] in
      \<open>auto simp: Buffer_wf_def Buffer_content_def buffer_observers subrange_def z_def\<close>)
next
  case False
  define d where "d = take kCheapPrepend (buffer_data b) @ Buffer_content b @
      drop (kCheapPrepend + Buffer_readableBytes b) (buffer_data b)"
  have r: "kCheapPrepend < readerIndex b"
    using False small by (simp add: buffer_observers)
  have ow: "overwrite (buffer_data b) kCheapPrepend (Buffer_content b) = Some d"
    using wf r by (simp add: overwrite_def d_def) (auto simp: Buffer_wf_def buffer_observers)
  have len: "length d = length (buffer_data b)"
    using ow by (rule length_overwrite)
  have "Buffer_makeSpace b n = Some (b\<lparr>buffer_data := d, readerIndex := kCheapPrepend,
      writerIndex := kCheapPrepend + Buffer_readableBytes b\<rparr>)"
    using False r ow by (simp add: Buffer_makeSpace_def Buffer_content_def Buffer_readableBytes_def
        Let_def)
  then show ?thesis
  proof (rule that)
    have "subrange d kCheapPrepend (kCheapPrepend + Buffer_readableBytes b) = Buffer_content b"
      using wf by (simp add: subrange_def d_def Buffer_wf_def [of b])
    then show "Buffer_content (b\<lparr>buffer_data := d, readerIndex := kCheapPrepend,
        writerIndex := kCheapPrepend + Buffer_readableBytes b\<rparr>) = Buffer_content b"
      by (simp add: Buffer_content_def [of "b\<lparr>buffer_data := _, readerIndex := _,
        writerIndex := _\<rparr>"] Buffer_range_def)
  qed (use wf r len False in \<open>auto simp: Buffer_wf_def buffer_observers\<close>)
qed

lemma Buffer_ensureWritableBytes_spec:
  assumes wf: "Buffer_wf b"
    and fits: "Buffer_writableBytes b + Buffer_prependableBytes b < n + kCheapPrepend \<Longrightarrow>
      Buffer_writableBytes b < n \<Longrightarrow> writerIndex b + n \<le> max_size"
  obtains b' where "Buffer_ensureWritableBytes b n = Some b'" and "Buffer_wf b'"
    and "Buffer_content b' = Buffer_content b" and "n \<le> Buffer_writableBytes b'"
    and "writerIndex b' \<le> writerIndex b"
proof (cases "Buffer_writableBytes b < n")
  case True
  from wf True fits [OF _ True] obtain b' where "Buffer_makeSpace b n = Some b'" "Buffer_wf b'"
      "Buffer_content b' = Buffer_content b" "n \<le> Buffer_writableBytes b'"
      "writerIndex b' \<le> writerIndex b"
    by (rule Buffer_makeSpace_spec)
  then show ?thesis using that True by (simp add: Buffer_ensureWritableBytes_def)
next
  case False
  then show ?thesis using that wf by (simp add: Buffer_ensureWritableBytes_def)
qed

lemma subrange_overwrite_end:
  assumes "r \<le> w" "w + length src \<le> length xs"
  shows "subrange (take w xs @ src @ drop (w + length src) xs) r (w + length src) =
    subrange xs r w @ src"
  using assms by (simp add: subrange_def take_drop)

lemma subrange_overwrite_front:
  assumes "length src \<le> r" "r \<le> w" "w \<le> length xs"
  shows "subrange (take (r - length src) xs @ src @ drop r xs) (r - length src) w =
    src @ subrange xs r w"
  using assms by (simp add: subrange_def)

lemma Buffer_append_after_ensure:
  assumes b1: "Buffer_ensureWritableBytes b (length data) = Some b1" "Buffer_wf b1"
      "Buffer_content b1 = Buffer_content b" "length data \<le> Buffer_writableBytes b1"
      "writerIndex b1 \<le> writerIndex b"
  shows "\<exists>b'. Buffer_append b data = Some b' \<and> Buffer_wf b' \<and>
    Buffer_content b' = Buffer_content b @ data \<and>
    Buffer_used b' \<le> Buffer_used b + length data"
proof -
  define d where "d = take (writerIndex b1) (buffer_data b1) @ data @
      drop (writerIndex b1 + length data) (buffer_data b1)"
  define b' where "b' = b1\<lparr>buffer_data := d, writerIndex := writerIndex b1 + length data\<rparr>"
  have le: "writerIndex b1 + length data \<le> length (buffer_data b1)"
    using b1(2,4) by (auto simp: Buffer_wf_def buffer_observers)
  then have "length d = length (buffer_data b1)" by (simp add: d_def)
  then have "Buffer_append b data = Some b'" "Buffer_wf b'"
      "Buffer_used b' \<le> Buffer_used b + length data"
    using b1 le by (auto simp: Buffer_append_def Buffer_hasWritten_def buffer_observers
        run_simps b'_def Buffer_wf_def Buffer_used_def d_def [symmetric])
  moreover have "Buffer_content b' = Buffer_content b @ data"
    using b1(2) le unfolding b1(3) [symmetric]
    by (simp add: b'_def Buffer_content_def Buffer_range_def d_def subrange_overwrite_end Buffer_wf_def)
  ultimately show ?thesis by blast
qed

lemma Buffer_append_spec:
  assumes wf: "Buffer_wf b" and fits: "Buffer_used b + length data \<le> max_size"
  shows "\<exists>b'. Buffer_append b data = Some b' \<and> Buffer_wf b' \<and>
    Buffer_content b' = Buffer_content b @ data \<and>
    Buffer_used b' \<le> Buffer_used b + length data"
proof -
  have "writerIndex b + length data \<le> max_size"
    using fits by (simp add: Buffer_used_def)
  with wf obtain b1 where b1: "Buffer_ensureWritableBytes b (length data) = Some b1"
      "Buffer_wf b1" "Buffer_content b1 = Buffer_content b"
      "length data \<le> Buffer_writableBytes b1" "writerIndex b1 \<le> writerIndex b"
    by (rule Buffer_ensureWritableBytes_spec)
  then show ?thesis by (rule Buffer_append_after_ensure)
qed

text \<open>A growth that goes through is within \<open>max_size\<close>, so the effect of an operation that
  returns needs no capacity hypothesis.\<close>

lemma Buffer_ensureWritableBytes_SomeD:
  assumes wf: "Buffer_wf b" and ret: "Buffer_ensureWritableBytes b n = Some b'"
  shows "Buffer_wf b' \<and> Buffer_content b' = Buffer_content b \<and> n \<le> Buffer_writableBytes b' \<and>
    writerIndex b' \<le> writerIndex b"
proof -
  have "writerIndex b + n \<le> max_size"
    if "Buffer_writableBytes b + Buffer_prependableBytes b < n + kCheapPrepend"
      "Buffer_writableBytes b < n"
    using that ret by (auto simp: Buffer_ensureWritableBytes_def Buffer_makeSpace_def
        vector_resize_def split: if_splits)
  with wf obtain b1 where "Buffer_ensureWritableBytes b n = Some b1" "Buffer_wf b1"
      "Buffer_content b1 = Buffer_content b" "n \<le> Buffer_writableBytes b1"
      "writerIndex b1 \<le> writerIndex b"
    by (rule Buffer_ensureWritableBytes_spec)
  then show ?thesis using ret by simp
qed

lemma Buffer_append_SomeD:
  assumes wf: "Buffer_wf b" and ret: "Buffer_append b d = Some b'"
  shows "Buffer_wf b' \<and> Buffer_content b' = Buffer_content b @ d \<and>
    Buffer_used b' \<le> Buffer_used b + length d"
proof -
  obtain b1 where b1: "Buffer_ensureWritableBytes b (length d) = Some b1"
    using ret by (auto simp: Buffer_append_def elim: bind_eq_SomeE)
  from Buffer_append_after_ensure [OF b1] Buffer_ensureWritableBytes_SomeD [OF wf b1] ret
  show ?thesis by auto
qed

lemma Buffer_prepend_defined:
  "Buffer_wf b \<Longrightarrow> Buffer_prepend b data = None \<longleftrightarrow> readerIndex b < length data"
  by (auto simp: Buffer_prepend_def Buffer_wf_def buffer_observers overwrite_def Let_def not_le)

lemma Buffer_prepend_spec:
  assumes wf: "Buffer_wf b" and "Buffer_prepend b data = Some b'"
  shows "Buffer_wf b' \<and> Buffer_content b' = data @ Buffer_content b \<and>
    Buffer_used b' = Buffer_used b"
proof -
  have le: "length data \<le> readerIndex b"
    using assms Buffer_prepend_defined [OF wf, of data] by fastforce
  then have b': "b' = b\<lparr>buffer_data := take (readerIndex b - length data) (buffer_data b) @
      data @ drop (readerIndex b) (buffer_data b), readerIndex := readerIndex b - length data\<rparr>"
    using assms by (auto simp: Buffer_prepend_def overwrite_def buffer_observers Let_def
        split: if_splits)
  then show ?thesis using wf le
    by (auto simp: Buffer_wf_def Buffer_used_def Buffer_content_def Buffer_range_def
        subrange_overwrite_front)
qed

lemma Buffer_unwrite_spec:
  assumes "Buffer_wf b" and "n \<le> Buffer_readableBytes b"
  obtains b' where "Buffer_unwrite b n = Some b'" and "Buffer_wf b'"
    and "Buffer_content b' = take (Buffer_readableBytes b - n) (Buffer_content b)"
proof
  show "Buffer_unwrite b n = Some (b\<lparr>writerIndex := writerIndex b - n\<rparr>)"
    using assms by (simp add: Buffer_unwrite_def)
qed (use assms in \<open>auto simp: Buffer_wf_def Buffer_content_def buffer_observers subrange_def
    add.commute\<close>)

subsection \<open>The contract of the buffer towards its clients\<close>

text \<open>A sequence of appends, stopping at the first that fails.\<close>

fun append_all :: "('b \<Rightarrow> char list \<Rightarrow> 'b option) \<Rightarrow> 'b \<Rightarrow> char list list \<Rightarrow> 'b option" where
  "append_all app b [] = Some b"
| "append_all app b (d # ds) = do { b' \<leftarrow> app b d; append_all app b' ds }"

locale byte_queue =
  fixes wf :: "'b \<Rightarrow> bool"
    and content :: "'b \<Rightarrow> char list"
    and used :: "'b \<Rightarrow> nat"
    and app :: "'b \<Rightarrow> char list \<Rightarrow> 'b option"
    and ret :: "'b \<Rightarrow> nat \<Rightarrow> 'b option"
  assumes app_ok: "wf b \<Longrightarrow> used b + length d \<le> max_size \<Longrightarrow>
      \<exists>b'. app b d = Some b' \<and> wf b' \<and> content b' = content b @ d \<and> used b' \<le> used b + length d"
    and ret_ok: "wf b \<Longrightarrow> n \<le> length (content b) \<Longrightarrow>
      \<exists>b'. ret b n = Some b' \<and> wf b' \<and> content b' = drop n (content b) \<and> used b' \<le> used b"
    and ret_fail: "wf b \<Longrightarrow> length (content b) < n \<Longrightarrow> ret b n = None"
begin

lemma append_all_ok:
  "wf b \<Longrightarrow> used b + length (concat ds) \<le> max_size \<Longrightarrow>
    \<exists>b'. append_all app b ds = Some b' \<and> wf b' \<and> content b' = content b @ concat ds \<and>
      used b' \<le> used b + length (concat ds)"
proof (induction ds arbitrary: b)
  case Nil
  then show ?case by simp
next
  case (Cons d ds)
  obtain b1 where b1: "app b d = Some b1" "wf b1" "content b1 = content b @ d"
      "used b1 \<le> used b + length d"
    using app_ok [of b d] Cons.prems by auto
  then have "used b1 + length (concat ds) \<le> max_size" using Cons.prems by simp
  from Cons.IH [OF b1(2) this] b1 show ?case by fastforce
qed

text \<open>What was queued behind \<open>k\<close> pending bytes comes out after exactly those bytes.\<close>

lemma queued_bytes_come_out:
  assumes "wf b" and "used b + length (concat ds) \<le> max_size"
  obtains b1 b2 where "append_all app b ds = Some b1"
    and "ret b1 (length (content b)) = Some b2" and "wf b2" and "content b2 = concat ds"
proof -
  obtain b1 where b1: "append_all app b ds = Some b1" "wf b1"
      "content b1 = content b @ concat ds"
    using append_all_ok [OF assms] by blast
  obtain b2 where "ret b1 (length (content b)) = Some b2" "wf b2" "content b2 = concat ds"
    using ret_ok [of b1 "length (content b)"] b1 by auto
  with b1 that show ?thesis by blast
qed

lemma ret_SomeD:
  assumes "wf b" and "ret b n = Some b'"
  shows "n \<le> length (content b) \<and> wf b' \<and> content b' = drop n (content b)"
proof -
  have "n \<le> length (content b)"
    using assms ret_fail by (metis not_le option.distinct(1))
  then show ?thesis using ret_ok [OF assms(1)] assms(2) by fastforce
qed

end

interpretation buf: byte_queue Buffer_wf Buffer_content Buffer_used Buffer_append Buffer_retrieve
proof
  fix b :: buffer and d :: "char list"
  assume "Buffer_wf b" "Buffer_used b + length d \<le> max_size"
  then show "\<exists>b'. Buffer_append b d = Some b' \<and> Buffer_wf b' \<and>
      Buffer_content b' = Buffer_content b @ d \<and> Buffer_used b' \<le> Buffer_used b + length d"
    by (rule Buffer_append_spec)
next
  fix b :: buffer and n
  assume wf: "Buffer_wf b" and "n \<le> length (Buffer_content b)"
  then obtain b' where "Buffer_retrieve b n = Some b'"
    using Buffer_retrieve_defined [of b n] by fastforce
  with Buffer_retrieve_spec [OF wf this]
  show "\<exists>b'. Buffer_retrieve b n = Some b' \<and> Buffer_wf b' \<and>
      Buffer_content b' = drop n (Buffer_content b) \<and> Buffer_used b' \<le> Buffer_used b"
    by blast
next
  fix b :: buffer and n
  assume "Buffer_wf b" "length (Buffer_content b) < n"
  then show "Buffer_retrieve b n = None"
    by (simp add: Buffer_retrieve_defined)
qed

subsection \<open>Searching\<close>

lemma Buffer_findCRLF_eq:
  assumes "Buffer_wf b"
  shows "Buffer_findCRLF b =
    (let i = std_search kCRLF (Buffer_content b)
     in if i = length (Buffer_content b) then None else Some (Buffer_peek b + i))"
  using assms by (auto simp: Buffer_findCRLF_def Buffer_content_def buffer_observers
      Buffer_wf_def Let_def)

lemma Buffer_findCRLF_Some:
  assumes wf: "Buffer_wf b" and "Buffer_findCRLF b = Some p"
  obtains i where "p = Buffer_peek b + i" and "i + 2 \<le> length (Buffer_content b)"
    and "i = std_search kCRLF (Buffer_content b)"
    and "prefix kCRLF (drop i (Buffer_content b))"
proof -
  define i where "i = std_search kCRLF (Buffer_content b)"
  have "i < length (Buffer_content b)" and p: "p = Buffer_peek b + i"
    using assms std_search_le [of kCRLF "Buffer_content b"]
    by (auto simp: Buffer_findCRLF_eq i_def Let_def split: if_splits)
  then have "i + length kCRLF \<le> length (Buffer_content b)"
      "prefix kCRLF (drop i (Buffer_content b))"
    unfolding i_def by (auto intro: std_search_bound std_search_sound)
  then show ?thesis using that p by (simp add: kCRLF_def i_def)
qed

lemma Buffer_findCRLF_None:
  assumes "Buffer_wf b" and "Buffer_findCRLF b = None"
  shows "\<not> prefix kCRLF (drop i (Buffer_content b))"
  using assms std_search_none [of kCRLF "Buffer_content b" i]
  by (auto simp: Buffer_findCRLF_eq kCRLF_def Let_def split: if_splits)

subsection \<open>Integers in network byte order\<close>

lemma Buffer_peek_be:
  assumes "Buffer_wf b" and "n \<le> Buffer_readableBytes b" and "take n (Buffer_content b) = bs"
  shows "Buffer_range b (Buffer_peek b) (Buffer_peek b + n) = bs"
  using assms by (simp add: Buffer_range_content)

lemma Buffer_readInt32_spec:
  assumes wf: "Buffer_wf b" and c: "Buffer_content b = nat_to_be 4 (unat x) @ rest"
  obtains b' where "Buffer_readInt32 e b = Some (x, b')" and "Buffer_wf b'"
    and "Buffer_content b' = rest"
proof -
  have len: "4 \<le> Buffer_readableBytes b"
    using arg_cong [OF c, of length] wf by simp
  obtain b' where b': "Buffer_retrieve b 4 = Some b'" "Buffer_wf b'"
      "Buffer_content b' = drop 4 (Buffer_content b)"
    using buf.ret_ok [OF wf, of 4] len wf by auto
  have "Buffer_range b (Buffer_peek b) (Buffer_peek b + 4) = nat_to_be 4 (unat x)"
    using wf len by (rule Buffer_peek_be) (simp add: c)
  then have "Buffer_peekInt32 e b = Some x"
    using len by (simp add: Buffer_peekInt32_def mem_load_network)
  then show ?thesis using that b' c
    by (simp add: Buffer_readInt32_def Buffer_retrieveInt32_def)
qed

lemma Buffer_peekInt32_spec:
  assumes wf: "Buffer_wf b" and c: "Buffer_content b = nat_to_be 4 (unat x) @ rest"
  shows "Buffer_peekInt32 e b = Some x"
  using Buffer_readInt32_spec [OF assms, of e] by (auto simp: Buffer_readInt32_def
      elim!: bind_eq_SomeE)

lemma Buffer_readInt64_spec:
  assumes wf: "Buffer_wf b" and c: "Buffer_content b = nat_to_be 8 (unat x) @ rest"
  obtains b' where "Buffer_readInt64 e b = Some (x, b')" and "Buffer_wf b'"
    and "Buffer_content b' = rest"
proof -
  have len: "8 \<le> Buffer_readableBytes b"
    using arg_cong [OF c, of length] wf by simp
  obtain b' where b': "Buffer_retrieve b 8 = Some b'" "Buffer_wf b'"
      "Buffer_content b' = drop 8 (Buffer_content b)"
    using buf.ret_ok [OF wf, of 8] len wf by auto
  have "Buffer_range b (Buffer_peek b) (Buffer_peek b + 8) = nat_to_be 8 (unat x)"
    using wf len by (rule Buffer_peek_be) (simp add: c)
  then have "Buffer_peekInt64 e b = Some x"
    using len by (simp add: Buffer_peekInt64_def mem_load_network)
  then show ?thesis using that b' c
    by (simp add: Buffer_readInt64_def Buffer_retrieveInt64_def)
qed

lemma Buffer_appendInt32_eq:
  "Buffer_appendInt32 e b x = Buffer_append b (nat_to_be 4 (unat x))"
  by (simp add: Buffer_appendInt32_def mem_bytes_hostToNetwork)

lemma Buffer_prependInt32_eq:
  "Buffer_prependInt32 e b x = Buffer_prepend b (nat_to_be 4 (unat x))"
  by (simp add: Buffer_prependInt32_def mem_bytes_hostToNetwork)

lemma Buffer_appendInt64_eq:
  "Buffer_appendInt64 e b x = Buffer_append b (nat_to_be 8 (unat x))"
  by (simp add: Buffer_appendInt64_def mem_bytes_hostToNetwork)

subsection \<open>Sequences of operations\<close>

datatype buffer_op =
    OpAppend "char list" | OpPrepend "char list" | OpRetrieve nat | OpRetrieveAll
  | OpUnwrite nat | OpEnsureWritable nat

fun Buffer_step :: "buffer \<Rightarrow> buffer_op \<Rightarrow> buffer option" where
  "Buffer_step b (OpAppend d) = Buffer_append b d"
| "Buffer_step b (OpPrepend d) = Buffer_prepend b d"
| "Buffer_step b (OpRetrieve n) = Buffer_retrieve b n"
| "Buffer_step b OpRetrieveAll = Some (Buffer_retrieveAll b)"
| "Buffer_step b (OpUnwrite n) = Buffer_unwrite b n"
| "Buffer_step b (OpEnsureWritable n) = Buffer_ensureWritableBytes b n"

fun Buffer_run :: "buffer \<Rightarrow> buffer_op list \<Rightarrow> buffer option" where
  "Buffer_run b [] = Some b"
| "Buffer_run b (x # xs) = do { b' \<leftarrow> Buffer_step b x; Buffer_run b' xs }"

text \<open>The abstract operations, on byte sequences.\<close>

fun seq_step :: "char list \<Rightarrow> buffer_op \<Rightarrow> char list" where
  "seq_step s (OpAppend d) = s @ d"
| "seq_step s (OpPrepend d) = d @ s"
| "seq_step s (OpRetrieve n) = drop n s"
| "seq_step s OpRetrieveAll = []"
| "seq_step s (OpUnwrite n) = take (length s - n) s"
| "seq_step s (OpEnsureWritable n) = s"

lemma Buffer_unwrite_SomeD:
  assumes wf: "Buffer_wf b" and ret: "Buffer_unwrite b n = Some b'"
  shows "Buffer_wf b' \<and> Buffer_content b' = take (Buffer_readableBytes b - n) (Buffer_content b)"
proof -
  have "n \<le> Buffer_readableBytes b"
    using ret by (simp add: Buffer_unwrite_def split: if_splits)
  from wf this show ?thesis
    by (rule Buffer_unwrite_spec) (use ret in simp)
qed

lemma Buffer_step_refines:
  assumes wf: "Buffer_wf b" and ret: "Buffer_step b x = Some b'"
  shows "Buffer_wf b' \<and> Buffer_content b' = seq_step (Buffer_content b) x"
proof (cases x)
  case (OpAppend d)
  then show ?thesis using Buffer_append_SomeD [OF wf] ret by simp
next
  case (OpPrepend d)
  then show ?thesis using Buffer_prepend_spec [OF wf] ret by simp
next
  case (OpRetrieve n)
  then show ?thesis using Buffer_retrieve_spec [OF wf] ret by simp
next
  case OpRetrieveAll
  then show ?thesis using wf ret by auto
next
  case (OpUnwrite n)
  then show ?thesis using Buffer_unwrite_SomeD [OF wf] ret wf by simp
next
  case (OpEnsureWritable n)
  then show ?thesis using Buffer_ensureWritableBytes_SomeD [OF wf] ret by simp
qed

text \<open>C4: Any sequence of buffer operations that returns keeps the class invariant and
  changes the readable bytes exactly as the same operations change a byte sequence,
  whatever growth and compaction of the storage happened on the way.\<close>

theorem Buffer_run_refines_byte_sequence:
  assumes "Buffer_wf b" and "Buffer_run b ops = Some b'"
  shows "Buffer_wf b' \<and> Buffer_content b' = foldl seq_step (Buffer_content b) ops"
  using assms
proof (induction ops arbitrary: b)
  case Nil
  then show ?case by simp
next
  case (Cons x xs)
  then obtain b1 where "Buffer_step b x = Some b1" and r: "Buffer_run b1 xs = Some b'"
    by (auto elim: bind_eq_SomeE)
  with Cons.prems(1) have "Buffer_wf b1" "Buffer_content b1 = seq_step (Buffer_content b) x"
    using Buffer_step_refines by blast+
  then show ?case using Cons.IH [OF _ r] by simp
qed

theorem Buffer_run_refines_byte_sequence_witness:
  "Buffer_wf (Buffer_ctor 4) \<and>
   (\<exists>b'. Buffer_run (Buffer_ctor 4)
      [OpAppend ''abc'', OpRetrieve 2, OpAppend ''defg'', OpPrepend ''zz'', OpUnwrite 1] = Some b' \<and>
    Buffer_wf b' \<and> Buffer_content b' = ''zzcdef'')"
proof -
  let ?ops = "[OpAppend ''abc'', OpRetrieve 2, OpAppend ''defg'', OpPrepend ''zz'', OpUnwrite 1]"
  have wf: "Buffer_wf (Buffer_ctor 4)"
    by (rule Buffer_ctor_wf) (simp add: kCheapPrepend_def max_size_def)
  have "Buffer_run (Buffer_ctor 4) ?ops \<noteq> None"
    by (simp add: buffer_eval)
  then obtain b' where b': "Buffer_run (Buffer_ctor 4) ?ops = Some b'" by blast
  show ?thesis
    using wf b' Buffer_run_refines_byte_sequence [OF wf b'] by simp
qed

text \<open>Appending succeeds whenever the storage can hold the result, and makes the new
  bytes readable after all bytes queued before, in order.\<close>

theorem Buffer_append_total:
  assumes "Buffer_wf b" and "Buffer_used b + length data \<le> max_size"
  shows "\<exists>b'. Buffer_append b data = Some b' \<and> Buffer_wf b' \<and>
    Buffer_content b' = Buffer_content b @ data"
  using buf.app_ok [OF assms] by blast

text \<open>C29: A 64-bit and a 32-bit integer appended behind the pending bytes are read back
  unchanged once those bytes are consumed, on hosts of either byte order.\<close>

theorem Buffer_integers_round_trip:
  assumes wf: "Buffer_wf b" and fits: "Buffer_used b + 12 \<le> max_size"
  shows "\<exists>b1 b2 b3 b4 b5. Buffer_appendInt64 e b x = Some b1 \<and>
    Buffer_appendInt32 e b1 y = Some b2 \<and>
    Buffer_retrieve b2 (Buffer_readableBytes b) = Some b3 \<and>
    Buffer_readInt64 e b3 = Some (x, b4) \<and> Buffer_readInt32 e b4 = Some (y, b5) \<and>
    Buffer_content b5 = []"
proof -
  let ?ds = "[nat_to_be 8 (unat x), nat_to_be 4 (unat y)]"
  have "Buffer_used b + length (concat ?ds) \<le> max_size" using fits by simp
  with wf obtain b2 b3 where b: "append_all Buffer_append b ?ds = Some b2"
      "Buffer_retrieve b2 (length (Buffer_content b)) = Some b3" "Buffer_wf b3"
      "Buffer_content b3 = concat ?ds"
    by (rule buf.queued_bytes_come_out)
  from b(1) obtain b1 where "Buffer_append b (nat_to_be 8 (unat x)) = Some b1"
      "Buffer_append b1 (nat_to_be 4 (unat y)) = Some b2"
    by (auto elim!: bind_eq_SomeE)
  moreover obtain b4 where b4: "Buffer_readInt64 e b3 = Some (x, b4)" "Buffer_wf b4"
      "Buffer_content b4 = nat_to_be 4 (unat y)"
    using b(4) by (auto intro: Buffer_readInt64_spec [OF b(3), of x "nat_to_be 4 (unat y)" e])
  moreover obtain b5 where "Buffer_readInt32 e b4 = Some (y, b5)" "Buffer_content b5 = []"
    using b4(3) by (auto intro: Buffer_readInt32_spec [OF b4(2), of y "[]" e])
  ultimately show ?thesis using b(2) wf
    by (fastforce simp: Buffer_appendInt64_eq Buffer_appendInt32_eq)
qed

theorem Buffer_integers_round_trip_witness:
  "Buffer_wf Buffer_default \<and> Buffer_used Buffer_default + 12 \<le> max_size \<and>
   (\<exists>b1 b2 b3 b4 b5. Buffer_appendInt64 Little Buffer_default (- 2) = Some b1 \<and>
    Buffer_appendInt32 Little b1 258 = Some b2 \<and>
    Buffer_retrieve b2 0 = Some b3 \<and>
    Buffer_readInt64 Little b3 = Some (- 2, b4) \<and> Buffer_readInt32 Little b4 = Some (258, b5) \<and>
    Buffer_content b5 = [])"
proof -
  have fits: "Buffer_used Buffer_default + 12 \<le> max_size"
    by (simp add: kCheapPrepend_def max_size_def)
  show ?thesis
    using fits Buffer_integers_round_trip [OF Buffer_default_wf fits, of Little "- 2" 258] by simp
qed

subsection \<open>Reading from a descriptor\<close>

lemma Buffer_readFd_success:
  assumes wf: "Buffer_wf b"
    and r: "readv (if Buffer_writableBytes b < extrabuf_size
              then [Buffer_writableBytes b, extrabuf_size] else [Buffer_writableBytes b]) = Inr data"
    and fits: "max kCheapPrepend (writerIndex b + min (length data) (Buffer_writableBytes b)) +
      (length data - Buffer_writableBytes b) \<le> max_size"
  shows "\<exists>b'. Buffer_readFd readv b = Some (int (length data), None, b') \<and> Buffer_wf b' \<and>
    Buffer_content b' = Buffer_content b @ data \<and> Buffer_used b' \<le> Buffer_used b + length data"
proof -
  define w where "w = Buffer_writableBytes b"
  define d where "d = take (writerIndex b) (buffer_data b) @ take w data @
      drop (writerIndex b + length (take w data)) (buffer_data b)"
  define b1 where "b1 = b\<lparr>buffer_data := d, writerIndex := writerIndex b + length (take w data)\<rparr>"
  have le: "writerIndex b + length (take w data) \<le> length (buffer_data b)"
    using wf by (auto simp: w_def Buffer_wf_def buffer_observers)
  then have ow: "overwrite (buffer_data b) (writerIndex b) (take w data) = Some d"
    by (simp add: overwrite_def d_def)
  have ld: "length d = length (buffer_data b)" using ow by (rule length_overwrite)
  have b1: "Buffer_wf b1" "Buffer_content b1 = Buffer_content b @ take w data"
    using wf le ld subrange_overwrite_end [of "readerIndex b" "writerIndex b" "take w data"
        "buffer_data b"]
    by (auto simp: b1_def Buffer_wf_def Buffer_content_def Buffer_range_def d_def)
  show ?thesis
  proof (cases "length data \<le> w")
    case True
    then have "Buffer_readFd readv b = Some (int (length data), None, b1)"
      using r ow by (cases "w < extrabuf_size") (simp_all add: Buffer_readFd_def b1_def Let_def w_def)
    moreover have "Buffer_used b1 \<le> Buffer_used b + length data"
      using True by (simp add: Buffer_used_def b1_def)
    ultimately show ?thesis using b1 True by simp
  next
    case False
    have used: "Buffer_used b1 \<le> Buffer_used b + w"
      by (simp add: Buffer_used_def b1_def max_def min_def)
    have "Buffer_used b1 + length (drop w data) \<le> max_size"
      using fits by (simp add: Buffer_used_def b1_def w_def)
    with b1(1) obtain b2 where b2: "Buffer_append b1 (drop w data) = Some b2" "Buffer_wf b2"
        "Buffer_content b2 = Buffer_content b1 @ drop w data"
        "Buffer_used b2 \<le> Buffer_used b1 + length (drop w data)"
      using buf.app_ok by blast
    have "writerIndex b + length (take w data) = length d"
      using False wf ld by (simp add: w_def Buffer_wf_def Buffer_writableBytes_def)
    then have "Buffer_readFd readv b = Some (int (length data), None, b2)"
      using r ow False b2(1)
      by (cases "w < extrabuf_size") (simp_all add: Buffer_readFd_def b1_def Let_def w_def)
    then show ?thesis using b2 b1 used False by simp
  qed
qed

text \<open>C23: \<open>readFd\<close> appends exactly the bytes the kernel delivered, also when they spill
  into the stack buffer, and returns their number; on an error it returns \<open>-1\<close>, passes
  the error number on and leaves the buffer as it was.\<close>

theorem Buffer_readFd_correct:
  assumes "Buffer_wf b" and "readv_ok readv"
    and "length (buffer_data b) + extrabuf_size \<le> max_size"
    and "lens = (if Buffer_writableBytes b < extrabuf_size
           then [Buffer_writableBytes b, extrabuf_size] else [Buffer_writableBytes b])"
  shows "case readv lens of
      Inl errno \<Rightarrow> Buffer_readFd readv b = Some (-1, Some errno, b)
    | Inr data \<Rightarrow> \<exists>b'. Buffer_readFd readv b = Some (int (length data), None, b') \<and> Buffer_wf b' \<and>
        Buffer_content b' = Buffer_content b @ data"
proof (cases "readv lens")
  case (Inl errno)
  then show ?thesis using assms(4) by (simp add: Buffer_readFd_def Let_def)
next
  case (Inr data)
  have "length data \<le> sum_list lens" using assms(2) Inr by (auto simp: readv_ok_def dest!: spec [of _ lens])
  then have "length data \<le> Buffer_writableBytes b + extrabuf_size" using assms(4) by (simp split: if_splits)
  then have "max kCheapPrepend (writerIndex b + min (length data) (Buffer_writableBytes b)) +
      (length data - Buffer_writableBytes b) \<le> max_size"
    using assms(1,3) by (auto simp: Buffer_wf_def Buffer_writableBytes_def)
  then show ?thesis using Buffer_readFd_success [OF assms(1), of readv data] assms(4) Inr by auto
qed

theorem Buffer_readFd_correct_witness:
  "\<exists>readv b'. readv_ok readv \<and>
     Buffer_readFd readv (Buffer_ctor 2) = Some (3, None, b') \<and> Buffer_wf b' \<and>
     Buffer_content b' = ''abc''"
proof -
  define readv :: readv_fun
    where "readv = (\<lambda>lens. if 3 \<le> sum_list lens then Inr ''abc'' else Inl 11)"
  have wf: "Buffer_wf (Buffer_ctor 2)"
    by (rule Buffer_ctor_wf) (simp add: kCheapPrepend_def max_size_def)
  have ok: "readv_ok readv" by (simp add: readv_ok_def readv_def)
  have fits: "length (buffer_data (Buffer_ctor 2)) + extrabuf_size \<le> max_size"
    by (simp add: Buffer_ctor_def kCheapPrepend_def extrabuf_size_def max_size_def)
  show ?thesis
    using ok Buffer_readFd_correct [OF wf ok fits refl]
    by (auto simp: readv_def extrabuf_size_def)
qed

subsection \<open>Shrinking\<close>

lemma Buffer_append_in_place:
  assumes "Buffer_wf b" and "length d \<le> Buffer_writableBytes b"
    and "Buffer_append b d = Some b'"
  shows "Buffer_writableBytes b' = Buffer_writableBytes b - length d"
  using assms
  by (auto simp: Buffer_append_def Buffer_ensureWritableBytes_def Buffer_hasWritten_def
      buffer_observers Buffer_wf_def elim!: bind_eq_SomeE dest!: length_overwrite
      split: if_splits)

lemma Buffer_swap_fst [simp]: "fst (Buffer_swap b other) = other"
  by (simp add: Buffer_swap_def)

text \<open>While the readable bytes number at most \<open>INT_MAX\<close>, shrinking keeps them and
  leaves the requested reserve writable; from \<open>2 ^ 31\<close> bytes on, the detour through the
  \<open>int\<close> length of \<open>StringPiece\<close> makes the call fail.\<close>

theorem Buffer_shrink_correct:
  assumes wf: "Buffer_wf b"
    and fits: "kCheapPrepend + Buffer_readableBytes b + reserve \<le> max_size"
  shows "(int (Buffer_readableBytes b) \<le> int_max \<longrightarrow>
      (\<exists>b'. Buffer_shrink b reserve = Some b' \<and> Buffer_wf b' \<and>
        Buffer_content b' = Buffer_content b \<and> reserve \<le> Buffer_writableBytes b')) \<and>
    (2 ^ 31 \<le> Buffer_readableBytes b \<and> Buffer_readableBytes b < 2 ^ 32 \<longrightarrow>
      Buffer_shrink b reserve = None)"
proof (intro conjI impI)
  let ?n = "Buffer_readableBytes b"
  have "writerIndex Buffer_default + (?n + reserve) \<le> max_size"
    using fits by (simp add: Buffer_ctor_def)
  then obtain o1 where o1: "Buffer_ensureWritableBytes Buffer_default (?n + reserve) = Some o1"
      "Buffer_wf o1" "Buffer_content o1 = Buffer_content Buffer_default"
      "?n + reserve \<le> Buffer_writableBytes o1" "writerIndex o1 \<le> writerIndex Buffer_default"
    by (rule Buffer_ensureWritableBytes_spec [OF Buffer_default_wf])
  {
    assume "int ?n \<le> int_max"
    then have p: "Buffer_toStringPiece b = (Buffer_peek b, int ?n)"
      by (simp add: Buffer_toStringPiece_def to_int32_small)
    have r: "Buffer_range b (Buffer_peek b) (Buffer_peek b + ?n) = Buffer_content b"
      using wf by (simp add: Buffer_range_content)
    have "Buffer_used o1 + length (Buffer_content b) \<le> max_size"
      using o1(5) wf fits by (simp add: Buffer_used_def Buffer_ctor_def max_def)
    then obtain o2 where o2: "Buffer_append o1 (Buffer_content b) = Some o2" "Buffer_wf o2"
        "Buffer_content o2 = Buffer_content b"
      using buf.app_ok [OF o1(2)] o1(3) by auto
    have "Buffer_writableBytes o2 = Buffer_writableBytes o1 - ?n"
      using Buffer_append_in_place [OF o1(2) _ o2(1)] o1(4) wf by simp
    moreover have "Buffer_shrink b reserve = Some o2"
      using o1(1) o2(1) p r by (simp add: Buffer_shrink_def)
    ultimately show "\<exists>b'. Buffer_shrink b reserve = Some b' \<and> Buffer_wf b' \<and>
        Buffer_content b' = Buffer_content b \<and> reserve \<le> Buffer_writableBytes b'"
      using o2 o1(4) by fastforce
  next
    assume big: "2 ^ 31 \<le> ?n \<and> ?n < 2 ^ 32"
    have "to_int32 ?n < 0" using to_int32_negative big by blast
    then show "Buffer_shrink b reserve = None"
      using o1(1) by (simp add: Buffer_shrink_def Buffer_toStringPiece_def)
  }
qed

end
