(* ===== verification/Printf.thy ===== *)
theory Printf
  imports Muduo_Prelude
begin

text \<open>
  Decimal and hexadecimal notation and the \<open>snprintf\<close> conversions the sources use:
  \<open>%d\<close>, \<open>%4d\<close>, \<open>%02d\<close>, \<open>%06d\<close>. \<open>snprintf (buf, n, ...)\<close> stores at most \<open>n - 1\<close>
  characters and a terminating zero. The lemmas give the value a notation denotes and
  bound its length.
\<close>

definition digit_char :: "nat \<Rightarrow> char" where
  "digit_char d = char_of (if d < 10 then 48 + d else 55 + d)"

fun nat_to_base :: "nat \<Rightarrow> nat \<Rightarrow> string" where
  "nat_to_base b n =
     (if n < b \<or> b < 2 then [digit_char n] else nat_to_base b (n div b) @ [digit_char (n mod b)])"

declare nat_to_base.simps [simp del]

abbreviation nat_to_dec :: "nat \<Rightarrow> string" where
  "nat_to_dec \<equiv> nat_to_base 10"

definition int_to_dec :: "int \<Rightarrow> string" where
  "int_to_dec i = (if i < 0 then CHR ''-'' # nat_to_dec (nat (- i)) else nat_to_dec (nat i))"

definition fmt_width :: "nat \<Rightarrow> int \<Rightarrow> string" where
  "fmt_width w i = (let s = int_to_dec i in replicate (w - length s) (CHR '' '') @ s)"

text \<open>A zero flag pads between the sign and the digits.\<close>

definition fmt_zero :: "nat \<Rightarrow> int \<Rightarrow> string" where
  "fmt_zero w i =
     (if i < 0
      then CHR ''-'' # replicate (w - 1 - length (nat_to_dec (nat (- i)))) (CHR ''0'')
             @ nat_to_dec (nat (- i))
      else replicate (w - length (nat_to_dec (nat i))) (CHR ''0'') @ nat_to_dec (nat i))"

definition snprintf :: "nat \<Rightarrow> string \<Rightarrow> string" where
  "snprintf n s = take (n - 1) s"

lemma snprintf_fits: "length s < n \<Longrightarrow> snprintf n s = s"
  by (simp add: snprintf_def)

subsection \<open>Values of notations\<close>

definition digit_value :: "char \<Rightarrow> nat" where
  "digit_value c = (if of_char c < (58 :: nat) then of_char c - 48 else of_char c - 55)"

definition base_value :: "nat \<Rightarrow> string \<Rightarrow> nat" where
  "base_value b s = foldl (\<lambda>a c. a * b + digit_value c) 0 s"

lemma digit_value_digit_char: "d < 16 \<Longrightarrow> digit_value (digit_char d) = d"
  by (simp add: digit_value_def digit_char_def)

lemma base_value_snoc [simp]: "base_value b (s @ [c]) = base_value b s * b + digit_value c"
  by (simp add: base_value_def)

lemma base_value_nat_to_base:
  assumes "2 \<le> b" and "b \<le> 16"
  shows "base_value b (nat_to_base b n) = n"
  using assms
proof (induction b n rule: nat_to_base.induct)
  case (1 b n)
  show ?case
  proof (cases "n < b")
    case True
    then show ?thesis using "1.prems"
      by (subst nat_to_base.simps) (simp add: base_value_def digit_value_digit_char)
  next
    case False
    then have "base_value b (nat_to_base b (n div b)) = n div b" using "1.IH" "1.prems" by simp
    moreover have "n mod b < b" using "1.prems" by simp
    then have "digit_value (digit_char (n mod b)) = n mod b"
      using "1.prems" by (intro digit_value_digit_char) linarith
    ultimately show ?thesis using False "1.prems"
      by (subst nat_to_base.simps) simp
  qed
qed

lemma base_value_nat_to_dec [simp]: "base_value 10 (nat_to_dec n) = n"
  by (rule base_value_nat_to_base) simp_all

lemma nat_to_dec_inj:
  assumes "nat_to_dec m = nat_to_dec n"
  shows "m = n"
  using arg_cong [OF assms, of "base_value 10"] by simp

lemma nat_to_base_nonempty: "nat_to_base b n \<noteq> []"
  by (subst nat_to_base.simps) simp

lemma length_nat_to_base:
  assumes "2 \<le> b" and "0 < k" and "n < b ^ k"
  shows "length (nat_to_base b n) \<le> k"
  using assms
proof (induction k arbitrary: n)
  case 0
  then show ?case by simp
next
  case (Suc k)
  show ?case
  proof (cases "n < b")
    case True
    then show ?thesis by (subst nat_to_base.simps) simp
  next
    case False
    then have "0 < k" using Suc.prems by (cases k) auto
    moreover have "n div b < b ^ k" using Suc.prems
      by (simp add: less_mult_imp_div_less mult.commute)
    ultimately have "length (nat_to_base b (n div b)) \<le> k" using Suc.IH Suc.prems(1) by blast
    then show ?thesis using False by (subst nat_to_base.simps) simp
  qed
qed

lemma digit_chars: "map digit_char [0..<16] = ''0123456789ABCDEF''"
  by (simp add: digit_char_def upt_conv_Cons char_of_def bit_Suc_0_iff)

lemma digit_char_nth: "d < 16 \<Longrightarrow> ''0123456789ABCDEF'' ! d = digit_char d"
  using nth_map_upt [of d 16 0 digit_char] unfolding digit_chars by simp

lemma digit_char_in: "d < 16 \<Longrightarrow> digit_char d \<in> set ''0123456789ABCDEF''"
  by (simp only: digit_chars [symmetric] set_map set_upt image_iff) auto

lemma foldl_base_value:
  "foldl (\<lambda>a c. a * b + digit_value c) a s = a * b ^ length s + base_value b s"
proof (induction s rule: rev_induct)
  case Nil
  then show ?case by (simp add: base_value_def)
next
  case (snoc c s)
  then show ?case by (simp add: algebra_simps)
qed

lemma base_value_append: "base_value b (s @ r) = base_value b s * b ^ length r + base_value b r"
proof -
  have "base_value b (s @ r) = foldl (\<lambda>a c. a * b + digit_value c) (base_value b s) r"
    by (simp only: base_value_def foldl_append)
  then show ?thesis by (simp only: foldl_base_value)
qed

lemma base_value_zeros [simp]: "base_value b (replicate n (CHR ''0'')) = 0"
proof (induction n)
  case 0
  then show ?case by (simp add: base_value_def)
next
  case (Suc n)
  have "replicate (Suc n) (CHR ''0'') = replicate n (CHR ''0'') @ [CHR ''0'']"
    by (simp add: replicate_append_same)
  moreover have "base_value b [CHR ''0''] = 0" by (simp add: base_value_def digit_value_def)
  ultimately show ?case using Suc by (simp only: base_value_append mult_zero_left add_0)
qed

lemma fmt_zero_spec:
  assumes "0 \<le> i" and "nat i < 10 ^ w" and "0 < w"
  shows "length (fmt_zero w i) = w \<and> base_value 10 (fmt_zero w i) = nat i"
proof -
  have "length (nat_to_dec (nat i)) \<le> w"
    by (rule length_nat_to_base) (use assms in auto)
  then show ?thesis using assms(1) by (simp add: fmt_zero_def base_value_append)
qed

lemma filter_neq_id: "x \<notin> set xs \<Longrightarrow> filter (\<lambda>c. c \<noteq> x) xs = xs"
  by (induction xs) auto

lemma dot_notin_nat_to_dec: "CHR ''.'' \<notin> set (nat_to_dec n)"
proof (induction n rule: less_induct)
  case (less n)
  have ne: "CHR ''.'' \<noteq> digit_char d" if "d < 10" for d
    using digit_char_in [of d] that by auto
  show ?case
  proof (cases "n < 10")
    case True
    then show ?thesis using ne [of n] by (subst nat_to_base.simps) simp
  next
    case False
    then show ?thesis using ne [of "n mod 10"] less [of "n div 10"]
      by (subst nat_to_base.simps) simp
  qed
qed

lemma dot_notin_fmt_zero: "0 \<le> i \<Longrightarrow> CHR ''.'' \<notin> set (fmt_zero w i)"
  by (auto simp: fmt_zero_def dot_notin_nat_to_dec)

end
