(* ===== verification/Timestamp.thy ===== *)
theory Timestamp
  imports Complex_Main Printf
begin

text \<open>
  Time stamps in microseconds since the epoch: \<open>base/Timestamp.h\<close> and
  \<open>base/Timestamp.cc\<close>. A time stamp is its 64-bit count, an integer here.
  \<open>gettimeofday\<close> and \<open>gmtime_r\<close> are arguments. A \<open>double\<close> number of seconds is the
  real number it denotes; the product with \<open>10 ^ 6\<close>, rounded and truncated to
  \<open>int64_t\<close>, is an argument \<open>to_usec\<close> of the operations that need it.
\<close>

type_synonym timestamp = int

definition kMicroSecondsPerSecond :: int where "kMicroSecondsPerSecond = 1000 * 1000"

definition Timestamp_invalid :: timestamp where "Timestamp_invalid = 0"

definition Timestamp_valid :: "timestamp \<Rightarrow> bool" where
  "Timestamp_valid t \<longleftrightarrow> t > 0"

definition Timestamp_secondsSinceEpoch :: "timestamp \<Rightarrow> int" where
  "Timestamp_secondsSinceEpoch t = t sdiv kMicroSecondsPerSecond"

definition Timestamp_fromUnixTime :: "int \<Rightarrow> int \<Rightarrow> timestamp" where
  "Timestamp_fromUnixTime t microseconds = t * kMicroSecondsPerSecond + microseconds"

definition Timestamp_now :: "int \<times> int \<Rightarrow> timestamp" where
  "Timestamp_now tv = (case tv of (tv_sec, tv_usec) \<Rightarrow> tv_sec * kMicroSecondsPerSecond + tv_usec)"

definition Timestamp_less :: "timestamp \<Rightarrow> timestamp \<Rightarrow> bool" where
  "Timestamp_less lhs rhs \<longleftrightarrow> lhs < rhs"

definition Timestamp_eq :: "timestamp \<Rightarrow> timestamp \<Rightarrow> bool" where
  "Timestamp_eq lhs rhs \<longleftrightarrow> lhs = rhs"

definition addTime :: "(real \<Rightarrow> int) \<Rightarrow> timestamp \<Rightarrow> real \<Rightarrow> timestamp" where
  "addTime to_usec t seconds = (let delta = to_usec seconds in t + delta)"

definition Timestamp_toString :: "timestamp \<Rightarrow> string" where
  "Timestamp_toString t =
     (let seconds = t sdiv kMicroSecondsPerSecond;
          microseconds = t smod kMicroSecondsPerSecond
      in snprintf (32 - 1) (int_to_dec seconds @ ''.'' @ fmt_zero 6 microseconds))"

text \<open>The members of \<open>struct tm\<close>.\<close>

record tm =
  tm_sec :: int
  tm_min :: int
  tm_hour :: int
  tm_mday :: int
  tm_mon :: int
  tm_year :: int
  tm_wday :: int
  tm_yday :: int
  tm_isdst :: int
  tm_gmtoff :: int
  tm_zone :: string

definition tm_zero :: tm where
  "tm_zero = \<lparr>tm_sec = 0, tm_min = 0, tm_hour = 0, tm_mday = 0, tm_mon = 0, tm_year = 0,
     tm_wday = 0, tm_yday = 0, tm_isdst = 0, tm_gmtoff = 0, tm_zone = ''''\<rparr>"

definition Timestamp_toFormattedString :: "(int \<Rightarrow> tm) \<Rightarrow> timestamp \<Rightarrow> bool \<Rightarrow> string" where
  "Timestamp_toFormattedString gmtime t showMicroseconds =
     (let seconds = t sdiv kMicroSecondsPerSecond;
          tm_time = gmtime seconds;
          head = fmt_width 4 (tm_year tm_time + 1900) @ fmt_zero 2 (tm_mon tm_time + 1)
            @ fmt_zero 2 (tm_mday tm_time) @ '' '' @ fmt_zero 2 (tm_hour tm_time) @ '':''
            @ fmt_zero 2 (tm_min tm_time) @ '':'' @ fmt_zero 2 (tm_sec tm_time)
      in if showMicroseconds
         then snprintf 64 (head @ ''.'' @ fmt_zero 6 (cast_int32 (t smod kMicroSecondsPerSecond)))
         else snprintf 64 head)"

subsection \<open>The decimal notation of a time stamp\<close>

text \<open>The printed form of a non-negative time stamp is its seconds, a point and exactly
  six digits, all of it fits into the local buffer, and dropping the point leaves the
  decimal notation of the count of microseconds.\<close>

theorem Timestamp_toString_correct:
  assumes "t < 2 ^ 63"
  shows "Timestamp_toString (int t) =
      nat_to_dec (t div 1000000) @ ''.'' @ fmt_zero 6 (int (t mod 1000000))
    \<and> length (fmt_zero 6 (int (t mod 1000000))) = 6
    \<and> base_value 10 (filter (\<lambda>c. c \<noteq> CHR ''.'') (Timestamp_toString (int t))) = t"
proof -
  define s where "s = nat_to_dec (t div 1000000)"
  define u where "u = fmt_zero 6 (int (t mod 1000000))"
  have m: "0 \<le> int (t mod 1000000)" "nat (int (t mod 1000000)) < 10 ^ 6" by simp_all
  have u: "length u = 6" "base_value 10 u = t mod 1000000" "CHR ''.'' \<notin> set u"
    using fmt_zero_spec [OF m] dot_notin_fmt_zero [OF m(1)] by (simp_all add: u_def)
  have s: "base_value 10 s = t div 1000000" "CHR ''.'' \<notin> set s"
    by (simp_all add: s_def dot_notin_nat_to_dec)
  have "t div 1000000 < 10 ^ 19" using assms div_le_dividend [of t 1000000] by simp
  then have "length s \<le> 19" unfolding s_def by (intro length_nat_to_base) simp_all
  then have "snprintf (32 - 1) (s @ ''.'' @ u) = s @ ''.'' @ u"
    using u(1) by (intro snprintf_fits) simp
  moreover have "int t sdiv kMicroSecondsPerSecond = int (t div 1000000)"
    "int t smod kMicroSecondsPerSecond = int (t mod 1000000)"
    unfolding kMicroSecondsPerSecond_def by (simp_all add: sdiv_nonneg smod_nonneg zdiv_int zmod_int)
  moreover have "int_to_dec (int (t div 1000000)) = s" unfolding int_to_dec_def s_def by simp
  ultimately have str: "Timestamp_toString (int t) = s @ ''.'' @ u"
    unfolding Timestamp_toString_def Let_def u_def by (simp only:)
  have "filter (\<lambda>c. c \<noteq> CHR ''.'') s = s" "filter (\<lambda>c. c \<noteq> CHR ''.'') u = u"
    using s(2) u(3) by (simp_all only: filter_neq_id not_False_eq_True)
  then have "base_value 10 (filter (\<lambda>c. c \<noteq> CHR ''.'') (s @ ''.'' @ u)) =
      t div 1000000 * 1000000 + t mod 1000000"
    using u s by (simp add: base_value_append)
  then show ?thesis using str u(1) unfolding s_def u_def by (simp only: div_mult_mod_eq)
qed

end
