(* ===== verification/Std_Map.thy ===== *)
theory Std_Map
  imports Muduo_Prelude "HOL-Library.List_Lexorder" "HOL-Library.Char_ord"
begin

text \<open>
  \<open>std::map\<close> as the list of its entries in the order of iteration, which is the order of
  the keys: insertion, assignment through \<open>operator[]\<close>, erasure and lookup. Strings are
  compared by their bytes as unsigned values, which is what the library's orders of
  characters and lists give. \<open>std::set\<close> is the sorted list of its elements.
\<close>

fun map_put :: "'k::linorder \<Rightarrow> 'v \<Rightarrow> ('k \<times> 'v) list \<Rightarrow> ('k \<times> 'v) list" where
  "map_put k v [] = [(k, v)]"
| "map_put k v ((k', v') # m) =
     (if k < k' then (k, v) # (k', v') # m
      else if k = k' then (k, v) # m
      else (k', v') # map_put k v m)"

definition map_erase :: "'k \<Rightarrow> ('k \<times> 'v) list \<Rightarrow> ('k \<times> 'v) list" where
  "map_erase k m = filter (\<lambda>e. fst e \<noteq> k) m"

definition map_sorted :: "('k::linorder \<times> 'v) list \<Rightarrow> bool" where
  "map_sorted m \<longleftrightarrow> sorted_wrt (<) (map fst m)"

lemma map_sorted_Nil [simp]: "map_sorted []"
  by (simp add: map_sorted_def)

lemma set_fst_map_put [simp]: "fst ` set (map_put k v m) = insert k (fst ` set m)"
  by (induction k v m rule: map_put.induct) auto

lemma map_sorted_put [simp, intro]: "map_sorted m \<Longrightarrow> map_sorted (map_put k v m)"
  unfolding map_sorted_def
  by (induction k v m rule: map_put.induct) (fastforce simp flip: image_set)+

lemma map_of_put [simp]: "map_sorted m \<Longrightarrow> map_of (map_put k v m) = (map_of m)(k \<mapsto> v)"
  unfolding map_sorted_def
  by (induction k v m rule: map_put.induct) (auto simp: fun_eq_iff)

lemma map_sorted_erase [simp, intro]: "map_sorted m \<Longrightarrow> map_sorted (map_erase k m)"
  unfolding map_sorted_def map_erase_def by (induction m) auto

lemma map_of_erase [simp]: "map_of (map_erase k m) = (map_of m)(k := None)"
  unfolding map_erase_def by (induction m) auto

lemma distinct_map_sorted: "map_sorted m \<Longrightarrow> distinct (map fst m)"
  by (simp add: map_sorted_def strict_sorted_iff)

subsection \<open>Sets\<close>

text \<open>\<open>insert\<close> reports whether the element was new, \<open>erase\<close> how many elements it removed.\<close>

definition set_insert :: "'a::linorder \<Rightarrow> 'a list \<Rightarrow> bool \<times> 'a list" where
  "set_insert x xs = (if x \<in> set xs then (False, xs) else (True, insort x xs))"

definition set_erase :: "'a \<Rightarrow> 'a list \<Rightarrow> nat \<times> 'a list" where
  "set_erase x xs = (if x \<in> set xs then (1, removeAll x xs) else (0, xs))"

definition set_sorted :: "'a::linorder list \<Rightarrow> bool" where
  "set_sorted xs \<longleftrightarrow> sorted_wrt (<) xs"

lemma set_sorted_Nil [simp]: "set_sorted []"
  by (simp add: set_sorted_def)

lemma set_insert_new:
  assumes "set_sorted xs" and "x \<notin> set xs"
  shows "set_insert x xs = (True, insort x xs)" and "set_sorted (insort x xs)"
  using assms
  by (simp_all add: set_insert_def set_sorted_def strict_sorted_iff sorted_insort distinct_insort)

lemma set_sorted_insert [simp]: "set_sorted xs \<Longrightarrow> set_sorted (snd (set_insert x xs))"
  by (auto simp: set_insert_def set_sorted_def strict_sorted_iff sorted_insort distinct_insort)

lemma set_set_insert [simp]: "set (snd (set_insert x xs)) = insert x (set xs)"
  by (auto simp: set_insert_def set_insort_key)

lemma set_sorted_removeAll [simp]: "set_sorted xs \<Longrightarrow> set_sorted (removeAll x xs)"
  unfolding set_sorted_def by (induction xs) auto

lemma length_removeAll_sorted: "set_sorted xs \<Longrightarrow> x \<in> set xs \<Longrightarrow> length (removeAll x xs) = length xs - 1"
  using distinct_remove1_removeAll [of xs x] length_remove1 [of x xs]
  by (simp add: set_sorted_def strict_sorted_iff)

lemma set_sorted_card: "set_sorted xs \<Longrightarrow> length xs = card (set xs)"
  by (simp add: set_sorted_def strict_sorted_iff distinct_card)

lemma hd_insort: "hd (insort x xs) = (if xs = [] \<or> x \<le> hd xs then x else hd xs)"
  by (cases xs) auto

end
