(* ===== verification/Http.thy ===== *)
theory Http
  imports Buffer Timestamp Std_Map
begin

text \<open>
  The HTTP server: \<open>net/http/HttpRequest.h\<close>, \<open>HttpContext.h\<close>, \<open>HttpContext.cc\<close>,
  \<open>HttpResponse.h\<close>, \<open>HttpResponse.cc\<close> and \<open>HttpServer.cc\<close>. A range of pointers into the
  input buffer is the list of its bytes. The parsing loop of \<open>parseRequest\<close> runs on the
  model of the buffer as a partial function, since it does not end in every state. The
  lemmas relate it to a terminating parser on the bytes received, and from there show
  that printed requests are parsed back, that the division of the input into pieces does
  not matter, and when the loop ends.
\<close>

subsection \<open>Requests\<close>

datatype Method = kInvalid | kGet | kPost | kHead | kPut | kDelete

datatype Version = kUnknown | kHttp10 | kHttp11

record HttpRequest =
  req_method :: Method
  req_version :: Version
  req_path :: string
  req_query :: string
  req_receiveTime :: timestamp
  req_headers :: "(string \<times> string) list"

definition HttpRequest_ctor :: HttpRequest where
  "HttpRequest_ctor = \<lparr>req_method = kInvalid, req_version = kUnknown, req_path = '''',
     req_query = '''', req_receiveTime = Timestamp_invalid, req_headers = []\<rparr>"

definition HttpRequest_setVersion :: "HttpRequest \<Rightarrow> Version \<Rightarrow> HttpRequest" where
  "HttpRequest_setVersion r v = r\<lparr>req_version := v\<rparr>"

definition HttpRequest_setMethod :: "HttpRequest \<Rightarrow> string \<Rightarrow> (bool \<times> HttpRequest) option" where
  "HttpRequest_setMethod r m = do {
     cassert (req_method r = kInvalid);
     let method = (if m = ''GET'' then kGet else if m = ''POST'' then kPost
                   else if m = ''HEAD'' then kHead else if m = ''PUT'' then kPut
                   else if m = ''DELETE'' then kDelete else kInvalid);
     Some (method \<noteq> kInvalid, r\<lparr>req_method := method\<rparr>)
   }"

definition HttpRequest_methodString :: "HttpRequest \<Rightarrow> string" where
  "HttpRequest_methodString r =
     (case req_method r of
        kGet \<Rightarrow> ''GET'' | kPost \<Rightarrow> ''POST'' | kHead \<Rightarrow> ''HEAD'' | kPut \<Rightarrow> ''PUT''
      | kDelete \<Rightarrow> ''DELETE'' | _ \<Rightarrow> ''UNKNOWN'')"

definition HttpRequest_setPath :: "HttpRequest \<Rightarrow> string \<Rightarrow> HttpRequest" where
  "HttpRequest_setPath r s = r\<lparr>req_path := s\<rparr>"

definition HttpRequest_setQuery :: "HttpRequest \<Rightarrow> string \<Rightarrow> HttpRequest" where
  "HttpRequest_setQuery r s = r\<lparr>req_query := s\<rparr>"

definition HttpRequest_setReceiveTime :: "HttpRequest \<Rightarrow> timestamp \<Rightarrow> HttpRequest" where
  "HttpRequest_setReceiveTime r t = r\<lparr>req_receiveTime := t\<rparr>"

text \<open>\<open>isspace\<close> of the C locale.\<close>

definition isspace :: "char \<Rightarrow> bool" where
  "isspace c \<longleftrightarrow> c \<in> set [CHR 0x20, CHR 0x09, CHR 0x0A, CHR 0x0B, CHR 0x0C, CHR 0x0D]"

text \<open>The two loops that move over white space.\<close>

fun skip_space :: "string \<Rightarrow> string" where
  "skip_space [] = []"
| "skip_space (c # cs) = (if isspace c then skip_space cs else c # cs)"

function chop_space :: "string \<Rightarrow> string" where
  "chop_space v = (if v \<noteq> [] \<and> isspace (last v) then chop_space (butlast v) else v)"
  by pat_completeness auto
termination by (relation "measure length") auto

declare chop_space.simps [simp del]

text \<open>The line \<open>[start, end)\<close> with the colon at the given offset.\<close>

definition HttpRequest_addHeader :: "HttpRequest \<Rightarrow> string \<Rightarrow> nat \<Rightarrow> HttpRequest" where
  "HttpRequest_addHeader r line colon =
     (let field = take colon line;
          value = skip_space (drop (colon + 1) line);
          value = chop_space value
      in r\<lparr>req_headers := map_put field value (req_headers r)\<rparr>)"

definition HttpRequest_getHeader :: "HttpRequest \<Rightarrow> string \<Rightarrow> string" where
  "HttpRequest_getHeader r field =
     (case map_of (req_headers r) field of Some v \<Rightarrow> v | None \<Rightarrow> '''')"

definition HttpRequest_swap :: "HttpRequest \<Rightarrow> HttpRequest \<Rightarrow> HttpRequest \<times> HttpRequest" where
  "HttpRequest_swap this that =
     (this\<lparr>req_method := req_method that, req_version := req_version that,
        req_path := req_path that, req_query := req_query that,
        req_receiveTime := req_receiveTime that, req_headers := req_headers that\<rparr>,
      that\<lparr>req_method := req_method this, req_version := req_version this,
        req_path := req_path this, req_query := req_query this,
        req_receiveTime := req_receiveTime this, req_headers := req_headers this\<rparr>)"

subsection \<open>The parsing context\<close>

datatype HttpRequestParseState = kExpectRequestLine | kExpectHeaders | kExpectBody | kGotAll

record HttpContext =
  ctx_state :: HttpRequestParseState
  ctx_request :: HttpRequest

definition HttpContext_ctor :: HttpContext where
  "HttpContext_ctor = \<lparr>ctx_state = kExpectRequestLine, ctx_request = HttpRequest_ctor\<rparr>"

definition HttpContext_gotAll :: "HttpContext \<Rightarrow> bool" where
  "HttpContext_gotAll c \<longleftrightarrow> ctx_state c = kGotAll"

definition HttpContext_reset :: "HttpContext \<Rightarrow> HttpContext" where
  "HttpContext_reset c =
     c\<lparr>ctx_state := kExpectRequestLine,
       ctx_request := fst (HttpRequest_swap (ctx_request c) HttpRequest_ctor)\<rparr>"

text \<open>The block of \<open>processRequestLine\<close> that runs after the method: the range from the
  byte after the first space to the end of the line.\<close>

definition process_target :: "HttpRequest \<Rightarrow> string \<Rightarrow> bool \<times> HttpRequest" where
  "process_target r rest =
     (let space = std_find (CHR '' '') rest
      in if space = length rest then (False, r)
         else
           (let target = take space rest;
                question = std_find (CHR ''?'') target;
                r = (if question \<noteq> length target
                     then HttpRequest_setQuery (HttpRequest_setPath r (take question target))
                            (drop question target)
                     else HttpRequest_setPath r target);
                v = drop (space + 1) rest
            in if length v = 8 \<and> butlast v = ''HTTP/1.''
               then (if last v = CHR ''1'' then (True, HttpRequest_setVersion r kHttp11)
                     else if last v = CHR ''0'' then (True, HttpRequest_setVersion r kHttp10)
                     else (False, r))
               else (False, r)))"

definition HttpContext_processRequestLine :: "HttpContext \<Rightarrow> string \<Rightarrow> (bool \<times> HttpContext) option" where
  "HttpContext_processRequestLine c line =
     (let space = std_find (CHR '' '') line
      in if space = length line then Some (False, c)
         else do {
           (okm, r) \<leftarrow> HttpRequest_setMethod (ctx_request c) (take space line);
           let (succeed, r) = (if okm then process_target r (drop (space + 1) line) else (False, r));
           Some (succeed, c\<lparr>ctx_request := r\<rparr>)
         })"

text \<open>The local variables of \<open>parseRequest\<close>, the object and the buffer; one iteration of
  the loop; and the loop. \<open>Aborted\<close> stands for a failed assertion.\<close>

record parse_vars =
  pv_ok :: bool
  pv_hasMore :: bool
  pv_ctx :: HttpContext
  pv_buf :: buffer

definition parse_iteration :: "timestamp \<Rightarrow> parse_vars \<Rightarrow> parse_vars option" where
  "parse_iteration receiveTime v =
     (let c = pv_ctx v; buf = pv_buf v in
      case ctx_state c of
        kExpectRequestLine \<Rightarrow>
          (case Buffer_findCRLF buf of
             Some crlf \<Rightarrow> do {
               (ok, c) \<leftarrow> HttpContext_processRequestLine c (Buffer_range buf (Buffer_peek buf) crlf);
               if ok
               then do {
                 let r = HttpRequest_setReceiveTime (ctx_request c) receiveTime;
                 buf \<leftarrow> Buffer_retrieveUntil buf (crlf + 2);
                 Some (v\<lparr>pv_ok := True, pv_buf := buf,
                   pv_ctx := c\<lparr>ctx_request := r, ctx_state := kExpectHeaders\<rparr>\<rparr>)
               }
               else Some (v\<lparr>pv_ok := False, pv_hasMore := False, pv_ctx := c\<rparr>)
             }
           | None \<Rightarrow> Some (v\<lparr>pv_hasMore := False\<rparr>))
      | kExpectHeaders \<Rightarrow>
          (case Buffer_findCRLF buf of
             Some crlf \<Rightarrow> do {
               let line = Buffer_range buf (Buffer_peek buf) crlf;
               let colon = std_find (CHR '':'') line;
               let v = (if colon \<noteq> length line
                        then v\<lparr>pv_ctx := c\<lparr>ctx_request := HttpRequest_addHeader (ctx_request c) line colon\<rparr>\<rparr>
                        else v\<lparr>pv_ctx := c\<lparr>ctx_state := kGotAll\<rparr>, pv_hasMore := False\<rparr>);
               buf \<leftarrow> Buffer_retrieveUntil buf (crlf + 2);
               Some (v\<lparr>pv_buf := buf\<rparr>)
             }
           | None \<Rightarrow> Some (v\<lparr>pv_hasMore := False\<rparr>))
      | _ \<Rightarrow> Some v)"

datatype 'a outcome = Aborted | Returned 'a

partial_function (option) parse_loop :: "timestamp \<Rightarrow> parse_vars \<Rightarrow> parse_vars outcome option" where
  "parse_loop receiveTime v =
     (if pv_hasMore v
      then (case parse_iteration receiveTime v of
              None \<Rightarrow> Some Aborted
            | Some v' \<Rightarrow> parse_loop receiveTime v')
      else Some (Returned v))"

definition HttpContext_parseRequest ::
    "HttpContext \<Rightarrow> buffer \<Rightarrow> timestamp \<Rightarrow> (bool \<times> HttpContext \<times> buffer) outcome option" where
  "HttpContext_parseRequest c buf receiveTime = do {
     out \<leftarrow> parse_loop receiveTime \<lparr>pv_ok = True, pv_hasMore = True, pv_ctx = c, pv_buf = buf\<rparr>;
     Some (case out of Aborted \<Rightarrow> Aborted | Returned v \<Rightarrow> Returned (pv_ok v, pv_ctx v, pv_buf v))
   }"

subsection \<open>Responses\<close>

record HttpResponse =
  resp_headers :: "(string \<times> string) list"
  resp_statusCode :: int
  resp_statusMessage :: string
  resp_closeConnection :: bool
  resp_body :: string

definition HttpResponse_ctor :: "bool \<Rightarrow> HttpResponse" where
  "HttpResponse_ctor close = \<lparr>resp_headers = [], resp_statusCode = 0, resp_statusMessage = '''',
     resp_closeConnection = close, resp_body = ''''\<rparr>"

definition HttpResponse_setStatusCode :: "HttpResponse \<Rightarrow> int \<Rightarrow> HttpResponse" where
  "HttpResponse_setStatusCode r code = r\<lparr>resp_statusCode := code\<rparr>"

definition HttpResponse_setStatusMessage :: "HttpResponse \<Rightarrow> string \<Rightarrow> HttpResponse" where
  "HttpResponse_setStatusMessage r message = r\<lparr>resp_statusMessage := message\<rparr>"

definition HttpResponse_setCloseConnection :: "HttpResponse \<Rightarrow> bool \<Rightarrow> HttpResponse" where
  "HttpResponse_setCloseConnection r on = r\<lparr>resp_closeConnection := on\<rparr>"

definition HttpResponse_addHeader :: "HttpResponse \<Rightarrow> string \<Rightarrow> string \<Rightarrow> HttpResponse" where
  "HttpResponse_addHeader r k v = r\<lparr>resp_headers := map_put k v (resp_headers r)\<rparr>"

definition HttpResponse_setContentType :: "HttpResponse \<Rightarrow> string \<Rightarrow> HttpResponse" where
  "HttpResponse_setContentType r contentType = HttpResponse_addHeader r ''Content-Type'' contentType"

definition HttpResponse_setBody :: "HttpResponse \<Rightarrow> string \<Rightarrow> HttpResponse" where
  "HttpResponse_setBody r body = r\<lparr>resp_body := body\<rparr>"

fun append_headers :: "buffer \<Rightarrow> (string \<times> string) list \<Rightarrow> buffer option" where
  "append_headers output [] = Some output"
| "append_headers output ((k, v) # hs) = do {
     output \<leftarrow> Buffer_append output k;
     output \<leftarrow> Buffer_append output '': '';
     output \<leftarrow> Buffer_append output v;
     output \<leftarrow> Buffer_append output kCRLF;
     append_headers output hs
   }"

definition HttpResponse_appendToBuffer :: "HttpResponse \<Rightarrow> buffer \<Rightarrow> buffer option" where
  "HttpResponse_appendToBuffer r output = do {
     output \<leftarrow> Buffer_append output (snprintf 32 (''HTTP/1.1 '' @ int_to_dec (resp_statusCode r) @ '' ''));
     output \<leftarrow> Buffer_append output (resp_statusMessage r);
     output \<leftarrow> Buffer_append output kCRLF;
     output \<leftarrow>
       (if resp_closeConnection r
        then Buffer_append output (''Connection: close'' @ kCRLF)
        else do {
          output \<leftarrow> Buffer_append output
            (snprintf 32 (''Content-Length: '' @ int_to_dec (int (length (resp_body r))) @ kCRLF));
          Buffer_append output (''Connection: Keep-Alive'' @ kCRLF)
        });
     output \<leftarrow> append_headers output (resp_headers r);
     output \<leftarrow> Buffer_append output kCRLF;
     Buffer_append output (resp_body r)
   }"

subsection \<open>The server\<close>

text \<open>What the server does to the connection, in order. The user's callback fills in the
  response and is an argument.\<close>

datatype conn_action = Send string | Shutdown

type_synonym http_callback = "HttpRequest \<Rightarrow> HttpResponse \<Rightarrow> HttpResponse"

definition defaultHttpCallback :: http_callback where
  "defaultHttpCallback req resp =
     HttpResponse_setCloseConnection
       (HttpResponse_setStatusMessage (HttpResponse_setStatusCode resp 404) ''Not Found'') True"

definition HttpServer_onConnection :: "bool \<Rightarrow> HttpContext option \<Rightarrow> HttpContext option" where
  "HttpServer_onConnection isConnected context = (if isConnected then Some HttpContext_ctor else context)"

definition HttpServer_onRequest :: "http_callback \<Rightarrow> HttpRequest \<Rightarrow> conn_action list option" where
  "HttpServer_onRequest httpCallback req = do {
     let connection = HttpRequest_getHeader req ''Connection'';
     let close = (connection = ''close'' \<or>
                  (req_version req = kHttp10 \<and> connection \<noteq> ''Keep-Alive''));
     let response = httpCallback req (HttpResponse_ctor close);
     buf \<leftarrow> HttpResponse_appendToBuffer response Buffer_default;
     Some (Send (Buffer_content buf) # (if resp_closeConnection response then [Shutdown] else []))
   }"

definition HttpServer_onMessage ::
    "http_callback \<Rightarrow> HttpContext \<Rightarrow> buffer \<Rightarrow> timestamp \<Rightarrow>
     (conn_action list \<times> HttpContext \<times> buffer) outcome option" where
  "HttpServer_onMessage httpCallback context buf receiveTime = do {
     out \<leftarrow> HttpContext_parseRequest context buf receiveTime;
     Some (case out of
         Aborted \<Rightarrow> Aborted
       | Returned (ok, context, buf) \<Rightarrow>
          (let bad = (if ok then [] else [Send (''HTTP/1.1 400 Bad Request'' @ kCRLF @ kCRLF), Shutdown])
           in if HttpContext_gotAll context
              then (case HttpServer_onRequest httpCallback (ctx_request context) of
                      None \<Rightarrow> Aborted
                    | Some acts \<Rightarrow> Returned (bad @ acts, HttpContext_reset context, buf))
              else Returned (bad, context, buf)))
   }"

subsection \<open>The parser on the bytes received\<close>

datatype seq_result = Stop bool HttpContext string | More HttpContext string | Fail

definition seq_parse_step :: "timestamp \<Rightarrow> HttpContext \<Rightarrow> string \<Rightarrow> seq_result" where
  "seq_parse_step t c s =
     (let i = std_search kCRLF s; line = take i s; rest = drop (i + 2) s in
      if i = length s then Stop True c s
      else if ctx_state c = kExpectRequestLine
      then (case HttpContext_processRequestLine c line of
              None \<Rightarrow> Fail
            | Some (ok, c') \<Rightarrow>
               if ok then More (c'\<lparr>ctx_request := HttpRequest_setReceiveTime (ctx_request c') t,
                                  ctx_state := kExpectHeaders\<rparr>) rest
               else Stop False c' s)
      else (let colon = std_find (CHR '':'') line in
            if colon \<noteq> length line
            then More (c\<lparr>ctx_request := HttpRequest_addHeader (ctx_request c) line colon\<rparr>) rest
            else Stop True (c\<lparr>ctx_state := kGotAll\<rparr>) rest))"

definition parsing :: "HttpContext \<Rightarrow> bool" where
  "parsing c \<longleftrightarrow> ctx_state c \<in> {kExpectRequestLine, kExpectHeaders}"

lemma seq_parse_step_shrinks:
  assumes "seq_parse_step t c s = More c' s'"
  shows "length s' < length s"
proof -
  have "std_search kCRLF s < length s"
    using assms std_search_le [of kCRLF s] by (auto simp: seq_parse_step_def Let_def split: if_splits)
  moreover have "s' = drop (std_search kCRLF s + 2) s"
    using assms by (auto simp: seq_parse_step_def Let_def split: if_splits option.splits)
  ultimately show ?thesis by simp
qed

function seq_parse :: "timestamp \<Rightarrow> HttpContext \<Rightarrow> string \<Rightarrow> (bool \<times> HttpContext \<times> string) option" where
  "seq_parse t c s =
     (case seq_parse_step t c s of
        Stop ok c' s' \<Rightarrow> Some (ok, c', s')
      | More c' s' \<Rightarrow> seq_parse t c' s'
      | Fail \<Rightarrow> None)"
  by pat_completeness auto
termination
  by (relation "measure (\<lambda>(t, c, s). length s)") (auto dest: seq_parse_step_shrinks)

declare seq_parse.simps [simp del]

lemma seq_parse_step_parsing:
  "parsing c \<Longrightarrow> seq_parse_step t c s = More c' s' \<Longrightarrow> parsing c'"
  by (auto simp: seq_parse_step_def Let_def parsing_def split: if_splits option.splits)

text \<open>One iteration of the loop refines one step of the parser on bytes.\<close>

definition loop_vars :: "HttpContext \<Rightarrow> buffer \<Rightarrow> parse_vars" where
  "loop_vars c b = \<lparr>pv_ok = True, pv_hasMore = True, pv_ctx = c, pv_buf = b\<rparr>"

lemma parse_iteration_refines:
  assumes wf: "Buffer_wf b" and st: "parsing c"
  shows "case seq_parse_step t c (Buffer_content b) of
      Fail \<Rightarrow> parse_iteration t (loop_vars c b) = None
    | More c' s' \<Rightarrow> \<exists>b'. parse_iteration t (loop_vars c b) = Some (loop_vars c' b') \<and>
        Buffer_wf b' \<and> Buffer_content b' = s'
    | Stop ok c' s' \<Rightarrow> \<exists>b'. parse_iteration t (loop_vars c b) =
        Some \<lparr>pv_ok = ok, pv_hasMore = False, pv_ctx = c', pv_buf = b'\<rparr> \<and>
        Buffer_wf b' \<and> Buffer_content b' = s'"
proof -
  define s i where "s = Buffer_content b" and "i = std_search kCRLF s"
  have len: "length s = Buffer_readableBytes b" using wf by (simp add: s_def)
  show ?thesis
  proof (cases "i = length s")
    case True
    then have "Buffer_findCRLF b = None"
      using wf by (simp add: Buffer_findCRLF_eq i_def s_def)
    then show ?thesis using True wf st
      by (auto simp: seq_parse_step_def parse_iteration_def loop_vars_def parsing_def s_def i_def)
  next
    case False
    then have "i < length s" using std_search_le [of kCRLF s] by (simp add: i_def)
    then have i: "i + 2 \<le> length s" using std_search_bound [of kCRLF s] by (simp add: i_def kCRLF_def)
    have crlf: "Buffer_findCRLF b = Some (Buffer_peek b + i)"
      using wf False len by (simp add: Buffer_findCRLF_eq i_def s_def)
    have line: "Buffer_range b (Buffer_peek b) (Buffer_peek b + i) = take i s"
      using wf i len by (simp add: Buffer_range_content s_def)
    obtain b' where b': "Buffer_retrieveUntil b (Buffer_peek b + i + 2) = Some b'"
      "Buffer_wf b'" "Buffer_content b' = drop (i + 2) s"
      using Buffer_retrieveUntil_eq [OF wf, of "i + 2"] buf.ret_ok [OF wf, of "i + 2"] i len
      by (auto simp: s_def add.assoc)
    show ?thesis
    proof (cases "ctx_state c = kExpectRequestLine")
      case True
      then show ?thesis
        using False crlf line b' wf
        by (cases "HttpContext_processRequestLine c (take i s)")
          (auto simp: seq_parse_step_def parse_iteration_def loop_vars_def s_def [symmetric]
            i_def [symmetric] Let_def)
    next
      case st': False
      then have "ctx_state c = kExpectHeaders" using st by (auto simp: parsing_def)
      then show ?thesis using False crlf line b' wf
        by (auto simp: seq_parse_step_def parse_iteration_def loop_vars_def s_def [symmetric]
            i_def [symmetric] Let_def)
    qed
  qed
qed

lemma parse_loop_stop: "\<not> pv_hasMore v \<Longrightarrow> parse_loop t v = Some (Returned v)"
  by (subst parse_loop.simps) simp

lemma parse_loop_refines:
  assumes "Buffer_wf b" and "parsing c" and "s = Buffer_content b"
  shows "case seq_parse t c s of
      None \<Rightarrow> parse_loop t (loop_vars c b) = Some Aborted
    | Some (ok, c', s') \<Rightarrow> \<exists>b'. parse_loop t (loop_vars c b) =
        Some (Returned \<lparr>pv_ok = ok, pv_hasMore = False, pv_ctx = c', pv_buf = b'\<rparr>) \<and>
        Buffer_wf b' \<and> Buffer_content b' = s'"
  using assms
proof (induction t c s arbitrary: b rule: seq_parse.induct)
  case (1 t c s)
  note iter = parse_iteration_refines [OF "1.prems"(1,2), of t, folded "1.prems"(3)]
  have loop: "parse_loop t (loop_vars c b) =
      (case parse_iteration t (loop_vars c b) of None \<Rightarrow> Some Aborted | Some v' \<Rightarrow> parse_loop t v')"
    by (subst parse_loop.simps) (simp add: loop_vars_def)
  show ?case
  proof (cases "seq_parse_step t c s")
    case (More c' s')
    then obtain b' where b': "parse_iteration t (loop_vars c b) = Some (loop_vars c' b')"
      "Buffer_wf b'" "Buffer_content b' = s'" using iter by auto
    have "parsing c'" using More "1.prems"(2) by (rule seq_parse_step_parsing [rotated])
    note ih = "1.IH" [OF More b'(2) this b'(3) [symmetric]]
    have eq: "parse_loop t (loop_vars c b) = parse_loop t (loop_vars c' b')"
      "seq_parse t c s = seq_parse t c' s'"
      using loop b'(1) More by (simp_all add: seq_parse.simps [of t c s])
    show ?thesis unfolding eq by (rule ih)
  qed (use iter loop in \<open>auto simp: seq_parse.simps [of t c s] parse_loop_stop\<close>)
qed

lemma parseRequest_refines:
  assumes "Buffer_wf b" and "parsing c"
  shows "case seq_parse t c (Buffer_content b) of
      None \<Rightarrow> HttpContext_parseRequest c b t = Some Aborted
    | Some (ok, c', s') \<Rightarrow> \<exists>b'. HttpContext_parseRequest c b t = Some (Returned (ok, c', b')) \<and>
        Buffer_wf b' \<and> Buffer_content b' = s'"
  using parse_loop_refines [OF assms refl, of t]
  by (auto simp: HttpContext_parseRequest_def loop_vars_def split: option.splits)

lemma parse_loop_diverges:
  assumes "\<not> parsing (pv_ctx v)" and "pv_hasMore v"
  shows "parse_loop t v = None"
proof -
  have "\<not> (\<not> parsing (pv_ctx v) \<and> pv_hasMore v)" if "parse_loop t v = Some y" for t v y
  proof (rule parse_loop.raw_induct [OF _ that])
    fix f t v y
    assume ih: "\<And>t v y. f t v = Some y \<Longrightarrow> \<not> (\<not> parsing (pv_ctx v) \<and> pv_hasMore v)"
      and body: "(if pv_hasMore v
        then (case parse_iteration t v of None \<Rightarrow> Some Aborted | Some v' \<Rightarrow> f t v')
        else Some (Returned v)) = Some y"
    show "\<not> (\<not> parsing (pv_ctx v) \<and> pv_hasMore v)"
    proof
      assume h: "\<not> parsing (pv_ctx v) \<and> pv_hasMore v"
      then have "parse_iteration t v = Some v"
        by (cases "ctx_state (pv_ctx v)") (auto simp: parse_iteration_def parsing_def)
      then have "f t v = Some y" using body h by simp
      then show False using ih h by blast
    qed
  qed
  then show ?thesis using assms by (cases "parse_loop t v") auto
qed

text \<open>C33: The parsing loop ends exactly when the context still expects the request line or
  the headers. In the two other states an iteration changes nothing and the loop spins.\<close>

theorem parseRequest_terminates:
  assumes "Buffer_wf b"
  shows "HttpContext_parseRequest c b t \<noteq> None \<longleftrightarrow> parsing c"
proof (cases "parsing c")
  case True
  then show ?thesis using parseRequest_refines [OF assms True, of t]
    by (auto split: option.splits)
next
  case False
  then show ?thesis
    using parse_loop_diverges [of "\<lparr>pv_ok = True, pv_hasMore = True, pv_ctx = c, pv_buf = b\<rparr>" t]
    by (simp add: HttpContext_parseRequest_def)
qed

theorem parseRequest_terminates_witness:
  "HttpContext_parseRequest HttpContext_ctor Buffer_default 7 \<noteq> None \<and>
   HttpContext_parseRequest (HttpContext_ctor\<lparr>ctx_state := kGotAll\<rparr>) Buffer_default 7 = None"
  using parseRequest_terminates [OF Buffer_default_wf, of HttpContext_ctor 7]
    parseRequest_terminates [OF Buffer_default_wf, of "HttpContext_ctor\<lparr>ctx_state := kGotAll\<rparr>" 7]
  by (simp add: parsing_def HttpContext_ctor_def)

subsection \<open>Pieces of input\<close>

lemma std_search_append:
  assumes "std_search p s < length s"
  shows "std_search p (s @ r) = std_search p s"
  using assms
proof (induction s)
  case Nil
  then show ?case by simp
next
  case (Cons x s)
  show ?case
  proof (cases "prefix p (x # s)")
    case True
    then have "prefix p (x # s @ r)" by (metis append_Cons prefix_prefix)
    then show ?thesis using True by simp
  next
    case False
    then have lt: "std_search p s < length s" using Cons.prems by simp
    have "length p \<le> length s" using std_search_bound [OF lt] by simp
    then have "\<not> prefix p (x # s @ r)" using False
      by (metis append_Cons length_Cons le_SucI prefix_length_prefix prefixI)
    then show ?thesis using False Cons.IH [OF lt] by simp
  qed
qed

lemma seq_parse_step_append:
  assumes "std_search kCRLF s < length s"
  shows "seq_parse_step t c (s @ r) =
    (case seq_parse_step t c s of
       Stop ok c' s' \<Rightarrow> Stop ok c' (s' @ r) | More c' s' \<Rightarrow> More c' (s' @ r) | Fail \<Rightarrow> Fail)"
proof -
  have "std_search kCRLF s + 2 \<le> length s"
    using std_search_bound [OF assms] by (simp add: kCRLF_def)
  then show ?thesis using assms std_search_append [OF assms, of r]
    by (auto simp: seq_parse_step_def Let_def split: option.splits prod.splits)
qed

text \<open>Parsing more input is the same as continuing with the context reached and the bytes
  left over.\<close>

lemma seq_parse_append:
  assumes "parsing c"
  shows "seq_parse t c (s @ r) =
    (case seq_parse t c s of
       None \<Rightarrow> None
     | Some (ok, c', s') \<Rightarrow> if ok \<and> parsing c' then seq_parse t c' (s' @ r) else Some (ok, c', s' @ r))"
  using assms
proof (induction t c s rule: seq_parse.induct)
  case (1 t c s)
  show ?case
  proof (cases "std_search kCRLF s < length s")
    case True
    note app = seq_parse_step_append [OF True, of t c r]
    show ?thesis
    proof (cases "seq_parse_step t c s")
      case (More c' s')
      then show ?thesis using "1.IH" [OF More seq_parse_step_parsing [OF "1.prems" More]] app
        by (simp add: seq_parse.simps [of t c])
    next
      case (Stop ok c' s')
      then have "\<not> (ok \<and> parsing c')"
        using True by (auto simp: seq_parse_step_def Let_def parsing_def split: if_splits option.splits)
      then show ?thesis using Stop app by (auto simp: seq_parse.simps [of t c])
    next
      case Fail
      then show ?thesis using app by (simp add: seq_parse.simps [of t c])
    qed
  next
    case False
    then have "seq_parse_step t c s = Stop True c s"
      using std_search_le [of kCRLF s] by (simp add: seq_parse_step_def)
    then show ?thesis using "1.prems" by (simp add: seq_parse.simps [of t c s])
  qed
qed



subsection \<open>Printed requests\<close>

definition method_name :: "Method \<Rightarrow> string" where
  "method_name m = HttpRequest_methodString (HttpRequest_ctor\<lparr>req_method := m\<rparr>)"

definition print_headers :: "(string \<times> string) list \<Rightarrow> string" where
  "print_headers hs = concat (map (\<lambda>(f, v). f @ '': '' @ v @ kCRLF) hs) @ kCRLF"

definition print_request :: "Method \<Rightarrow> string \<Rightarrow> string \<Rightarrow> Version \<Rightarrow> (string \<times> string) list \<Rightarrow> string" where
  "print_request m path query v hs =
     method_name m @ '' '' @ path @ query @ '' HTTP/1.'' @ (if v = kHttp11 then ''1'' else ''0'')
       @ kCRLF @ print_headers hs"

definition no_crlf :: "string \<Rightarrow> bool" where
  "no_crlf s \<longleftrightarrow> CHR 0x0D \<notin> set s \<and> CHR 0x0A \<notin> set s"

definition header_ok :: "string \<times> string \<Rightarrow> bool" where
  "header_ok h \<longleftrightarrow> (case h of (f, v) \<Rightarrow> no_crlf f \<and> no_crlf v \<and> CHR '':'' \<notin> set f
     \<and> (v \<noteq> [] \<longrightarrow> \<not> isspace (hd v) \<and> \<not> isspace (last v)))"

definition request_ok :: "Method \<Rightarrow> string \<Rightarrow> string \<Rightarrow> Version \<Rightarrow> (string \<times> string) list \<Rightarrow> bool" where
  "request_ok m path query v hs \<longleftrightarrow> m \<noteq> kInvalid \<and> v \<noteq> kUnknown
     \<and> no_crlf path \<and> no_crlf query \<and> CHR '' '' \<notin> set path \<and> CHR '' '' \<notin> set query
     \<and> CHR ''?'' \<notin> set path \<and> (query = [] \<or> hd query = CHR ''?'') \<and> list_all header_ok hs"

definition header_map :: "(string \<times> string) list \<Rightarrow> (string \<times> string) list" where
  "header_map hs = fold (\<lambda>(f, v). map_put f v) hs []"

lemma std_search_CRLF:
  assumes "CHR 0x0D \<notin> set s"
  shows "std_search kCRLF (s @ kCRLF @ r) = length s"
  using assms by (induction s) (auto simp: kCRLF_def)

lemma seq_parse_step_line:
  assumes "CHR 0x0D \<notin> set l"
  shows "seq_parse_step t c (l @ kCRLF @ r) =
    (if ctx_state c = kExpectRequestLine
     then (case HttpContext_processRequestLine c l of
             None \<Rightarrow> Fail
           | Some (ok, c') \<Rightarrow>
              if ok then More (c'\<lparr>ctx_request := HttpRequest_setReceiveTime (ctx_request c') t,
                                 ctx_state := kExpectHeaders\<rparr>) r
              else Stop False c' (l @ kCRLF @ r))
     else if std_find (CHR '':'') l \<noteq> length l
     then More (c\<lparr>ctx_request := HttpRequest_addHeader (ctx_request c) l (std_find (CHR '':'') l)\<rparr>) r
     else Stop True (c\<lparr>ctx_state := kGotAll\<rparr>) r)"
proof -
  have "take (length l) (l @ kCRLF @ r) = l" "drop (length l + 2) (l @ kCRLF @ r) = r"
    "length l \<noteq> length (l @ kCRLF @ r)"
    by (simp_all add: kCRLF_def)
  then show ?thesis
    unfolding seq_parse_step_def std_search_CRLF [OF assms] Let_def by (simp only: if_False if_not_P)
qed

lemma std_find_here: "c \<notin> set s \<Longrightarrow> std_find c (s @ c # r) = length s"
  by (induction s) auto

lemma chop_space_id: "s = [] \<or> \<not> isspace (last s) \<Longrightarrow> chop_space s = s"
  by (subst chop_space.simps) auto

lemma skip_space_id: "s = [] \<or> \<not> isspace (hd s) \<Longrightarrow> skip_space s = s"
  by (cases s) auto

lemma addHeader_printed:
  assumes "header_ok (f, v)"
  shows "HttpRequest_addHeader r (f @ '': '' @ v) (std_find (CHR '':'') (f @ '': '' @ v)) =
    r\<lparr>req_headers := map_put f v (req_headers r)\<rparr>"
  using assms std_find_here [of "CHR '':''" f "CHR '' '' # v"]
  by (auto simp: HttpRequest_addHeader_def header_ok_def skip_space_id chop_space_id isspace_def)

lemma seq_parse_header_line:
  assumes "header_ok (f, v)" and "ctx_state c = kExpectHeaders"
  shows "seq_parse t c ((f @ '': '' @ v @ kCRLF) @ r) =
    seq_parse t (c\<lparr>ctx_request := (ctx_request c)\<lparr>req_headers := map_put f v (req_headers (ctx_request c))\<rparr>\<rparr>) r"
proof -
  let ?l = "f @ '': '' @ v"
  have i: "CHR 0x0D \<notin> set ?l"
    using assms(1) by (auto simp: header_ok_def no_crlf_def)
  have colon: "std_find (CHR '':'') ?l \<noteq> length ?l"
    using assms(1) std_find_here [of "CHR '':''" f "CHR '' '' # v"] by (simp add: header_ok_def)
  have "seq_parse_step t c (?l @ kCRLF @ r) = More (c\<lparr>ctx_request := (ctx_request c)
      \<lparr>req_headers := map_put f v (req_headers (ctx_request c))\<rparr>\<rparr>) r"
    unfolding seq_parse_step_line [OF i] using assms(2) colon addHeader_printed [OF assms(1)] by simp
  then show ?thesis by (subst seq_parse.simps) simp
qed

lemma seq_parse_headers:
  assumes "list_all header_ok hs" and "ctx_state c = kExpectHeaders"
  shows "seq_parse t c (print_headers hs @ r) =
    Some (True, c\<lparr>ctx_state := kGotAll, ctx_request := (ctx_request c)
      \<lparr>req_headers := fold (\<lambda>(f, v). map_put f v) hs (req_headers (ctx_request c))\<rparr>\<rparr>, r)"
  using assms
proof (induction hs arbitrary: c)
  case Nil
  have "std_search kCRLF (kCRLF @ r) = 0" using std_search_CRLF [of "[]" r] by simp
  then show ?case using Nil
    by (subst seq_parse.simps) (simp add: print_headers_def seq_parse_step_def kCRLF_def)
next
  case (Cons h hs)
  obtain f v where h: "h = (f, v)" by (cases h)
  have "print_headers (h # hs) @ r = (f @ '': '' @ v @ kCRLF) @ (print_headers hs @ r)"
    by (simp add: print_headers_def h)
  then show ?case using Cons seq_parse_header_line [of f v c t "print_headers hs @ r"]
    by (simp add: h)
qed

lemma method_name_facts:
  assumes "m \<noteq> kInvalid"
  shows "CHR '' '' \<notin> set (method_name m)" and "CHR 0x0D \<notin> set (method_name m)"
    and "req_method r = kInvalid \<Longrightarrow>
      HttpRequest_setMethod r (method_name m) = Some (True, r\<lparr>req_method := m\<rparr>)"
  using assms
  by (cases m; simp add: method_name_def HttpRequest_methodString_def HttpRequest_setMethod_def
      HttpRequest_ctor_def)+

lemma std_find_question:
  assumes "CHR ''?'' \<notin> set path" and "query = [] \<or> hd query = CHR ''?''"
  shows "std_find (CHR ''?'') (path @ query) = length path"
  using assms std_find_here [of "CHR ''?''" path] std_find_absent [of "CHR ''?''" path]
  by (cases query) auto

text \<open>The query of the request before the line is kept when the line has none.\<close>

lemma processRequestLine_printed:
  assumes ok: "request_ok m path query v hs" and m: "req_method (ctx_request c) = kInvalid"
    and q: "req_query (ctx_request c) = ''''"
  shows "HttpContext_processRequestLine c
      (method_name m @ '' '' @ path @ query @ '' HTTP/1.'' @ (if v = kHttp11 then ''1'' else ''0'')) =
    Some (True, c\<lparr>ctx_request := (ctx_request c)
      \<lparr>req_method := m, req_path := path, req_query := query, req_version := v\<rparr>\<rparr>)"
proof -
  define ver where "ver = ''HTTP/1.'' @ (if v = kHttp11 then ''1'' else ''0'')"
  define rest where "rest = (path @ query) @ CHR '' '' # ver"
  define line where "line = method_name m @ CHR '' '' # rest"
  have m': "m \<noteq> kInvalid" and v: "v = kHttp11 \<or> v = kHttp10"
    using ok by (cases v; simp add: request_ok_def)+
  have 1: "std_find (CHR '' '') line = length (method_name m)"
    unfolding line_def by (rule std_find_here) (rule method_name_facts(1) [OF m'])
  have 2: "std_find (CHR '' '') rest = length (path @ query)"
    unfolding rest_def by (rule std_find_here) (use ok in \<open>auto simp: request_ok_def\<close>)
  have 3: "std_find (CHR ''?'') (path @ query) = length path"
    by (rule std_find_question) (use ok in \<open>auto simp: request_ok_def\<close>)
  have ver: "length ver = 8" "butlast ver = ''HTTP/1.''"
    "last ver = (if v = kHttp11 then CHR ''1'' else CHR ''0'')"
    by (simp_all add: ver_def)
  have parts: "take (length (method_name m)) line = method_name m"
    "drop (length (method_name m) + 1) line = rest" "length (method_name m) \<noteq> length line"
    "take (length (path @ query)) rest = path @ query"
    "drop (length (path @ query) + 1) rest = ver" "length (path @ query) \<noteq> length rest"
    by (simp_all add: line_def rest_def)
  have "process_target ((ctx_request c)\<lparr>req_method := m\<rparr>) rest = (True, (ctx_request c)
      \<lparr>req_method := m, req_path := path, req_query := query, req_version := v\<rparr>)"
    unfolding process_target_def Let_def 2 parts 3
    using ver v q parts(6)
    by (auto simp: HttpRequest_setVersion_def HttpRequest_setPath_def HttpRequest_setQuery_def)
  then have "HttpContext_processRequestLine c line = Some (True, c\<lparr>ctx_request := (ctx_request c)
      \<lparr>req_method := m, req_path := path, req_query := query, req_version := v\<rparr>\<rparr>)"
    unfolding HttpContext_processRequestLine_def Let_def 1 parts
      method_name_facts(3) [OF m' m] Option.bind.simps prod.case
    using parts(3) by simp
  then show ?thesis by (simp add: line_def rest_def ver_def)
qed

definition printed_request ::
    "Method \<Rightarrow> string \<Rightarrow> string \<Rightarrow> Version \<Rightarrow> (string \<times> string) list \<Rightarrow> timestamp \<Rightarrow> HttpRequest" where
  "printed_request m path query v hs t = \<lparr>req_method = m, req_version = v, req_path = path,
     req_query = query, req_receiveTime = t, req_headers = header_map hs\<rparr>"

lemma seq_parse_printed:
  assumes ok: "request_ok m path query v hs"
  shows "seq_parse t HttpContext_ctor (print_request m path query v hs @ r) =
    Some (True, \<lparr>ctx_state = kGotAll, ctx_request = printed_request m path query v hs t\<rparr>, r)"
proof -
  let ?l = "method_name m @ '' '' @ path @ query @ '' HTTP/1.'' @ (if v = kHttp11 then ''1'' else ''0'')"
  let ?req = "HttpRequest_ctor\<lparr>req_method := m, req_path := path, req_query := query,
    req_version := v, req_receiveTime := t\<rparr>"
  have s: "print_request m path query v hs @ r = ?l @ kCRLF @ (print_headers hs @ r)"
    by (simp add: print_request_def)
  have i: "CHR 0x0D \<notin> set ?l"
    using ok method_name_facts(2) [of m] by (auto simp: request_ok_def no_crlf_def)
  have p: "HttpContext_processRequestLine HttpContext_ctor ?l = Some (True, HttpContext_ctor
      \<lparr>ctx_request := HttpRequest_ctor\<lparr>req_method := m, req_path := path, req_query := query,
        req_version := v\<rparr>\<rparr>)"
    using processRequestLine_printed [OF ok, of HttpContext_ctor]
    by (simp add: HttpContext_ctor_def HttpRequest_ctor_def)
  have "seq_parse_step t HttpContext_ctor (print_request m path query v hs @ r) =
      More \<lparr>ctx_state = kExpectHeaders, ctx_request = ?req\<rparr> (print_headers hs @ r)"
    unfolding s seq_parse_step_line [OF i] p
    by (simp add: HttpContext_ctor_def HttpRequest_ctor_def HttpRequest_setReceiveTime_def)
  then have "seq_parse t HttpContext_ctor (print_request m path query v hs @ r) =
      seq_parse t \<lparr>ctx_state = kExpectHeaders, ctx_request = ?req\<rparr> (print_headers hs @ r)"
    by (subst seq_parse.simps) simp
  then show ?thesis using ok
    by (simp add: seq_parse_headers request_ok_def printed_request_def header_map_def HttpRequest_ctor_def)
qed

text \<open>C13: A printed request is parsed back: from a fresh context and any buffer whose content
  starts with the request, \<open>parseRequest\<close> returns true with the request complete, exactly
  its method, path, query, version and headers (the last value of a repeated field), and
  leaves in the buffer exactly the bytes that follow the request.\<close>

theorem parseRequest_printed:
  assumes "request_ok m path query v hs" and "Buffer_wf b"
    and "Buffer_content b = print_request m path query v hs @ r"
  shows "\<exists>b'. HttpContext_parseRequest HttpContext_ctor b t =
      Some (Returned (True, \<lparr>ctx_state = kGotAll, ctx_request = printed_request m path query v hs t\<rparr>, b')) \<and>
    Buffer_content b' = r \<and>
    map_of (req_headers (printed_request m path query v hs t)) = map_of (rev hs)"
proof -
  have "map_of (fold (\<lambda>(f, v). map_put f v) hs acc) = map_of (rev hs @ acc) \<and>
      map_sorted (fold (\<lambda>(f, v). map_put f v) hs acc)" if "map_sorted acc" for acc
    using that
  proof (induction hs arbitrary: acc)
    case (Cons h hs)
    then show ?case by (cases h) (auto simp: fun_eq_iff map_add_def split: option.splits)
  qed simp
  then have "map_of (header_map hs) = map_of (rev hs)" by (simp add: header_map_def)
  then show ?thesis
    using parseRequest_refines [OF assms(2), of HttpContext_ctor t] seq_parse_printed [OF assms(1), of t r]
      assms(3) by (auto simp: parsing_def HttpContext_ctor_def printed_request_def)
qed

theorem parseRequest_printed_witness:
  "let hs = [(''Host'', ''localhost''), (''Connection'', ''close'')] in
   request_ok kGet ''/index.html'' ''?page=1'' kHttp11 hs \<and>
   (\<exists>b'. HttpContext_parseRequest HttpContext_ctor
        (buffer_holding (print_request kGet ''/index.html'' ''?page=1'' kHttp11 hs @ ''POST'')) 7 =
      Some (Returned (True, \<lparr>ctx_state = kGotAll,
        ctx_request = printed_request kGet ''/index.html'' ''?page=1'' kHttp11 hs 7\<rparr>, b')) \<and>
    Buffer_content b' = ''POST'')"
proof -
  define hs where "hs = [(''Host'', ''localhost''), (''Connection'', ''close'')]"
  have ok: "request_ok kGet ''/index.html'' ''?page=1'' kHttp11 hs"
    by (simp add: request_ok_def header_ok_def no_crlf_def isspace_def hs_def)
  have "length (print_request kGet ''/index.html'' ''?page=1'' kHttp11 hs @ ''POST'') \<le> 1000"
    by (simp add: print_request_def print_headers_def method_name_def HttpRequest_methodString_def
        HttpRequest_ctor_def hs_def kCRLF_def)
  note b = buffer_holding_wf [OF this]
  show ?thesis unfolding Let_def hs_def [symmetric]
    using ok parseRequest_printed [OF ok b buffer_holding_content, of 7] by blast
qed

subsection \<open>After an error\<close>

lemma processRequestLine_context:
  assumes "HttpContext_processRequestLine c line = Some (ok, c')"
  shows "ctx_state c' = ctx_state c"
  using assms
  by (auto simp: HttpContext_processRequestLine_def Let_def elim!: bind_eq_SomeE
      split: if_splits prod.splits)

lemma processRequestLine_method_set:
  assumes "HttpContext_processRequestLine c line = Some (ok, c')"
    and "req_method (ctx_request c) = kInvalid" and "req_method (ctx_request c') \<noteq> kInvalid"
  shows "HttpContext_processRequestLine c' line = None"
proof -
  have "std_find (CHR '' '') line \<noteq> length line"
    using assms by (auto simp: HttpContext_processRequestLine_def Let_def)
  moreover have "HttpRequest_setMethod (ctx_request c') x = None" for x
    using assms(3) by (simp add: HttpRequest_setMethod_def)
  ultimately show ?thesis by (simp add: HttpContext_processRequestLine_def Let_def)
qed

text \<open>A context between two calls that did not fail: parsing goes on, and while the request
  line is expected no method has been recorded.\<close>

definition ready :: "HttpContext \<Rightarrow> bool" where
  "ready c \<longleftrightarrow> parsing c \<and> (ctx_state c = kExpectRequestLine \<longrightarrow> req_method (ctx_request c) = kInvalid)"

lemma seq_parse_in_headers:
  assumes "ctx_state c = kExpectHeaders"
  shows "\<exists>c' s'. seq_parse t c s = Some (True, c', s') \<and> ctx_state c' \<in> {kExpectHeaders, kGotAll}"
  using assms
proof (induction t c s rule: seq_parse.induct)
  case (1 t c s)
  show ?case
  proof (cases "seq_parse_step t c s")
    case (More c' s')
    then have "ctx_state c' = kExpectHeaders"
      using "1.prems" by (auto simp: seq_parse_step_def Let_def split: if_splits)
    then show ?thesis using "1.IH" [OF More] More by (simp add: seq_parse.simps [of t c s])
  qed (use "1.prems" in \<open>auto simp: seq_parse.simps [of t c s] seq_parse_step_def Let_def split: if_splits\<close>)
qed

lemma processRequestLine_defined:
  "req_method (ctx_request c) = kInvalid \<Longrightarrow> \<exists>ok c'. HttpContext_processRequestLine c line = Some (ok, c')"
  by (auto simp: HttpContext_processRequestLine_def HttpRequest_setMethod_def Let_def
      split: prod.splits)

lemma seq_parse_ready:
  assumes "ready c"
  obtains (ok) c' s' where "seq_parse t c s = Some (True, c', s')"
      and "ctx_state c' = kGotAll \<or> ready c'"
  | (bad) c' where "seq_parse t c s = Some (False, c', s)" and "ctx_state c = kExpectRequestLine"
      and "std_search kCRLF s < length s" and "ctx_state c' = kExpectRequestLine"
      and "HttpContext_processRequestLine c (take (std_search kCRLF s) s) = Some (False, c')"
proof (cases "ctx_state c = kExpectHeaders")
  case True
  then show ?thesis using seq_parse_in_headers [OF True, of t s] ok by (auto simp: ready_def parsing_def)
next
  case False
  then have c: "ctx_state c = kExpectRequestLine" "req_method (ctx_request c) = kInvalid"
    using assms by (auto simp: ready_def parsing_def)
  define i where "i = std_search kCRLF s"
  show ?thesis
  proof (cases "i = length s")
    case True
    then have "seq_parse t c s = Some (True, c, s)"
      by (simp add: seq_parse.simps [of t c s] seq_parse_step_def i_def)
    then show ?thesis using ok assms by blast
  next
    case False
    then have lt: "i < length s" using std_search_le [of kCRLF s] by (simp add: i_def)
    obtain succ c' where p: "HttpContext_processRequestLine c (take i s) = Some (succ, c')"
      using processRequestLine_defined [OF c(2)] by blast
    show ?thesis
    proof (cases succ)
      case True
      define c2 where "c2 = c'\<lparr>ctx_request := HttpRequest_setReceiveTime (ctx_request c') t, ctx_state := kExpectHeaders\<rparr>"
      have "seq_parse t c s = seq_parse t c2 (drop (i + 2) s)"
        using True p lt c(1)
        by (simp add: seq_parse.simps [of t c s] seq_parse_step_def i_def Let_def c2_def)
      moreover have "ctx_state c2 = kExpectHeaders" by (simp add: c2_def)
      ultimately show ?thesis using seq_parse_in_headers [of c2 t "drop (i + 2) s"] ok
        by (auto simp: ready_def parsing_def)
    next
      case False
      then have "seq_parse t c s = Some (False, c', s)"
        using p lt c(1) by (simp add: seq_parse.simps [of t c s] seq_parse_step_def i_def Let_def)
      then show ?thesis
        using bad [of c'] p False c(1) lt processRequestLine_context [OF p] by (simp add: i_def)
    qed
  qed
qed

text \<open>C34: A request line with a known method that is rejected for another reason leaves the
  method in the context and the line in the buffer, so the next bytes received, whatever they
  are, run into the assertion that no method has been set: the process aborts. The server
  has only shut down its own side of the connection by then.\<close>

theorem parseRequest_after_error_aborts:
  assumes "ready c" and "Buffer_wf b"
    and "HttpContext_parseRequest c b t = Some (Returned (False, c', b'))"
    and "req_method (ctx_request c') \<noteq> kInvalid"
    and "Buffer_wf b2" and "Buffer_content b2 = Buffer_content b' @ s"
  shows "HttpContext_parseRequest c' b2 t2 = Some Aborted"
proof -
  have pc: "parsing c" using assms(1) by (simp add: ready_def)
  have p: "seq_parse t c (Buffer_content b) = Some (False, c', Buffer_content b')"
    using parseRequest_refines [OF assms(2) pc, of t] assms(3) by (auto split: option.splits)
  from assms(1) show ?thesis
  proof (cases rule: seq_parse_ready [where t = t and s = "Buffer_content b"])
    case (ok c1 s1)
    then show ?thesis using p by simp
  next
    case (bad c1)
    define i where "i = std_search kCRLF (Buffer_content b)"
    have eq: "c1 = c'" "Buffer_content b' = Buffer_content b" using bad(1) p by simp_all
    have "HttpContext_processRequestLine c' (take i (Buffer_content b)) = None"
      using processRequestLine_method_set [OF bad(5)] eq assms(1,4) bad(2)
      by (simp add: i_def ready_def)
    then have "seq_parse_step t2 c' (Buffer_content b) = Fail"
      using bad(3,4) eq by (simp add: seq_parse_step_def i_def Let_def)
    then have "seq_parse_step t2 c' (Buffer_content b2) = Fail"
      using seq_parse_step_append [OF bad(3), of t2 c' s] eq assms(6) by simp
    moreover have "parsing c'" using bad(4) eq by (simp add: parsing_def)
    ultimately show ?thesis using parseRequest_refines [OF assms(5), of c' t2]
      by (simp add: seq_parse.simps [of t2 c'])
  qed
qed

definition http2_line :: string where
  "http2_line = ''GET / HTTP/2.0'' @ kCRLF"

definition http2_context :: HttpContext where
  "http2_context = HttpContext_ctor\<lparr>ctx_request := HttpRequest_ctor\<lparr>req_method := kGet, req_path := ''/''\<rparr>\<rparr>"

lemma http2_line_rejected: "seq_parse t HttpContext_ctor http2_line = Some (False, http2_context, http2_line)"
proof -
  have "HttpContext_processRequestLine HttpContext_ctor ''GET / HTTP/2.0'' = Some (False, http2_context)"
    by (simp add: HttpContext_processRequestLine_def process_target_def HttpRequest_setMethod_def
        HttpRequest_setPath_def HttpContext_ctor_def HttpRequest_ctor_def http2_context_def)
  then show ?thesis
    using seq_parse_step_line [of "''GET / HTTP/2.0''" t HttpContext_ctor "[]"]
    by (subst seq_parse.simps) (simp add: http2_line_def HttpContext_ctor_def)
qed

theorem parseRequest_after_error_aborts_witness:
  "\<exists>b'. HttpContext_parseRequest HttpContext_ctor (buffer_holding http2_line) 7 =
      Some (Returned (False, http2_context, b')) \<and> Buffer_content b' = http2_line \<and>
    HttpContext_parseRequest http2_context (buffer_holding (http2_line @ ''x'')) 8 = Some Aborted"
proof -
  have r: "ready HttpContext_ctor"
    by (simp add: ready_def parsing_def HttpContext_ctor_def HttpRequest_ctor_def)
  have w: "Buffer_wf (buffer_holding http2_line)" "Buffer_wf (buffer_holding (http2_line @ ''x''))"
    by (simp_all add: buffer_holding_wf http2_line_def kCRLF_def)
  have pc: "parsing HttpContext_ctor" using r by (simp add: ready_def)
  obtain b' where b': "HttpContext_parseRequest HttpContext_ctor (buffer_holding http2_line) 7 =
      Some (Returned (False, http2_context, b'))" "Buffer_content b' = http2_line"
    using parseRequest_refines [OF w(1) pc, of 7] http2_line_rejected by auto
  have m: "req_method (ctx_request http2_context) \<noteq> kInvalid" by (simp add: http2_context_def)
  have "Buffer_content (buffer_holding (http2_line @ ''x'')) = Buffer_content b' @ ''x''"
    using b'(2) by simp
  from b' parseRequest_after_error_aborts [OF r w(1) b'(1) m w(2) this] show ?thesis by blast
qed

subsection \<open>The text of a response\<close>

definition response_text :: "HttpResponse \<Rightarrow> string" where
  "response_text r =
     ''HTTP/1.1 '' @ int_to_dec (resp_statusCode r) @ '' '' @ resp_statusMessage r @ kCRLF
     @ (if resp_closeConnection r then ''Connection: close'' @ kCRLF
        else ''Content-Length: '' @ nat_to_dec (length (resp_body r)) @ kCRLF
          @ ''Connection: Keep-Alive'' @ kCRLF)
     @ concat (map (\<lambda>(k, v). k @ '': '' @ v @ kCRLF) (resp_headers r)) @ kCRLF @ resp_body r"

definition response_chunks :: "HttpResponse \<Rightarrow> string list" where
  "response_chunks r =
     [snprintf 32 (''HTTP/1.1 '' @ int_to_dec (resp_statusCode r) @ '' ''), resp_statusMessage r, kCRLF]
     @ (if resp_closeConnection r then [''Connection: close'' @ kCRLF]
        else [snprintf 32 (''Content-Length: '' @ int_to_dec (int (length (resp_body r))) @ kCRLF),
              ''Connection: Keep-Alive'' @ kCRLF])
     @ concat (map (\<lambda>(k, v). [k, '': '', v, kCRLF]) (resp_headers r)) @ [kCRLF, resp_body r]"

lemma append_all_append:
  "append_all app b (xs @ ys) = do { b' \<leftarrow> append_all app b xs; append_all app b' ys }"
  by (induction xs arbitrary: b) (simp_all add: Option.bind_assoc)

lemma append_headers_chunks:
  "append_headers b hs = append_all Buffer_append b (concat (map (\<lambda>(k, v). [k, '': '', v, kCRLF]) hs))"
  by (induction hs arbitrary: b) auto

lemma bind_Some_right: "Option.bind m Some = m"
  by (cases m) auto

lemma appendToBuffer_chunks:
  "HttpResponse_appendToBuffer r b = append_all Buffer_append b (response_chunks r)"
  by (simp add: HttpResponse_appendToBuffer_def response_chunks_def append_all_append
      append_headers_chunks Option.bind_assoc bind_Some_right)

definition is_status :: "int \<Rightarrow> bool" where
  "is_status code \<longleftrightarrow> 0 \<le> code \<and> code \<le> 999999"

definition response_ok :: "HttpResponse \<Rightarrow> bool" where
  "response_ok r \<longleftrightarrow> is_status (resp_statusCode r) \<and> length (resp_body r) < 10 ^ 13"

lemma concat_response_chunks:
  assumes "response_ok r"
  shows "concat (response_chunks r) = response_text r"
proof -
  have s: "0 \<le> resp_statusCode r" "nat (resp_statusCode r) < 10 ^ 6"
    using assms by (auto simp: response_ok_def is_status_def)
  have "length (nat_to_dec (nat (resp_statusCode r))) \<le> 6"
    by (rule length_nat_to_base) (use s in auto)
  then have 1: "snprintf 32 (''HTTP/1.1 '' @ int_to_dec (resp_statusCode r) @ '' '') =
      ''HTTP/1.1 '' @ int_to_dec (resp_statusCode r) @ '' ''"
    using s(1) by (intro snprintf_fits) (simp add: int_to_dec_def)
  have "length (nat_to_dec (length (resp_body r))) \<le> 13"
    by (rule length_nat_to_base) (use assms in \<open>auto simp: response_ok_def\<close>)
  then have 2: "snprintf 32 (''Content-Length: '' @ int_to_dec (int (length (resp_body r))) @ kCRLF) =
      ''Content-Length: '' @ nat_to_dec (length (resp_body r)) @ kCRLF"
    unfolding int_to_dec_def by (subst snprintf_fits) (simp_all add: kCRLF_def)
  have 3: "concat (concat (map (\<lambda>(k, v). [k, '': '', v, kCRLF]) hs)) =
      concat (map (\<lambda>(k, v). k @ '': '' @ v @ kCRLF) hs)" for hs :: "(string \<times> string) list"
    by (induction hs) auto
  show ?thesis unfolding response_chunks_def response_text_def 1 2 by (simp add: 3)
qed

text \<open>Appending a response to a buffer appends exactly its text: status line, the
  connection headers, the other headers in the order of their names, an empty line and the
  body. Without \<open>closeConnection\<close> the length of the body is announced. The two local
  character arrays are long enough.\<close>

theorem appendToBuffer_correct:
  assumes "Buffer_wf b" and "response_ok r"
    and "Buffer_used b + length (response_text r) \<le> max_size"
  shows "\<exists>b'. HttpResponse_appendToBuffer r b = Some b' \<and> Buffer_wf b' \<and>
    Buffer_content b' = Buffer_content b @ response_text r"
  using buf.append_all_ok [OF assms(1), of "response_chunks r"] assms(3)
  unfolding concat_response_chunks [OF assms(2)] appendToBuffer_chunks by blast

definition example_response :: HttpResponse where
  "example_response = HttpResponse_setBody (HttpResponse_setContentType
     (HttpResponse_setStatusMessage (HttpResponse_setStatusCode (HttpResponse_ctor False) 200) ''OK'')
     ''text/plain'') ''hello''"

subsection \<open>The server\<close>

definition closes :: "HttpRequest \<Rightarrow> bool" where
  "closes req \<longleftrightarrow> HttpRequest_getHeader req ''Connection'' = ''close'' \<or>
     (req_version req = kHttp10 \<and> HttpRequest_getHeader req ''Connection'' \<noteq> ''Keep-Alive'')"

definition answer :: "http_callback \<Rightarrow> HttpRequest \<Rightarrow> HttpResponse" where
  "answer cb req = cb req (HttpResponse_ctor (closes req))"

definition answer_fits :: "http_callback \<Rightarrow> HttpRequest \<Rightarrow> bool" where
  "answer_fits cb req \<longleftrightarrow> response_ok (answer cb req) \<and> length (response_text (answer cb req)) \<le> max_size - 8"

lemma onRequest_answer:
  assumes "answer_fits cb req"
  shows "HttpServer_onRequest cb req = Some (Send (response_text (answer cb req)) #
    (if resp_closeConnection (answer cb req) then [Shutdown] else []))"
proof -
  have r: "response_ok (answer cb req)" using assms by (simp add: answer_fits_def)
  have "Buffer_used Buffer_default = 8" "8 \<le> max_size"
    by (simp_all add: Buffer_used_def Buffer_ctor_def kCheapPrepend_def max_size_def)
  then have "Buffer_used Buffer_default + length (concat (response_chunks (answer cb req))) \<le> max_size"
    using assms concat_response_chunks [OF r] by (auto simp: answer_fits_def)
  then obtain b' where b': "HttpResponse_appendToBuffer (answer cb req) Buffer_default = Some b'"
    "Buffer_content b' = Buffer_content Buffer_default @ response_text (answer cb req)"
    using buf.append_all_ok [OF Buffer_default_wf] concat_response_chunks [OF r]
    unfolding appendToBuffer_chunks by metis
  moreover have "Buffer_content Buffer_default = []"
    by (simp add: Buffer_content_def Buffer_range_def Buffer_ctor_def subrange_def)
  ultimately show ?thesis
    by (simp add: HttpServer_onRequest_def answer_def closes_def Let_def)
qed

lemma reset_context: "HttpContext_reset c = HttpContext_ctor"
  by (simp add: HttpContext_reset_def HttpRequest_swap_def HttpContext_ctor_def HttpRequest_ctor_def)

text \<open>C14: The server answers a complete request with exactly the response its callback fills
  in, starting from a response that closes the connection when the request says \<open>close\<close>, or
  is HTTP/1.0 without \<open>Keep-Alive\<close>; it shuts the connection down after the answer exactly
  when the response says so, is back in its initial context, and leaves the bytes after the
  request in the buffer.\<close>

theorem HttpServer_answers_request:
  assumes "request_ok m path query v hs" and "Buffer_wf b"
    and "Buffer_content b = print_request m path query v hs @ r"
    and "req = printed_request m path query v hs t" and "answer_fits cb req"
  shows "\<exists>b'. HttpServer_onMessage cb HttpContext_ctor b t = Some (Returned
      (Send (response_text (answer cb req)) #
         (if resp_closeConnection (answer cb req) then [Shutdown] else []),
       HttpContext_ctor, b')) \<and> Buffer_wf b' \<and> Buffer_content b' = r"
proof -
  have "parsing HttpContext_ctor" by (simp add: parsing_def HttpContext_ctor_def)
  then obtain b' where b': "HttpContext_parseRequest HttpContext_ctor b t =
      Some (Returned (True, \<lparr>ctx_state = kGotAll, ctx_request = req\<rparr>, b'))"
    "Buffer_wf b'" "Buffer_content b' = r"
    using parseRequest_refines [OF assms(2), of HttpContext_ctor t]
      seq_parse_printed [OF assms(1), of t r] assms(3,4) by auto
  then show ?thesis using onRequest_answer [OF assms(5)]
    by (simp add: HttpServer_onMessage_def HttpContext_gotAll_def reset_context)
qed

theorem HttpServer_answers_request_witness:
  "let hs = [(''Connection'', ''close'')]; req = printed_request kGet ''/'' '''' kHttp11 hs 7 in
   \<exists>b'. HttpServer_onMessage defaultHttpCallback HttpContext_ctor
        (buffer_holding (print_request kGet ''/'' '''' kHttp11 hs @ ''GET'')) 7 =
      Some (Returned ([Send (response_text (answer defaultHttpCallback req)), Shutdown],
        HttpContext_ctor, b')) \<and> Buffer_wf b' \<and> Buffer_content b' = ''GET''"
proof -
  define hs where "hs = [(''Connection'', ''close'')]"
  define req where "req = printed_request kGet ''/'' '''' kHttp11 hs 7"
  have ok: "request_ok kGet ''/'' '''' kHttp11 hs"
    by (simp add: request_ok_def header_ok_def no_crlf_def isspace_def hs_def)
  have "length (print_request kGet ''/'' '''' kHttp11 hs @ ''GET'') \<le> 1000"
    by (simp add: print_request_def print_headers_def method_name_def HttpRequest_methodString_def
        HttpRequest_ctor_def hs_def kCRLF_def)
  note b = buffer_holding_wf [OF this]
  have "length (nat_to_dec 404) \<le> 6" using length_nat_to_base [of 10 6 404] by simp
  then have fits: "answer_fits defaultHttpCallback req"
    by (simp add: answer_fits_def answer_def defaultHttpCallback_def response_ok_def is_status_def
        HttpResponse_setCloseConnection_def HttpResponse_setStatusMessage_def int_to_dec_def
        HttpResponse_setStatusCode_def HttpResponse_ctor_def response_text_def kCRLF_def max_size_def)
  have cl: "resp_closeConnection (answer defaultHttpCallback req)"
    by (simp add: answer_def defaultHttpCallback_def HttpResponse_setCloseConnection_def)
  show ?thesis unfolding Let_def hs_def [symmetric] req_def [symmetric]
    using HttpServer_answers_request [OF ok b buffer_holding_content req_def fits] cl by simp
qed

text \<open>C32: As long as no request line has been rejected the server neither hangs nor aborts on
  any input: from a ready context every message is handled, and the context is ready again
  unless the handler answered with a bad request.\<close>

theorem HttpServer_onMessage_safe:
  assumes "ready c" and "Buffer_wf b" and "\<And>req. answer_fits cb req"
  shows "\<exists>acts c' b'. HttpServer_onMessage cb c b t = Some (Returned (acts, c', b')) \<and> Buffer_wf b' \<and>
    (ready c' \<or> acts = [Send (''HTTP/1.1 400 Bad Request'' @ kCRLF @ kCRLF), Shutdown])"
proof -
  have pc: "parsing c" using assms(1) by (simp add: ready_def)
  note ref = parseRequest_refines [OF assms(2) pc, of t]
  have ctor: "ready HttpContext_ctor"
    by (simp add: ready_def parsing_def HttpContext_ctor_def HttpRequest_ctor_def)
  from assms(1) show ?thesis
  proof (cases rule: seq_parse_ready [where t = t and s = "Buffer_content b"])
    case (ok c1 s1)
    then show ?thesis using ref onRequest_answer [OF assms(3), of "ctx_request c1"] ctor
      by (auto simp: HttpServer_onMessage_def HttpContext_gotAll_def reset_context
          ready_def parsing_def)
  next
    case (bad c1)
    then show ?thesis using ref
      by (auto simp: HttpServer_onMessage_def HttpContext_gotAll_def)
  qed
qed

theorem HttpServer_onMessage_safe_witness:
  "\<exists>acts c' b'. HttpServer_onMessage defaultHttpCallback HttpContext_ctor (buffer_holding http2_line) 7 =
      Some (Returned (acts, c', b')) \<and> Buffer_wf b' \<and>
    (ready c' \<or> acts = [Send (''HTTP/1.1 400 Bad Request'' @ kCRLF @ kCRLF), Shutdown])"
proof (rule HttpServer_onMessage_safe)
  show "ready HttpContext_ctor"
    by (simp add: ready_def parsing_def HttpContext_ctor_def HttpRequest_ctor_def)
  show "Buffer_wf (buffer_holding http2_line)"
    by (simp add: buffer_holding_wf http2_line_def kCRLF_def)
  have "length (nat_to_dec 404) \<le> 6" using length_nat_to_base [of 10 6 404] by simp
  then show "answer_fits defaultHttpCallback req" for req
    by (simp add: answer_fits_def answer_def defaultHttpCallback_def response_ok_def is_status_def
        HttpResponse_setCloseConnection_def HttpResponse_setStatusMessage_def int_to_dec_def
        HttpResponse_setStatusCode_def HttpResponse_ctor_def response_text_def kCRLF_def max_size_def)
qed

end
