(* ===== verification/Date.thy ===== *)
theory Date
  imports Printf
begin

text \<open>
  Dates of the Gregorian calendar as Julian day numbers: \<open>base/Date.h\<close> and
  \<open>base/Date.cc\<close>. C++ \<open>int\<close> values are integers and \<open>/\<close> and \<open>%\<close> truncate towards
  zero. The lemmas relate the two conversion formulas to the calendar: they are inverse
  to each other on all valid dates from year -4800 on, and the day number counts calendar
  days.
\<close>

subsection \<open>The conversions\<close>

record YearMonthDay =
  ymd_year :: int
  ymd_month :: int
  ymd_day :: int

definition getJulianDayNumber :: "int \<Rightarrow> int \<Rightarrow> int \<Rightarrow> int" where
  "getJulianDayNumber year month day =
     (let a = (14 - month) sdiv 12;
          y = year + 4800 - a;
          m = month + 12 * a - 3
      in day + (153 * m + 2) sdiv 5 + y * 365 + y sdiv 4 - y sdiv 100 + y sdiv 400 - 32045)"

definition getYearMonthDay :: "int \<Rightarrow> YearMonthDay" where
  "getYearMonthDay julianDayNumber =
     (let a = julianDayNumber + 32044;
          b = (4 * a + 3) sdiv 146097;
          c = a - (b * 146097) sdiv 4;
          d = (4 * c + 3) sdiv 1461;
          e = c - (1461 * d) sdiv 4;
          m = (5 * e + 2) sdiv 153
      in \<lparr>ymd_year = b * 100 + d - 4800 + m sdiv 10,
          ymd_month = m + 3 - 12 * (m sdiv 10),
          ymd_day = e - (153 * m + 2) sdiv 5 + 1\<rparr>)"

definition kDaysPerWeek :: int where "kDaysPerWeek = 7"

definition kJulianDayOf1970_01_01 :: int where
  "kJulianDayOf1970_01_01 = getJulianDayNumber 1970 1 1"

text \<open>The class wraps a day number; 0 is the invalid date.\<close>

record date =
  julianDayNumber :: int

definition Date_invalid :: date where
  "Date_invalid = \<lparr>julianDayNumber = 0\<rparr>"

definition Date_ymd :: "int \<Rightarrow> int \<Rightarrow> int \<Rightarrow> date" where
  "Date_ymd y m d = \<lparr>julianDayNumber = getJulianDayNumber y m d\<rparr>"

definition Date_julian :: "int \<Rightarrow> date" where
  "Date_julian julianDayNum = \<lparr>julianDayNumber = julianDayNum\<rparr>"

text \<open>The fields of \<open>struct tm\<close> that the constructor from a broken-down time reads.\<close>

definition Date_tm :: "int \<Rightarrow> int \<Rightarrow> int \<Rightarrow> date" where
  "Date_tm tm_year tm_mon tm_mday =
     \<lparr>julianDayNumber = getJulianDayNumber (tm_year + 1900) (tm_mon + 1) tm_mday\<rparr>"

definition Date_valid :: "date \<Rightarrow> bool" where
  "Date_valid d \<longleftrightarrow> julianDayNumber d > 0"

definition Date_yearMonthDay :: "date \<Rightarrow> YearMonthDay" where
  "Date_yearMonthDay d = getYearMonthDay (julianDayNumber d)"

definition Date_year :: "date \<Rightarrow> int" where
  "Date_year d = ymd_year (Date_yearMonthDay d)"

definition Date_month :: "date \<Rightarrow> int" where
  "Date_month d = ymd_month (Date_yearMonthDay d)"

definition Date_day :: "date \<Rightarrow> int" where
  "Date_day d = ymd_day (Date_yearMonthDay d)"

definition Date_weekDay :: "date \<Rightarrow> int" where
  "Date_weekDay d = (julianDayNumber d + 1) smod kDaysPerWeek"

definition Date_toIsoString :: "date \<Rightarrow> string" where
  "Date_toIsoString d =
     (let ymd = Date_yearMonthDay d
      in snprintf 32 (fmt_width 4 (ymd_year ymd) @ ''-'' @ fmt_zero 2 (ymd_month ymd) @ ''-''
           @ fmt_zero 2 (ymd_day ymd)))"

definition Date_swap :: "date \<Rightarrow> date \<Rightarrow> date \<times> date" where
  "Date_swap this that =
     (this\<lparr>julianDayNumber := julianDayNumber that\<rparr>, that\<lparr>julianDayNumber := julianDayNumber this\<rparr>)"

definition Date_less :: "date \<Rightarrow> date \<Rightarrow> bool" where
  "Date_less x y \<longleftrightarrow> julianDayNumber x < julianDayNumber y"

definition Date_eq :: "date \<Rightarrow> date \<Rightarrow> bool" where
  "Date_eq x y \<longleftrightarrow> julianDayNumber x = julianDayNumber y"

subsection \<open>The calendar\<close>

definition leap_year :: "int \<Rightarrow> bool" where
  "leap_year y \<longleftrightarrow> y mod 4 = 0 \<and> (y mod 100 \<noteq> 0 \<or> y mod 400 = 0)"

definition days_in_month :: "int \<Rightarrow> int \<Rightarrow> int" where
  "days_in_month y m =
     (if m = 2 then (if leap_year y then 29 else 28)
      else if m \<in> {4, 6, 9, 11} then 30 else 31)"

text \<open>The valid dates from 1 March of year -4800 on, where the formulas start to count.\<close>

definition march_year :: "int \<Rightarrow> int \<Rightarrow> int" where
  "march_year y m = (if m \<le> 2 then y + 4799 else y + 4800)"

definition march_month :: "int \<Rightarrow> int" where
  "march_month m = (if m \<le> 2 then m + 9 else m - 3)"

definition valid_ymd :: "int \<Rightarrow> int \<Rightarrow> int \<Rightarrow> bool" where
  "valid_ymd y m d \<longleftrightarrow>
     0 \<le> march_year y m \<and> 1 \<le> m \<and> m \<le> 12 \<and> 1 \<le> d \<and> d \<le> days_in_month y m"

fun next_day :: "int \<times> int \<times> int \<Rightarrow> int \<times> int \<times> int" where
  "next_day (y, m, d) =
     (if d < days_in_month y m then (y, m, d + 1)
      else if m < 12 then (y, m + 1, 1) else (y + 1, 1, 1))"

subsection \<open>Years that begin in March\<close>

text \<open>
  Both formulas count from 1 March of year -4800, in years \<open>y\<close> and months \<open>m\<close> that
  begin in March. \<open>cycle_days\<close> is the number of days before year \<open>y\<close> and \<open>month_days\<close>
  the number of days before month \<open>m\<close> of a year.
\<close>

definition month_days :: "int \<Rightarrow> int" where
  "month_days m = (153 * m + 2) div 5"

definition cycle_days :: "int \<Rightarrow> int" where
  "cycle_days y = 365 * y + y div 4 - y div 100 + y div 400"

lemma cycle_days_centuries:
  assumes "0 \<le> d" "d \<le> 99"
  shows "cycle_days (100 * b + d) = (146097 * b) div 4 + (1461 * d) div 4"
proof -
  have century: "(100 * b + d) div 100 = b" using assms by simp
  define p r where "p = b div 4" and "r = d div 4"
  have h4: "(100 * b + d) div 4 = 25 * b + r"
    unfolding r_def using div_mult_self1 [of 4 d "25 * b"] by (simp add: algebra_simps)
  have h400: "(100 * b + d) div 400 = p"
    unfolding p_def using zdiv_zmult2_eq [of 4 "100 * b + d" 100] century by simp
  have hb: "(146097 * b) div 4 = 36524 * b + p"
    unfolding p_def using div_mult_self1 [of 4 b "36524 * b"] by (simp add: algebra_simps)
  have hd: "(1461 * d) div 4 = 365 * d + r"
    unfolding r_def using div_mult_self1 [of 4 d "365 * d"] by (simp add: algebra_simps)
  show ?thesis
    unfolding cycle_days_def h4 century h400 hb hd by simp
qed

text \<open>A value between the days before one unit and the days before the next determines the
  unit: the rounded division by the mean length finds it.\<close>

lemma mean_div:
  fixes b c n k :: int
  assumes "0 < n" "0 < k" "0 \<le> c" and "k * c + (k - 1) - (n * b) mod k < n"
  shows "(k * ((n * b) div k + c) + (k - 1)) div n = b"
proof -
  have "k * ((n * b) div k) = n * b - (n * b) mod k"
    by (simp add: minus_mod_eq_mult_div)
  then have eq: "k * ((n * b) div k + c) + (k - 1) = n * b + (k * c + (k - 1) - (n * b) mod k)"
    by (simp add: algebra_simps)
  have "(n * b) mod k \<le> k - 1" using assms(2) pos_mod_bound [of k "n * b"] by linarith
  then have lo: "0 \<le> k * c + (k - 1) - (n * b) mod k"
    using assms(2,3) mult_nonneg_nonneg [of k c] by linarith
  have "(n * b + (k * c + (k - 1) - (n * b) mod k)) div n =
      b + (k * c + (k - 1) - (n * b) mod k) div n"
    using assms(1) by (simp add: div_mult_self3)
  also have "\<dots> = b" using lo assms(4) by (simp add: div_pos_pos_trivial)
  finally show ?thesis unfolding eq .
qed

text \<open>The inverse on centuries, years of a century and months.\<close>

lemma march_decode:
  fixes b d e :: int
  assumes d: "0 \<le> d" "d \<le> 99" and e: "0 \<le> e" "e \<le> 365"
    and leap: "e = 365 \<Longrightarrow> d mod 4 = 3 \<and> (d = 99 \<longrightarrow> b mod 4 = 3)"
    and a: "a = cycle_days (100 * b + d) + e"
  shows "(4 * a + 3) div 146097 = b"
    and "(4 * (a - (146097 * b) div 4) + 3) div 1461 = d"
    and "a - (146097 * b) div 4 - (1461 * d) div 4 = e"
proof -
  define q where "q = (1461 * d) div 4"
  have ab: "a = (146097 * b) div 4 + (q + e)"
    using a cycle_days_centuries [OF d] by (simp add: q_def)
  have b4: "(146097 * b) mod 4 = b mod 4" using mod_mult_left_eq [of 146097 4 b] by simp
  have d4: "(1461 * d) mod 4 = d mod 4" using mod_mult_left_eq [of 1461 4 d] by simp
  have q0: "0 \<le> q" using d by (simp add: q_def)
  have q99: "q \<le> 36159"
    using d zdiv_mono1 [of "1461 * d" "1461 * 99" 4] by (simp add: q_def)
  have q98: "d \<noteq> 99 \<Longrightarrow> q \<le> 35794"
    using d zdiv_mono1 [of "1461 * d" "1461 * 98" 4] by (simp add: q_def)
  have bm: "0 \<le> b mod 4" and dm: "0 \<le> d mod 4" by simp_all
  have c: "4 * (q + e) + (4 - 1) - (146097 * b) mod 4 < 146097"
  proof (cases "e = 365 \<and> d = 99")
    case True
    then have "b mod 4 = 3" "e = 365" using leap by blast+
    then show ?thesis using q99 unfolding b4 by simp
  next
    case False
    then have "e \<le> 364 \<or> q \<le> 35794" using e(2) q98 by auto
    then have "q + e \<le> 36523" using q99 e(2) by auto
    then show ?thesis using bm unfolding b4 by simp
  qed
  have "(4 * ((146097 * b) div 4 + (q + e)) + (4 - 1)) div 146097 = b"
    using c q0 e(1) by (intro mean_div) simp_all
  then show "(4 * a + 3) div 146097 = b" unfolding ab by simp
  have "4 * e + (4 - 1) - (1461 * d) mod 4 < 1461"
  proof (cases "e = 365")
    case True
    then have "d mod 4 = 3" using leap by blast
    then show ?thesis using True unfolding d4 by simp
  next
    case False
    then have "e \<le> 364" using e(2) by simp
    then show ?thesis using dm unfolding d4 by simp
  qed
  then have "(4 * ((1461 * d) div 4 + e) + (4 - 1)) div 1461 = d"
    using e(1) by (intro mean_div) simp_all
  then show "(4 * (a - (146097 * b) div 4) + 3) div 1461 = d"
    unfolding ab by (simp add: q_def)
  show "a - (146097 * b) div 4 - (1461 * d) div 4 = e"
    unfolding ab by (simp add: q_def)
qed

subsection \<open>The conversions in terms of March years\<close>

lemma getJulianDayNumber_march:
  assumes "1 \<le> m" "m \<le> 12" "0 \<le> march_year y m"
  shows "getJulianDayNumber y m d =
    d - 1 + month_days (march_month m) + cycle_days (march_year y m) - 32044"
proof -
  have a: "(14 - m) sdiv 12 = (if m \<le> 2 then 1 else 0)"
    using assms(1,2) by (auto simp: sdiv_nonneg intro!: div_pos_pos_trivial)
  have y: "y + 4800 - (if m \<le> 2 then 1 else 0) = march_year y m"
    and m: "m + 12 * (if m \<le> 2 then 1 else 0) - 3 = march_month m"
    by (simp_all add: march_year_def march_month_def)
  have m0: "0 \<le> march_month m" using assms(1) by (simp add: march_month_def)
  show ?thesis
    unfolding getJulianDayNumber_def Let_def a y m
    using assms(3) m0 by (simp add: sdiv_nonneg month_days_def cycle_days_def)
qed

lemma month_days_values:
  "month_days 0 = 0" "month_days 1 = 31" "month_days 2 = 61" "month_days 3 = 92"
  "month_days 4 = 122" "month_days 5 = 153" "month_days 6 = 184" "month_days 7 = 214"
  "month_days 8 = 245" "month_days 9 = 275" "month_days 10 = 306" "month_days 11 = 337"
  by (simp_all add: month_days_def)

lemma month_cases:
  fixes m :: int
  assumes "1 \<le> m" "m \<le> 12"
  obtains "m = 1" | "m = 2" | "m = 3" | "m = 4" | "m = 5" | "m = 6"
    | "m = 7" | "m = 8" | "m = 9" | "m = 10" | "m = 11" | "m = 12"
proof -
  have "m \<in> set [1..12]" using assms by simp
  moreover have "[1..12] = [1, 2, 3, 4, 5, 6, 7, 8, 9, 10, 11, 12 :: int]" by code_simp
  ultimately have "m \<in> {1, 2, 3, 4, 5, 6, 7, 8, 9, 10, 11, 12}" by simp
  then show thesis using that by blast
qed

lemma leap_year_cycle: "leap_year (y + 4800) = leap_year y"
proof -
  have "(y + 4800) mod 4 = y mod 4" using mod_mult_self1 [of y 1200 4] by simp
  moreover have "(y + 4800) mod 100 = y mod 100" using mod_mult_self1 [of y 48 100] by simp
  moreover have "(y + 4800) mod 400 = y mod 400" using mod_mult_self1 [of y 12 400] by simp
  ultimately show ?thesis by (simp add: leap_year_def)
qed

text \<open>The day of the March year, and the month it lies in.\<close>

lemma day_of_year:
  assumes "valid_ymd y m d"
  shows "0 \<le> d - 1 + month_days (march_month m)"
    and "d - 1 + month_days (march_month m) \<le> 365"
    and "d - 1 + month_days (march_month m) = 365 \<Longrightarrow> m = 2 \<and> leap_year y"
    and "(5 * (d - 1 + month_days (march_month m)) + 2) div 153 = march_month m"
proof -
  let ?e = "d - 1 + month_days (march_month m)"
  have m: "1 \<le> m" "m \<le> 12" and d: "1 \<le> d" "d \<le> days_in_month y m"
    using assms by (auto simp: valid_ymd_def)
  have e: "0 \<le> ?e \<and> ?e \<le> 365 \<and> (?e = 365 \<longrightarrow> m = 2 \<and> leap_year y) \<and>
      153 * march_month m \<le> 5 * ?e + 2 \<and> 5 * ?e + 2 < 153 * (march_month m + 1)"
    using m by (rule month_cases)
      (use d in \<open>auto simp: march_month_def month_days_values days_in_month_def split: if_splits\<close>)
  then show "0 \<le> ?e" "?e \<le> 365" "?e = 365 \<Longrightarrow> m = 2 \<and> leap_year y" by blast+
  have "(5 * ?e + 2) div 153 = (153 * march_month m + (5 * ?e + 2 - 153 * march_month m)) div 153"
    by simp
  also have "\<dots> = march_month m"
    using e by (subst div_mult_self4) auto
  finally show "(5 * ?e + 2) div 153 = march_month m" .
qed

lemma leap_of_march:
  assumes "m = 2" "leap_year y" "march_year y m = 100 * b + c" "0 \<le> c" "c \<le> 99"
  shows "c mod 4 = 3 \<and> (c = 99 \<longrightarrow> b mod 4 = 3)"
proof -
  have y: "y + 4800 = 100 * b + c + 1" using assms(1,3) by (simp add: march_year_def)
  have leap: "leap_year (100 * b + c + 1)"
    using assms(2) leap_year_cycle [of y] unfolding y by simp
  have "(100 * b + c + 1) mod 4 = (c + 1) mod 4"
    using mod_mult_self1 [of "c + 1" "25 * b" 4] by (simp add: algebra_simps)
  then have "(c + 1) mod 4 = 0" using leap by (simp add: leap_year_def)
  then have "c mod 4 = 3" by presburger
  moreover have "b mod 4 = 3" if "c = 99"
  proof -
    have "100 * b + c + 1 = 100 * (b + 1)" using that by simp
    then have "(100 * (b + 1)) mod 400 = 0"
      using leap by (simp add: leap_year_def del: distrib_left_numeral)
    then have "(b + 1) mod 4 = 0" using mult_mod_right [of 100 "b + 1" 4] by simp
    then show ?thesis by presburger
  qed
  ultimately show ?thesis by blast
qed

subsection \<open>Round trips\<close>

lemma ymd_of_julian:
  assumes "valid_ymd y m d"
  shows "getYearMonthDay (getJulianDayNumber y m d) = \<lparr>ymd_year = y, ymd_month = m, ymd_day = d\<rparr>"
proof -
  define e where "e = d - 1 + month_days (march_month m)"
  define b c where "b = march_year y m div 100" and "c = march_year y m mod 100"
  have m: "1 \<le> m" "m \<le> 12" "0 \<le> march_year y m" using assms by (auto simp: valid_ymd_def)
  have bc: "march_year y m = 100 * b + c" "0 \<le> c" "c \<le> 99" "0 \<le> b"
    using m(3) pos_mod_bound [of 100 "march_year y m"]
    by (simp_all add: b_def c_def pos_imp_zdiv_nonneg_iff)
  note doy = day_of_year [OF assms, folded e_def]
  have leap: "e = 365 \<Longrightarrow> c mod 4 = 3 \<and> (c = 99 \<longrightarrow> b mod 4 = 3)"
    using doy(3) leap_of_march [OF _ _ bc(1-3)] by blast
  define a where "a = cycle_days (100 * b + c) + e"
  have j: "getJulianDayNumber y m d + 32044 = a"
    using getJulianDayNumber_march [OF m] by (simp add: a_def e_def bc(1))
  note dec = march_decode [OF bc(2,3) doy(1,2) leap a_def]
  have nn: "0 \<le> 4 * a + 3"
  proof -
    have "0 \<le> cycle_days (100 * b + c)"
      using bc by (simp add: cycle_days_centuries pos_imp_zdiv_nonneg_iff)
    then show ?thesis using doy(1) by (simp add: a_def)
  qed
  have B: "(4 * a + 3) sdiv 146097 = b" using nn dec(1) by (simp add: sdiv_nonneg)
  have C: "(b * 146097) sdiv 4 = (146097 * b) div 4" using bc(4) by (simp add: sdiv_nonneg mult.commute)
  have c0: "0 \<le> a - (146097 * b) div 4"
    using dec(3) doy(1) bc(2) by (simp add: pos_imp_zdiv_nonneg_iff algebra_simps)
  have D: "(4 * (a - (146097 * b) div 4) + 3) sdiv 1461 = c"
    using c0 dec(2) by (simp add: sdiv_nonneg)
  have E: "a - (146097 * b) div 4 - (1461 * c) sdiv 4 = e"
    using dec(3) bc(2) by (simp add: sdiv_nonneg)
  have M: "(5 * e + 2) sdiv 153 = march_month m" using doy(1,4) by (simp add: sdiv_nonneg)
  have m0: "0 \<le> march_month m" using m(1) by (simp add: march_month_def)
  have ten: "march_month m sdiv 10 = (if m \<le> 2 then 1 else 0)"
    using m0 m by (auto simp: sdiv_nonneg march_month_def intro!: div_pos_pos_trivial)
  have day: "e - (153 * march_month m + 2) sdiv 5 + 1 = d"
    using m0 by (simp add: e_def month_days_def sdiv_nonneg)
  show ?thesis
    unfolding getYearMonthDay_def Let_def j B C D E M ten day
    using bc(1) by (simp add: march_month_def march_year_def split: if_splits)
qed

lemma div_Suc:
  fixes y k :: int
  assumes "0 < k"
  shows "(y + 1) div k = y div k + (if (y + 1) mod k = 0 then 1 else 0)"
proof (cases "(y + 1) mod k = 0")
  case True
  then obtain q where q: "y + 1 = k * q" by (auto simp: mod_eq_0_iff_dvd elim: dvdE)
  then have "y = k * (q - 1) + (k - 1)" by (simp add: algebra_simps)
  then have "y div k = q - 1" using assms by (simp add: div_mult_self4)
  then show ?thesis using q assms True by simp
next
  case False
  have "y + 1 = k * ((y + 1) div k) + (y + 1) mod k" by simp
  then have "y = k * ((y + 1) div k) + ((y + 1) mod k - 1)" by linarith
  moreover have "0 \<le> (y + 1) mod k - 1" "(y + 1) mod k - 1 < k"
    using False assms pos_mod_sign [of k "y + 1"] pos_mod_bound [of k "y + 1"] by linarith+
  ultimately have "y div k = (y + 1) div k"
    by (metis assms div_mult_self4 div_pos_pos_trivial add.right_neutral less_irrefl)
  then show ?thesis using False by simp
qed

lemma cycle_days_Suc: "cycle_days (y + 1) = cycle_days y + (if leap_year (y + 1) then 366 else 365)"
proof -
  have "(y + 1) mod 100 = 0 \<Longrightarrow> (y + 1) mod 4 = 0"
    using mod_mod_cancel [of 4 100 "y + 1"] by simp
  moreover have "(y + 1) mod 400 = 0 \<Longrightarrow> (y + 1) mod 100 = 0"
    using mod_mod_cancel [of 100 400 "y + 1"] by simp
  moreover define p q r where "p = y div 4" and "q = y div 100" and "r = y div 400"
  ultimately show ?thesis
    unfolding cycle_days_def leap_year_def div_Suc [of 4 y, simplified]
      div_Suc [of 100 y, simplified] div_Suc [of 400 y, simplified]
      p_def [symmetric] q_def [symmetric] r_def [symmetric]
    by (cases "(y + 1) mod 4 = 0"; cases "(y + 1) mod 100 = 0"; cases "(y + 1) mod 400 = 0") simp_all
qed

lemma julian_next_day:
  assumes v: "valid_ymd y m d" and n: "next_day (y, m, d) = (y', m', d')"
  shows "valid_ymd y' m' d' \<and> getJulianDayNumber y' m' d' = getJulianDayNumber y m d + 1"
proof -
  have m: "1 \<le> m" "m \<le> 12" "0 \<le> march_year y m" and d: "1 \<le> d" "d \<le> days_in_month y m"
    using v by (auto simp: valid_ymd_def)
  have pos: "1 \<le> days_in_month yy mm" for yy mm by (simp add: days_in_month_def)
  have v': "valid_ymd y' m' d'"
    using v n pos by (auto simp: valid_ymd_def march_year_def split: if_splits)
  then have m': "1 \<le> m'" "m' \<le> 12" "0 \<le> march_year y' m'" by (auto simp: valid_ymd_def)
  have "d' - 1 + month_days (march_month m') + cycle_days (march_year y' m') =
      d + month_days (march_month m) + cycle_days (march_year y m)"
  proof (cases "d < days_in_month y m")
    case True
    then show ?thesis using n by simp
  next
    case False
    then have deq: "d = days_in_month y m" using d by simp
    have cyc: "cycle_days (y + 4800) = cycle_days (y + 4799) + (if leap_year y then 366 else 365)"
      using cycle_days_Suc [of "y + 4799"] leap_year_cycle [of y] by (simp add: add.commute)
    have "cycle_days (4800 + y) = cycle_days (y + 4800)" by (simp add: add.commute)
    note eqs = n [symmetric] deq cyc this
    show ?thesis
      using m(1,2) by (rule month_cases)
        (use eqs in \<open>simp_all add: march_month_def march_year_def month_days_values
          days_in_month_def split: if_splits\<close>)
  qed
  then show ?thesis
    using v' getJulianDayNumber_march [OF m] getJulianDayNumber_march [OF m'] by simp
qed

lemma julian_surj:
  "\<exists>y m d. valid_ymd y m d \<and> getJulianDayNumber y m d = int n - 32044"
proof (induction n)
  case 0
  have "valid_ymd (-4800) 3 1 \<and> getJulianDayNumber (-4800) 3 1 = int 0 - 32044"
    by (simp add: valid_ymd_def march_year_def days_in_month_def getJulianDayNumber_march
        march_month_def month_days_values cycle_days_def)
  then show ?case by blast
next
  case (Suc n)
  then obtain y m d where v: "valid_ymd y m d" "getJulianDayNumber y m d = int n - 32044" by blast
  obtain y' m' d' where "next_day (y, m, d) = (y', m', d')" by (cases "next_day (y, m, d)")
  from julian_next_day [OF v(1) this] v(2) show ?case by (intro exI) auto
qed



text \<open>Every Julian day number from 1 March of year -4800 on converts to a valid date,
  and that date converts back to the number.\<close>

theorem getJulianDayNumber_getYearMonthDay:
  assumes "-32044 \<le> j"
  shows "let r = getYearMonthDay j in valid_ymd (ymd_year r) (ymd_month r) (ymd_day r) \<and>
    getJulianDayNumber (ymd_year r) (ymd_month r) (ymd_day r) = j"
proof -
  have "int (nat (j + 32044)) - 32044 = j" using assms by simp
  then obtain y m d where v: "valid_ymd y m d" "getJulianDayNumber y m d = j"
    using julian_surj [of "nat (j + 32044)"] by metis
  then show ?thesis using ymd_of_julian [OF v(1)] by (simp add: Let_def)
qed



end
