(* ===== verification/TimeZone.thy ===== *)
theory TimeZone
  imports Timestamp Date ByteOrder
begin

text \<open>
  Time zones: \<open>base/TimeZone.h\<close> and \<open>base/TimeZone.cc\<close>. The reader of zone files is a
  state and error monad over the unread bytes of the file and the zone data filled so far,
  because a thrown \<open>logic_error\<close> is caught and the data pushed before it stays.
  \<open>gmtime_r\<close> and \<open>timegm\<close> are arguments; \<open>time_t\<close> values are integers. The lemmas cover
  the conversions between \<open>time_t\<close> and broken-down UTC time, the search for the local time
  in force, and the reading of well-formed and of unreadable files.
\<close>

subsection \<open>Data\<close>

record Transition =
  gmttime :: int
  localtime :: int
  localtimeIdx :: int

definition Comp_call :: "bool \<Rightarrow> Transition \<Rightarrow> Transition \<Rightarrow> bool" where
  "Comp_call compareGmt lhs rhs =
     (if compareGmt then gmttime lhs < gmttime rhs else localtime lhs < localtime rhs)"

definition Comp_equal :: "bool \<Rightarrow> Transition \<Rightarrow> Transition \<Rightarrow> bool" where
  "Comp_equal compareGmt lhs rhs =
     (if compareGmt then gmttime lhs = gmttime rhs else localtime lhs = localtime rhs)"

record Localtime =
  gmtOffset :: int
  isDst :: bool
  arrbIdx :: int

definition fillHMS :: "int \<Rightarrow> tm \<Rightarrow> tm" where
  "fillHMS seconds utc =
     (let minutes = seconds sdiv 60
      in utc\<lparr>tm_sec := seconds smod 60, tm_min := minutes smod 60, tm_hour := minutes sdiv 60\<rparr>)"

definition kSecondsPerDay :: int where "kSecondsPerDay = 24 * 60 * 60"

record tz_data =
  transitions :: "Transition list"
  localtimes :: "Localtime list"
  zone_names :: "string list"
  zone_abbreviation :: string

definition tz_data_empty :: tz_data where
  "tz_data_empty = \<lparr>transitions = [], localtimes = [], zone_names = [], zone_abbreviation = ''''\<rparr>"

subsection \<open>Reading a zone file\<close>

text \<open>\<open>Logic_error\<close> is a thrown \<open>std::logic_error\<close> (\<open>length_error\<close> of \<open>vector::reserve\<close> is
  one); \<open>Undefined\<close> is an access outside a vector or an array of negative size.\<close>

datatype tz_error = Logic_error string | Undefined

record tz_state =
  unread :: string
  data :: tz_data

type_synonym 'a tz = "tz_state \<Rightarrow> (tz_error + 'a) \<times> tz_state"

definition tz_return :: "'a \<Rightarrow> 'a tz" where
  "tz_return x s = (Inr x, s)"

definition tz_throw :: "tz_error \<Rightarrow> 'a tz" where
  "tz_throw e s = (Inl e, s)"

definition tz_bind :: "'a tz \<Rightarrow> ('a \<Rightarrow> 'b tz) \<Rightarrow> 'b tz" where
  "tz_bind m f s = (case m s of (Inl e, s') \<Rightarrow> (Inl e, s') | (Inr x, s') \<Rightarrow> f x s')"

definition tz_modify :: "(tz_data \<Rightarrow> tz_data) \<Rightarrow> unit tz" where
  "tz_modify f s = (Inr (), s\<lparr>data := f (data s)\<rparr>)"

definition tz_get :: "tz_data tz" where
  "tz_get s = (Inr (data s), s)"

fun tz_repeat :: "nat \<Rightarrow> 'a tz \<Rightarrow> 'a list tz" where
  "tz_repeat 0 m = tz_return []"
| "tz_repeat (Suc n) m = tz_bind m (\<lambda>x. tz_bind (tz_repeat n m) (\<lambda>xs. tz_return (x # xs)))"

definition File_readBytes :: "int \<Rightarrow> string tz" where
  "File_readBytes n s =
     (if n < 0 then (Inl Undefined, s)
      else if length (unread s) < nat n
      then (Inl (Logic_error ''no enough data''), s\<lparr>unread := []\<rparr>)
      else (Inr (take (nat n) (unread s)), s\<lparr>unread := drop (nat n) (unread s)\<rparr>))"

definition File_readInt32 :: "int tz" where
  "File_readInt32 s =
     (if length (unread s) < 4
      then (Inl (Logic_error ''bad int32_t data''), s\<lparr>unread := []\<rparr>)
      else (Inr (cast_int32 (int (be_to_nat (take 4 (unread s))))),
            s\<lparr>unread := drop 4 (unread s)\<rparr>))"

definition File_readUInt8 :: "int tz" where
  "File_readUInt8 s =
     (case unread s of
        [] \<Rightarrow> (Inl (Logic_error ''bad uint8_t data''), s)
      | c # cs \<Rightarrow> (Inr (of_char c), s\<lparr>unread := cs\<rparr>))"

text \<open>The bodies of the third and the fourth loop.\<close>

definition read_localtime :: "unit tz" where
  "read_localtime =
     tz_bind File_readInt32 (\<lambda>gmtoff.
     tz_bind File_readUInt8 (\<lambda>isdst.
     tz_bind File_readUInt8 (\<lambda>abbrind.
     tz_modify (\<lambda>d. d\<lparr>localtimes := localtimes d @
       [\<lparr>gmtOffset = gmtoff, isDst = (isdst \<noteq> 0), arrbIdx = abbrind\<rparr>]\<rparr>))))"

definition push_transition :: "int \<Rightarrow> int \<Rightarrow> unit tz" where
  "push_transition t localIdx =
     tz_bind tz_get (\<lambda>d.
     if nat localIdx < length (localtimes d)
     then tz_modify (\<lambda>d. d\<lparr>transitions := transitions d @
       [\<lparr>gmttime = t, localtime = t + gmtOffset (localtimes d ! nat localIdx),
         localtimeIdx = localIdx\<rparr>]\<rparr>)
     else tz_throw Undefined)"

fun push_transitions :: "(int \<times> int) list \<Rightarrow> unit tz" where
  "push_transitions [] = tz_return ()"
| "push_transitions ((t, l) # xs) = tz_bind (push_transition t l) (\<lambda>_. push_transitions xs)"

definition read_tables :: "int \<Rightarrow> int \<Rightarrow> int \<Rightarrow> unit tz" where
  "read_tables timecnt typecnt charcnt =
     (if timecnt < 0 then tz_throw (Logic_error ''vector::reserve'')
      else
     tz_bind (tz_repeat (nat timecnt) File_readInt32) (\<lambda>trans.
     tz_bind (tz_repeat (nat timecnt) File_readUInt8) (\<lambda>locals.
     tz_bind (tz_repeat (nat typecnt) read_localtime) (\<lambda>_.
     tz_bind (push_transitions (zip trans locals)) (\<lambda>_.
     tz_bind (File_readBytes charcnt) (\<lambda>chars.
     tz_modify (\<lambda>d. d\<lparr>zone_abbreviation := chars\<rparr>)))))))"

definition read_TZif :: "unit tz" where
  "read_TZif =
     tz_bind (File_readBytes 4) (\<lambda>head.
     if head \<noteq> ''TZif'' then tz_throw (Logic_error ''bad head'')
     else
     tz_bind (File_readBytes 1) (\<lambda>version.
     tz_bind (File_readBytes 15) (\<lambda>_.
     tz_bind File_readInt32 (\<lambda>isgmtcnt.
     tz_bind File_readInt32 (\<lambda>isstdcnt.
     tz_bind File_readInt32 (\<lambda>leapcnt.
     tz_bind File_readInt32 (\<lambda>timecnt.
     tz_bind File_readInt32 (\<lambda>typecnt.
     tz_bind File_readInt32 (\<lambda>charcnt.
     read_tables timecnt typecnt charcnt)))))))))"

text \<open>The file is the bytes of an opened file, or \<open>None\<close> when \<open>fopen\<close> fails. The result is
  the returned flag, the data, and the line printed to \<open>stderr\<close>.\<close>

definition readTimeZoneFile :: "string option \<Rightarrow> tz_data \<Rightarrow> (bool \<times> tz_data \<times> string option) option" where
  "readTimeZoneFile zonefile d =
     (case zonefile of
        None \<Rightarrow> Some (True, d, None)
      | Some bytes \<Rightarrow>
         (case read_TZif \<lparr>unread = bytes, data = d\<rparr> of
            (Inr _, s) \<Rightarrow> Some (True, data s, None)
          | (Inl (Logic_error e), s) \<Rightarrow> Some (True, data s, Some e)
          | (Inl Undefined, s) \<Rightarrow> None))"

subsection \<open>The class\<close>

text \<open>\<open>std::lower_bound\<close> is defined when the range is partitioned by the comparison.\<close>

definition lower_bound :: "('a \<Rightarrow> bool) \<Rightarrow> 'a list \<Rightarrow> nat option" where
  "lower_bound before xs =
     (let n = length (takeWhile before xs)
      in if list_all (\<lambda>x. \<not> before x) (drop n xs) then Some n else None)"

definition localtime_at :: "tz_data \<Rightarrow> int \<Rightarrow> Localtime option" where
  "localtime_at d i =
     (if 0 \<le> i \<and> nat i < length (localtimes d) then Some (localtimes d ! nat i) else None)"

definition findLocaltime :: "tz_data \<Rightarrow> Transition \<Rightarrow> bool \<Rightarrow> Localtime option" where
  "findLocaltime d sentry cmp =
     (if transitions d = [] \<or> Comp_call cmp sentry (hd (transitions d))
      then localtime_at d 0
      else do {
        transI \<leftarrow> lower_bound (\<lambda>t. Comp_call cmp t sentry) (transitions d);
        if transI \<noteq> length (transitions d)
        then (if \<not> Comp_equal cmp sentry (transitions d ! transI)
              then do {
                cassert (transI \<noteq> 0);
                localtime_at d (localtimeIdx (transitions d ! (transI - 1)))
              }
              else localtime_at d (localtimeIdx (transitions d ! transI)))
        else localtime_at d (localtimeIdx (last (transitions d)))
      })"

type_synonym time_zone = "tz_data option"

definition TimeZone_file :: "string option \<Rightarrow> time_zone option" where
  "TimeZone_file zonefile = do {
     (ok, d, _) \<leftarrow> readTimeZoneFile zonefile tz_data_empty;
     Some (if \<not> ok then None else Some d)
   }"

definition TimeZone_fixed :: "int \<Rightarrow> string \<Rightarrow> time_zone" where
  "TimeZone_fixed eastOfUtc name =
     Some (tz_data_empty\<lparr>localtimes := [\<lparr>gmtOffset = eastOfUtc, isDst = False, arrbIdx = 0\<rparr>],
       zone_abbreviation := name\<rparr>)"

definition TimeZone_valid :: "time_zone \<Rightarrow> bool" where
  "TimeZone_valid tz \<longleftrightarrow> tz \<noteq> None"

text \<open>The C string that starts at an index of a string; \<open>s[s.size()]\<close> is the final zero.\<close>

definition c_string_at :: "string \<Rightarrow> int \<Rightarrow> string option" where
  "c_string_at s i =
     (if 0 \<le> i \<and> nat i \<le> length s
      then Some (takeWhile (\<lambda>c. c \<noteq> CHR 0x00) (drop (nat i) s)) else None)"

definition TimeZone_toLocalTime :: "(int \<Rightarrow> tm) \<Rightarrow> time_zone \<Rightarrow> int \<Rightarrow> tm option" where
  "TimeZone_toLocalTime gmtime tz seconds = do {
     d \<leftarrow> tz;
     let sentry = \<lparr>gmttime = seconds, localtime = 0, localtimeIdx = 0\<rparr>;
     local \<leftarrow> findLocaltime d sentry True;
     let localSeconds = seconds + gmtOffset local;
     zone \<leftarrow> c_string_at (zone_abbreviation d) (arrbIdx local);
     Some ((gmtime localSeconds)\<lparr>tm_isdst := of_bool (isDst local),
       tm_gmtoff := gmtOffset local, tm_zone := zone\<rparr>)
   }"

definition TimeZone_fromLocalTime ::
    "(int \<Rightarrow> tm) \<Rightarrow> (tm \<Rightarrow> int) \<Rightarrow> time_zone \<Rightarrow> tm \<Rightarrow> int option" where
  "TimeZone_fromLocalTime gmtime timegm tz localTm = do {
     d \<leftarrow> tz;
     let seconds = timegm localTm;
     let sentry = \<lparr>gmttime = 0, localtime = seconds, localtimeIdx = 0\<rparr>;
     local \<leftarrow> findLocaltime d sentry False;
     if tm_isdst localTm \<noteq> 0
     then do {
       tryTm \<leftarrow> TimeZone_toLocalTime gmtime tz (seconds - gmtOffset local);
       let seconds' = (if tm_isdst tryTm = 0 \<and> tm_hour tryTm = tm_hour localTm \<and>
                          tm_min tryTm = tm_min localTm then seconds - 3600 else seconds);
       Some (seconds' - gmtOffset local)
     }
     else Some (seconds - gmtOffset local)
   }"

definition TimeZone_toUtcTime :: "int \<Rightarrow> bool \<Rightarrow> tm" where
  "TimeZone_toUtcTime secondsSinceEpoch yday =
     (let utc = tm_zero\<lparr>tm_zone := ''GMT''\<rparr>;
          seconds = cast_int32 (secondsSinceEpoch smod kSecondsPerDay);
          days = cast_int32 (secondsSinceEpoch sdiv kSecondsPerDay);
          (seconds, days) =
            (if seconds < 0 then (seconds + kSecondsPerDay, days - 1) else (seconds, days));
          utc = fillHMS seconds utc;
          date = Date_julian (days + kJulianDayOf1970_01_01);
          ymd = Date_yearMonthDay date;
          utc = utc\<lparr>tm_year := ymd_year ymd - 1900, tm_mon := ymd_month ymd - 1,
                    tm_mday := ymd_day ymd, tm_wday := Date_weekDay date\<rparr>
      in if yday
         then (let startOfYear = Date_ymd (ymd_year ymd) 1 1
               in utc\<lparr>tm_yday := julianDayNumber date - julianDayNumber startOfYear\<rparr>)
         else utc)"

definition TimeZone_fromUtcTime_fields :: "int \<Rightarrow> int \<Rightarrow> int \<Rightarrow> int \<Rightarrow> int \<Rightarrow> int \<Rightarrow> int" where
  "TimeZone_fromUtcTime_fields year month day hour minute seconds =
     (let date = Date_ymd year month day;
          secondsInDay = hour * 3600 + minute * 60 + seconds;
          days = julianDayNumber date - kJulianDayOf1970_01_01
      in days * kSecondsPerDay + secondsInDay)"

definition TimeZone_fromUtcTime :: "tm \<Rightarrow> int" where
  "TimeZone_fromUtcTime utc =
     TimeZone_fromUtcTime_fields (tm_year utc + 1900) (tm_mon utc + 1) (tm_mday utc)
       (tm_hour utc) (tm_min utc) (tm_sec utc)"

subsection \<open>Broken-down UTC time\<close>

lemma floor_of_truncated:
  fixes t k :: int
  assumes "0 < k"
  shows "(if t smod k < 0 then (t smod k + k, t sdiv k - 1) else (t smod k, t sdiv k)) =
    (t mod k, t div k)"
proof -
  have r: "\<bar>t smod k\<bar> < k" using smod_int_range [of k t] assms by auto
  have e: "t = k * (t sdiv k) + t smod k" by (simp add: mult_sdiv_smod_eq)
  show ?thesis
  proof (cases "t smod k < 0")
    case True
    have "t = k * (t sdiv k - 1) + (t smod k + k)" using e by (simp add: algebra_simps)
    then show ?thesis using True r int_div_pos_eq [of t k "t sdiv k - 1" "t smod k + k"]
      int_mod_pos_eq [of t k "t sdiv k - 1" "t smod k + k"] by simp
  next
    case False
    then show ?thesis using e r int_div_pos_eq [of t k "t sdiv k" "t smod k"]
      int_mod_pos_eq [of t k "t sdiv k" "t smod k"] by simp
  qed
qed

lemma sdiv_day_bound:
  assumes "\<bar>t\<bar> < 2 ^ 31 * 86400"
  shows "cast_int32 (t sdiv 86400) = t sdiv 86400"
proof -
  have "\<bar>t\<bar> div 86400 \<le> 2147483647" using assms zdiv_mono1 [of "\<bar>t\<bar>" "2 ^ 31 * 86400 - 1" 86400] by simp
  moreover have "t sdiv 86400 = sgn t * (\<bar>t\<bar> div 86400)" by (simp add: signed_divide_int_def)
  moreover have "0 \<le> \<bar>t\<bar> div 86400" by (simp add: pos_imp_zdiv_nonneg_iff)
  ultimately show ?thesis by (intro cast_int32_id) (auto simp: sgn_if)
qed

lemma toUtcTime_fields:
  assumes "\<bar>t\<bar> < 2 ^ 31 * 86400"
  shows "TimeZone_toUtcTime t yday =
    (let s = t mod 86400; j = t div 86400 + kJulianDayOf1970_01_01; ymd = getYearMonthDay j
     in \<lparr>tm_sec = s mod 60, tm_min = s div 60 mod 60, tm_hour = s div 3600,
         tm_mday = ymd_day ymd, tm_mon = ymd_month ymd - 1, tm_year = ymd_year ymd - 1900,
         tm_wday = (j + 1) smod 7,
         tm_yday = (if yday then j - getJulianDayNumber (ymd_year ymd) 1 1 else 0),
         tm_isdst = 0, tm_gmtoff = 0, tm_zone = ''GMT''\<rparr>)"
proof -
  define s q where "s = t mod 86400" and "q = t div 86400"
  have c: "cast_int32 (t smod 86400) = t smod 86400"
    by (rule cast_int32_id) (use smod_int_range [of 86400 t] in auto)
  have k: "kSecondsPerDay = 86400" by (simp add: kSecondsPerDay_def)
  have f: "(if t smod 86400 < 0 then (t smod 86400 + 86400, t sdiv 86400 - 1)
      else (t smod 86400, t sdiv 86400)) = (s, q)"
    unfolding s_def q_def by (rule floor_of_truncated) simp
  have nn: "0 \<le> s" by (simp add: s_def)
  then have nn': "0 \<le> s div 60" by (simp add: pos_imp_zdiv_nonneg_iff)
  have h: "s div 3600 = s div 60 div 60" by (simp add: zdiv_zmult2_eq [symmetric])
  have hms: "fillHMS s u = u\<lparr>tm_sec := s mod 60, tm_min := s div 60 mod 60, tm_hour := s div 3600\<rparr>" for u
    unfolding fillHMS_def Let_def h using nn nn' by (simp add: sdiv_nonneg smod_nonneg)
  show ?thesis
    unfolding TimeZone_toUtcTime_def k c sdiv_day_bound [OF assms] f
      s_def [symmetric] q_def [symmetric] Let_def prod.case hms
    by (simp add: tm_zero_def Date_julian_def Date_yearMonthDay_def Date_ymd_def
        Date_weekDay_def kDaysPerWeek_def)
qed

lemma day_split:
  fixes s :: int
  shows "s div 3600 * 3600 + s div 60 mod 60 * 60 + s mod 60 = s"
proof -
  have "s div 3600 = s div 60 div 60" by (simp add: zdiv_zmult2_eq [symmetric])
  moreover have "s div 60 div 60 * 60 + s div 60 mod 60 = s div 60" "s div 60 * 60 + s mod 60 = s"
    by (rule div_mult_mod_eq)+
  ultimately show ?thesis by linarith
qed

lemma kJulian_value: "kJulianDayOf1970_01_01 = 2440588"
  by (simp add: kJulianDayOf1970_01_01_def getJulianDayNumber_def)

lemma getYearMonthDay_inverse:
  assumes "-32044 \<le> j"
  shows "valid_ymd (ymd_year (getYearMonthDay j)) (ymd_month (getYearMonthDay j)) (ymd_day (getYearMonthDay j))"
    and "getJulianDayNumber (ymd_year (getYearMonthDay j)) (ymd_month (getYearMonthDay j))
      (ymd_day (getYearMonthDay j)) = j"
proof -
  have "int (nat (j + 32044)) - 32044 = j" using assms by simp
  then obtain y m d where v: "valid_ymd y m d" "getJulianDayNumber y m d = j"
    using julian_surj [of "nat (j + 32044)"] by metis
  show "valid_ymd (ymd_year (getYearMonthDay j)) (ymd_month (getYearMonthDay j)) (ymd_day (getYearMonthDay j))"
    "getJulianDayNumber (ymd_year (getYearMonthDay j)) (ymd_month (getYearMonthDay j))
      (ymd_day (getYearMonthDay j)) = j"
    using ymd_of_julian [OF v(1)] v by simp_all
qed

text \<open>C30: Breaking a time down into UTC fields gives a valid date and a valid time of day,
  and \<open>fromUtcTime\<close> of the fields is the time again, for every time from 1 March of year
  -4800 up to the last one for which \<open>4 * a + 3\<close>, the largest intermediate value of the day
  arithmetic, is an \<open>int\<close>.\<close>

theorem fromUtcTime_toUtcTime:
  assumes "-2472632 * 86400 \<le> t" and "t < 534398279 * 86400"
  shows "let u = TimeZone_toUtcTime t yday in
    TimeZone_fromUtcTime u = t
    \<and> valid_ymd (tm_year u + 1900) (tm_mon u + 1) (tm_mday u)
    \<and> 0 \<le> tm_hour u \<and> tm_hour u < 24 \<and> 0 \<le> tm_min u \<and> tm_min u < 60
    \<and> 0 \<le> tm_sec u \<and> tm_sec u < 60"
proof -
  define d s where "d = t div 86400" and "s = t mod 86400"
  have t: "t = d * 86400 + s" unfolding d_def s_def by simp
  have s: "0 \<le> s" "s \<le> 86399" by (simp_all add: s_def)
  have d: "-2472632 \<le> d" using assms(1) s t by linarith
  define j where "j = d + kJulianDayOf1970_01_01"
  have "-32044 \<le> j" using d by (simp add: j_def kJulian_value)
  note j = getYearMonthDay_inverse [OF this]
  have h: "s div 3600 \<le> 86399 div 3600" "0 \<le> s div 3600"
    using s by (intro zdiv_mono1, simp_all add: pos_imp_zdiv_nonneg_iff)
  have "TimeZone_fromUtcTime_fields (ymd_year (getYearMonthDay j)) (ymd_month (getYearMonthDay j))
      (ymd_day (getYearMonthDay j)) (s div 3600) (s div 60 mod 60) (s mod 60) = t"
    using j(2) day_split [of s] t
    by (simp add: TimeZone_fromUtcTime_fields_def Date_ymd_def kSecondsPerDay_def Let_def j_def)
  moreover have b: "\<bar>t\<bar> < 2 ^ 31 * 86400" using assms by auto
  have h': "0 \<le> s div 60 mod 60" "s div 60 mod 60 < 60" "0 \<le> s mod 60" "s mod 60 < 60" by simp_all
  have "s div 3600 < 24" using h(1) by simp
  note facts = this h(2) h' j(1)
  ultimately show ?thesis
    unfolding toUtcTime_fields [OF b] TimeZone_fromUtcTime_def d_def [symmetric] s_def [symmetric]
      Let_def j_def [symmetric] tm.simps
    by (intro conjI) (use facts in \<open>simp_all only: diff_add_cancel\<close>)
qed

theorem fromUtcTime_toUtcTime_witness:
  "TimeZone_fromUtcTime (TimeZone_toUtcTime (-1) True) = -1 \<and>
   TimeZone_fromUtcTime (TimeZone_toUtcTime 951782400 False) = 951782400"
  using fromUtcTime_toUtcTime [of "-1" True] fromUtcTime_toUtcTime [of 951782400 False]
  by (simp add: Let_def)

subsection \<open>The local time in force\<close>

definition trans_key :: "bool \<Rightarrow> Transition \<Rightarrow> int" where
  "trans_key cmp t = (if cmp then gmttime t else localtime t)"

text \<open>The type of the last transition that is not after the given time, and the first type
  when there is none.\<close>

definition type_in_force :: "bool \<Rightarrow> tz_data \<Rightarrow> int \<Rightarrow> int" where
  "type_in_force cmp d k =
     (let past = filter (\<lambda>t. trans_key cmp t \<le> k) (transitions d)
      in if past = [] then 0 else localtimeIdx (last past))"

lemma Comp_key:
  "Comp_call cmp a b \<longleftrightarrow> trans_key cmp a < trans_key cmp b"
  "Comp_equal cmp a b \<longleftrightarrow> trans_key cmp a = trans_key cmp b"
  by (auto simp: Comp_call_def Comp_equal_def trans_key_def)

lemma findLocaltime_in_force:
  assumes sorted: "sorted_wrt (\<lambda>a b. trans_key cmp a < trans_key cmp b) (transitions d)"
  shows "findLocaltime d sentry cmp = localtime_at d (type_in_force cmp d (trans_key cmp sentry))"
proof -
  define k where "k = trans_key cmp sentry"
  define ts where "ts = transitions d"
  define before rest where "before = takeWhile (\<lambda>t. trans_key cmp t < k) ts"
    and "rest = dropWhile (\<lambda>t. trans_key cmp t < k) ts"
  have ts: "ts = before @ rest" by (simp add: before_def rest_def)
  have bef: "\<forall>t\<in>set before. trans_key cmp t < k"
    by (auto simp: before_def dest: set_takeWhileD)
  have so: "sorted_wrt (\<lambda>a b. trans_key cmp a < trans_key cmp b) (before @ rest)"
    using sorted ts by (simp add: ts_def)
  have rest1: "\<not> trans_key cmp x < k" if "rest = x # r" for x r
    using that hd_dropWhile [of "\<lambda>t. trans_key cmp t < k" ts] by (simp add: rest_def)
  have rest: "\<forall>t\<in>set rest. k \<le> trans_key cmp t"
    using so rest1 by (cases rest) (auto simp: sorted_wrt_append)
  have fb: "filter (\<lambda>t. trans_key cmp t \<le> k) before = before" using bef by (auto simp: filter_id_conv)
  have lb: "lower_bound (\<lambda>t. trans_key cmp t < k) ts = Some (length before)"
  proof -
    have "drop (length before) ts = rest" by (simp add: ts)
    then show ?thesis using rest
      unfolding lower_bound_def Let_def before_def [symmetric] by (auto simp: list_all_iff)
  qed
  have past: "filter (\<lambda>t. trans_key cmp t \<le> k) ts =
      before @ (case rest of [] \<Rightarrow> [] | x # r \<Rightarrow> if trans_key cmp x = k then [x] else [])"
  proof (cases rest)
    case Nil
    then show ?thesis by (simp add: ts fb)
  next
    case (Cons x r)
    have "filter (\<lambda>t. trans_key cmp t \<le> k) r = []"
      using so rest Cons by (auto simp: sorted_wrt_append filter_empty_conv)
    then show ?thesis using rest Cons by (auto simp: ts fb)
  qed
  have first: "findLocaltime d sentry cmp =
      (if ts = [] \<or> k < trans_key cmp (hd ts) then localtime_at d 0
       else if length before \<noteq> length ts
       then (if k \<noteq> trans_key cmp (ts ! length before)
             then cassert (length before \<noteq> 0) \<bind>
               (\<lambda>_. localtime_at d (localtimeIdx (ts ! (length before - 1))))
             else localtime_at d (localtimeIdx (ts ! length before)))
       else localtime_at d (localtimeIdx (last ts)))"
    unfolding findLocaltime_def Comp_key ts_def [symmetric] k_def [symmetric] lb
    by (simp only: Option.bind.simps)
  show ?thesis
  proof (cases rest)
    case Nil
    then show ?thesis using bef first past unfolding type_in_force_def Let_def k_def [symmetric] ts_def [symmetric]
      by (cases ts) (auto simp: ts)
  next
    case (Cons x r)
    show ?thesis
    proof (cases "before = []")
      case True
      then show ?thesis using Cons rest first past
        unfolding type_in_force_def Let_def k_def [symmetric] ts_def [symmetric] by (auto simp: ts)
    next
      case False
      then have "trans_key cmp (hd before) < k" using bef by simp
      then show ?thesis using Cons False first past
        unfolding type_in_force_def Let_def k_def [symmetric] ts_def [symmetric]
        by (auto simp: ts nth_append last_conv_nth)
    qed
  qed
qed

text \<open>C20: When the transitions are in strictly increasing order, the search returns the type
  of the last transition at or before the given time, by UTC or by local time as asked,
  and the first type before the first transition.\<close>

theorem findLocaltime_correct:
  assumes "sorted_wrt (\<lambda>a b. trans_key cmp a < trans_key cmp b) (transitions d)"
  shows "findLocaltime d sentry cmp = localtime_at d (type_in_force cmp d (trans_key cmp sentry))"
  using assms by (rule findLocaltime_in_force)

definition example_zone :: tz_data where
  "example_zone = \<lparr>
     transitions = [\<lparr>gmttime = 100, localtime = 3700, localtimeIdx = 1\<rparr>,
                    \<lparr>gmttime = 9000, localtime = 9000, localtimeIdx = 0\<rparr>],
     localtimes = [\<lparr>gmtOffset = 0, isDst = False, arrbIdx = 0\<rparr>,
                   \<lparr>gmtOffset = 3600, isDst = True, arrbIdx = 4\<rparr>],
     zone_names = [], zone_abbreviation = ''GMT'' @ [CHR 0x00] @ ''BST'' @ [CHR 0x00]\<rparr>"

theorem findLocaltime_correct_witness:
  "sorted_wrt (\<lambda>a b. trans_key True a < trans_key True b) (transitions example_zone) \<and>
   findLocaltime example_zone \<lparr>gmttime = 500, localtime = 0, localtimeIdx = 0\<rparr> True =
     Some \<lparr>gmtOffset = 3600, isDst = True, arrbIdx = 4\<rparr>"
proof -
  have s: "sorted_wrt (\<lambda>a b. trans_key True a < trans_key True b) (transitions example_zone)"
    by (simp add: example_zone_def trans_key_def)
  show ?thesis
    using s findLocaltime_correct [OF s, of "\<lparr>gmttime = 500, localtime = 0, localtimeIdx = 0\<rparr>"]
    by (simp add: type_in_force_def trans_key_def localtime_at_def example_zone_def)
qed

subsection \<open>Well-formed zone files\<close>

definition tzif_int32 :: "int \<Rightarrow> string" where
  "tzif_int32 i = nat_to_be 4 (nat (i mod 2 ^ 32))"

definition tzif_localtime :: "Localtime \<Rightarrow> string" where
  "tzif_localtime l =
     tzif_int32 (gmtOffset l) @ [char_of (of_bool (isDst l) :: nat), char_of (nat (arrbIdx l))]"

record tzif =
  tzif_version :: char
  tzif_reserved :: string
  tzif_isgmtcnt :: int
  tzif_isstdcnt :: int
  tzif_leapcnt :: int
  tzif_transitions :: "(int \<times> nat) list"
  tzif_types :: "Localtime list"
  tzif_chars :: string
  tzif_tail :: string

definition tzif_encode :: "tzif \<Rightarrow> string" where
  "tzif_encode z = ''TZif'' @ [tzif_version z] @ tzif_reserved z
     @ tzif_int32 (tzif_isgmtcnt z) @ tzif_int32 (tzif_isstdcnt z) @ tzif_int32 (tzif_leapcnt z)
     @ tzif_int32 (int (length (tzif_transitions z))) @ tzif_int32 (int (length (tzif_types z)))
     @ tzif_int32 (int (length (tzif_chars z)))
     @ concat (map (\<lambda>(t, l). tzif_int32 t) (tzif_transitions z))
     @ map (\<lambda>(t, l). char_of l) (tzif_transitions z)
     @ concat (map tzif_localtime (tzif_types z)) @ tzif_chars z @ tzif_tail z"

definition is_int32 :: "int \<Rightarrow> bool" where
  "is_int32 i \<longleftrightarrow> - (2 ^ 31) \<le> i \<and> i < 2 ^ 31"

definition tzif_ok :: "tzif \<Rightarrow> bool" where
  "tzif_ok z \<longleftrightarrow> length (tzif_reserved z) = 15
     \<and> length (tzif_transitions z) < 2 ^ 31 \<and> length (tzif_types z) \<le> 256
     \<and> length (tzif_chars z) < 2 ^ 31
     \<and> list_all (\<lambda>(t, l). is_int32 t \<and> l < length (tzif_types z)) (tzif_transitions z)
     \<and> list_all (\<lambda>l. is_int32 (gmtOffset l) \<and> 0 \<le> arrbIdx l \<and> arrbIdx l < 256) (tzif_types z)"

definition tzif_data :: "tzif \<Rightarrow> tz_data" where
  "tzif_data z = \<lparr>
     transitions = map (\<lambda>(t, l). \<lparr>gmttime = t, localtime = t + gmtOffset (tzif_types z ! l),
       localtimeIdx = int l\<rparr>) (tzif_transitions z),
     localtimes = tzif_types z, zone_names = [], zone_abbreviation = tzif_chars z\<rparr>"

lemma length_tzif_int32 [simp]: "length (tzif_int32 i) = 4"
  by (simp add: tzif_int32_def)

lemma cast_int32_mod: "is_int32 i \<Longrightarrow> cast_int32 (i mod 2 ^ 32) = i"
proof -
  assume i: "is_int32 i"
  have "(i mod 2 ^ 32 + 2 ^ 31) mod 2 ^ 32 = (i + 2 ^ 31) mod 2 ^ 32" by (rule mod_add_left_eq)
  then show ?thesis using cast_int32_id [of i] i unfolding cast_int32_def is_int32_def by simp
qed

lemma readInt32_encoded:
  assumes "is_int32 i"
  shows "File_readInt32 \<lparr>unread = tzif_int32 i @ r, data = d\<rparr> = (Inr i, \<lparr>unread = r, data = d\<rparr>)"
proof -
  have "nat (i mod 2 ^ 32) < 256 ^ 4" by (simp add: nat_less_iff)
  then have "int (be_to_nat (tzif_int32 i)) = i mod 2 ^ 32"
    unfolding tzif_int32_def be_to_nat_of_nat_to_be by simp
  then show ?thesis using cast_int32_mod [OF assms] by (simp add: File_readInt32_def)
qed

lemma readUInt8_encoded:
  assumes "n < 256"
  shows "File_readUInt8 \<lparr>unread = char_of n # r, data = d\<rparr> = (Inr (int n), \<lparr>unread = r, data = d\<rparr>)"
proof -
  have "(of_char (char_of n :: char) :: nat) = n" using assms by simp
  then have "(of_char (char_of n :: char) :: int) = int n" by (metis of_nat_of_char)
  then show ?thesis by (simp add: File_readUInt8_def)
qed

lemma readBytes_encoded:
  "int (length s) = n \<Longrightarrow>
   File_readBytes n \<lparr>unread = s @ r, data = d\<rparr> = (Inr s, \<lparr>unread = r, data = d\<rparr>)"
  by (auto simp: File_readBytes_def)

lemma tz_repeat_encoded:
  assumes "\<And>x r d. x \<in> set xs \<Longrightarrow> m \<lparr>unread = enc x @ r, data = d\<rparr> = (Inr (val x), \<lparr>unread = r, data = upd x d\<rparr>)"
  shows "tz_repeat (length xs) m \<lparr>unread = concat (map enc xs) @ r, data = d\<rparr> =
    (Inr (map val xs), \<lparr>unread = r, data = fold upd xs d\<rparr>)"
  using assms
proof (induction xs arbitrary: d)
  case Nil
  then show ?case by (simp add: tz_return_def)
next
  case (Cons x xs)
  have 1: "m \<lparr>unread = enc x @ (concat (map enc xs) @ r), data = d\<rparr> =
      (Inr (val x), \<lparr>unread = concat (map enc xs) @ r, data = upd x d\<rparr>)"
    by (rule Cons.prems) simp
  have 2: "tz_repeat (length xs) m \<lparr>unread = concat (map enc xs) @ r, data = upd x d\<rparr> =
      (Inr (map val xs), \<lparr>unread = r, data = fold upd xs (upd x d)\<rparr>)"
    by (rule Cons.IH) (simp add: Cons.prems)
  show ?case
    using 1 2 by (simp add: tz_bind_def tz_return_def)
qed

lemma read_localtime_encoded:
  assumes "is_int32 (gmtOffset l)" and "0 \<le> arrbIdx l" and "arrbIdx l < 256"
  shows "read_localtime \<lparr>unread = tzif_localtime l @ r, data = d\<rparr> =
    (Inr (), \<lparr>unread = r, data = d\<lparr>localtimes := localtimes d @ [l]\<rparr>\<rparr>)"
proof -
  have 1: "File_readUInt8 \<lparr>unread = char_of (of_bool (isDst l) :: nat) # s, data = d\<rparr> =
      (Inr (int (of_bool (isDst l))), \<lparr>unread = s, data = d\<rparr>)" for s
    by (rule readUInt8_encoded) simp
  have 2: "File_readUInt8 \<lparr>unread = char_of (nat (arrbIdx l)) # s, data = d\<rparr> =
      (Inr (int (nat (arrbIdx l))), \<lparr>unread = s, data = d\<rparr>)" for s
    by (rule readUInt8_encoded) (use assms in simp)
  show ?thesis using assms(2)
    by (simp add: read_localtime_def tzif_localtime_def tz_bind_def readInt32_encoded [OF assms(1)]
        1 2 tz_modify_def)
qed

lemma push_transitions_valid:
  assumes "list_all (\<lambda>(t, l). l < length (localtimes d)) xs"
  shows "push_transitions (map (\<lambda>(t, l). (t, int l)) xs) \<lparr>unread = r, data = d\<rparr> =
    (Inr (), \<lparr>unread = r, data = d\<lparr>transitions := transitions d @
       map (\<lambda>(t, l). \<lparr>gmttime = t, localtime = t + gmtOffset (localtimes d ! l),
         localtimeIdx = int l\<rparr>) xs\<rparr>\<rparr>)"
  using assms
proof (induction xs arbitrary: d)
  case Nil
  then show ?case by (simp add: tz_return_def)
next
  case (Cons x xs)
  obtain t l where x: "x = (t, l)" by (cases x)
  then show ?case using Cons
    by (simp add: tz_bind_def push_transition_def tz_get_def tz_modify_def)
qed

lemma fold_keep: "fold (\<lambda>_ d. d) xs d = d"
  by (induction xs) simp_all

lemma fold_push_localtimes:
  "fold (\<lambda>l d. d\<lparr>localtimes := localtimes d @ [l]\<rparr>) ls d = d\<lparr>localtimes := localtimes d @ ls\<rparr>"
  by (induction ls arbitrary: d) simp_all

lemma read_tables_encoded:
  assumes "tzif_ok z"
  shows "read_tables (int (length (tzif_transitions z))) (int (length (tzif_types z)))
      (int (length (tzif_chars z)))
      \<lparr>unread = concat (map (\<lambda>(t, l). tzif_int32 t) (tzif_transitions z))
         @ map (\<lambda>(t, l). char_of l) (tzif_transitions z)
         @ concat (map tzif_localtime (tzif_types z)) @ tzif_chars z @ tzif_tail z,
       data = tz_data_empty\<rparr> = (Inr (), \<lparr>unread = tzif_tail z, data = tzif_data z\<rparr>)"
proof -
  let ?ts = "tzif_transitions z" and ?ls = "tzif_types z"
  have ts: "is_int32 t" "l < length ?ls" "l < 256" if "(t, l) \<in> set ?ts" for t l
    using assms that by (auto simp: tzif_ok_def list_all_iff)
  have 1: "tz_repeat (length ?ts) File_readInt32
      \<lparr>unread = concat (map (\<lambda>(t, l). tzif_int32 t) ?ts) @ r, data = d\<rparr> =
      (Inr (map fst ?ts), \<lparr>unread = r, data = d\<rparr>)" for r d
    using tz_repeat_encoded [of ?ts File_readInt32 "\<lambda>(t, l). tzif_int32 t" fst "\<lambda>_ d. d"]
    by (auto simp: readInt32_encoded ts fold_keep split: prod.splits)
  have "concat (map (\<lambda>(t, l). [char_of l]) xs) = map (\<lambda>(t, l). char_of l :: char) xs"
    for xs :: "(int \<times> nat) list"
    by (induction xs) auto
  then have 2: "tz_repeat (length ?ts) File_readUInt8
      \<lparr>unread = map (\<lambda>(t, l). char_of l) ?ts @ r, data = d\<rparr> =
      (Inr (map (int \<circ> snd) ?ts), \<lparr>unread = r, data = d\<rparr>)" for r d
    using tz_repeat_encoded [of ?ts File_readUInt8 "\<lambda>(t, l). [char_of l]" "int \<circ> snd" "\<lambda>_ d. d"]
    by (auto simp: readUInt8_encoded ts fold_keep split: prod.splits)
  have 3: "tz_repeat (length ?ls) read_localtime
      \<lparr>unread = concat (map tzif_localtime ?ls) @ r, data = d\<rparr> =
      (Inr (map (\<lambda>_. ()) ?ls), \<lparr>unread = r, data = d\<lparr>localtimes := localtimes d @ ?ls\<rparr>\<rparr>)" for r d
    using tz_repeat_encoded [of ?ls read_localtime tzif_localtime "\<lambda>_. ()"
        "\<lambda>l d. d\<lparr>localtimes := localtimes d @ [l]\<rparr>"] assms
    by (simp add: read_localtime_encoded tzif_ok_def list_all_iff fold_push_localtimes)
  have 4: "zip (map fst xs) (map (int \<circ> snd) xs) = map (\<lambda>(t, l). (t, int l)) xs"
    for xs :: "(int \<times> nat) list"
    by (induction xs) auto
  have 5: "list_all (\<lambda>(t, l). l < length ?ls) ?ts" using ts(2) by (auto simp: list_all_iff)
  show ?thesis
    using push_transitions_valid [of "tz_data_empty\<lparr>localtimes := ?ls\<rparr>" ?ts] 5
    by (simp add: read_tables_def tz_bind_def 1 2 3 4 readBytes_encoded tz_modify_def
        tz_data_empty_def tzif_data_def)
qed

text \<open>C19: Reading a well-formed zone file yields exactly the transitions, the local time types
  and the abbreviations the file encodes, with nothing reported.\<close>

theorem readTimeZoneFile_well_formed:
  assumes "tzif_ok z" and "is_int32 (tzif_isgmtcnt z)" and "is_int32 (tzif_isstdcnt z)"
    and "is_int32 (tzif_leapcnt z)"
  shows "readTimeZoneFile (Some (tzif_encode z)) tz_data_empty = Some (True, tzif_data z, None)"
proof -
  have n: "is_int32 (int (length (tzif_transitions z)))" "is_int32 (int (length (tzif_types z)))"
    "is_int32 (int (length (tzif_chars z)))" "length (tzif_reserved z) = 15"
    using assms(1) by (auto simp: tzif_ok_def is_int32_def)
  have h: "File_readBytes 4 \<lparr>unread = CHR ''T'' # CHR ''Z'' # CHR ''i'' # CHR ''f'' # r, data = d\<rparr> =
      (Inr ''TZif'', \<lparr>unread = r, data = d\<rparr>)"
    "File_readBytes 1 \<lparr>unread = c # r, data = d\<rparr> = (Inr [c], \<lparr>unread = r, data = d\<rparr>)" for c r d
    using readBytes_encoded [of "''TZif''" 4 r d] readBytes_encoded [of "[c]" 1 r d] by simp_all
  have "read_TZif \<lparr>unread = tzif_encode z, data = tz_data_empty\<rparr> =
      (Inr (), \<lparr>unread = tzif_tail z, data = tzif_data z\<rparr>)"
    by (simp add: read_TZif_def tzif_encode_def tz_bind_def h readBytes_encoded n
        readInt32_encoded assms(2-4) read_tables_encoded [OF assms(1)])
  then show ?thesis by (simp add: readTimeZoneFile_def)
qed

definition example_tzif :: tzif where
  "example_tzif = \<lparr>tzif_version = CHR ''2'', tzif_reserved = replicate 15 (CHR 0x00),
     tzif_isgmtcnt = 0, tzif_isstdcnt = 0, tzif_leapcnt = 0,
     tzif_transitions = [(100, 1), (9000, 0)], tzif_types = localtimes example_zone,
     tzif_chars = zone_abbreviation example_zone, tzif_tail = ''''\<rparr>"

theorem readTimeZoneFile_well_formed_witness:
  "tzif_ok example_tzif \<and>
   readTimeZoneFile (Some (tzif_encode example_tzif)) tz_data_empty =
     Some (True, tzif_data example_tzif, None)"
proof -
  have ok: "tzif_ok example_tzif" "is_int32 (tzif_isgmtcnt example_tzif)"
    "is_int32 (tzif_isstdcnt example_tzif)" "is_int32 (tzif_leapcnt example_tzif)"
    by (simp_all add: tzif_ok_def example_tzif_def example_zone_def is_int32_def)
  show ?thesis using ok readTimeZoneFile_well_formed [OF ok] by simp
qed

text \<open>A zone file that cannot be opened, or whose head is wrong, is not detected: the
  constructed time zone is valid and has no local time type at all, so that converting any
  time reads the first element of an empty vector.\<close>

theorem TimeZone_unreadable_file:
  assumes "case zonefile of None \<Rightarrow> True | Some bytes \<Rightarrow> take 4 bytes \<noteq> ''TZif''"
  shows "\<exists>tz. TimeZone_file zonefile = Some tz \<and> TimeZone_valid tz \<and>
    (\<forall>gmtime seconds. TimeZone_toLocalTime gmtime tz seconds = None)"
proof -
  have "\<exists>e. readTimeZoneFile zonefile tz_data_empty = Some (True, tz_data_empty, e)"
    using assms by (auto simp: readTimeZoneFile_def read_TZif_def tz_bind_def File_readBytes_def
        tz_throw_def split: option.splits)
  then have "TimeZone_file zonefile = Some (Some tz_data_empty)"
    by (auto simp: TimeZone_file_def)
  moreover have "TimeZone_toLocalTime gmtime (Some tz_data_empty) seconds = None" for gmtime seconds
    by (simp add: TimeZone_toLocalTime_def findLocaltime_def localtime_at_def tz_data_empty_def)
  ultimately show ?thesis by (simp add: TimeZone_valid_def)
qed

subsection \<open>Fixed time zones\<close>

text \<open>In a fixed time zone the local time of a time is the UTC time shifted by the
  offset, and converting it back gives the time. \<open>timegm\<close> is the inverse of \<open>gmtime\<close>
  whatever the daylight flag, the offset and the zone name of the broken-down time are.\<close>

theorem TimeZone_fixed_round_trip:
  assumes "\<And>g z. timegm ((gmtime (t + east))\<lparr>tm_isdst := 0, tm_gmtoff := g, tm_zone := z\<rparr>) = t + east"
  shows "\<exists>l. TimeZone_toLocalTime gmtime (TimeZone_fixed east name) t = Some l \<and>
    tm_gmtoff l = east \<and> tm_hour l = tm_hour (gmtime (t + east)) \<and>
    TimeZone_fromLocalTime gmtime timegm (TimeZone_fixed east name) l = Some t"
  using assms
  by (simp add: TimeZone_toLocalTime_def TimeZone_fromLocalTime_def TimeZone_fixed_def
      findLocaltime_def localtime_at_def c_string_at_def tz_data_empty_def)

end
