(* ===== verification/LogStream.thy ===== *)
theory LogStream
  imports Printf Complex_Main
begin

text \<open>
  The stream that formats log messages: \<open>base/LogStream.h\<close> and \<open>base/LogStream.cc\<close>. A fixed
  buffer is its array and the offset of \<open>cur_\<close>; a write outside the array is undefined and
  gives \<open>None\<close>. Integers of all the widths are mathematical integers within the range of their
  type, as the conversion never overflows. The text that \<open>snprintf\<close> produces for a floating
  point number is an argument. The lemmas show that the conversion loops produce the usual
  notation, that no operation writes outside the array, and what the buffer holds.
\<close>

subsection \<open>Fixed buffers\<close>

record fixed_buffer =
  fb_data :: "char list"
  fb_cur :: nat

definition kSmallBuffer :: nat where "kSmallBuffer = 4000"

definition kLargeBuffer :: nat where "kLargeBuffer = 4000 * 1000"

definition FixedBuffer_ctor :: "char list \<Rightarrow> fixed_buffer" where
  "FixedBuffer_ctor uninitialised = \<lparr>fb_data = uninitialised, fb_cur = 0\<rparr>"

definition FixedBuffer_avail :: "fixed_buffer \<Rightarrow> nat" where
  "FixedBuffer_avail b = length (fb_data b) - fb_cur b"

definition FixedBuffer_length :: "fixed_buffer \<Rightarrow> nat" where
  "FixedBuffer_length b = fb_cur b"

definition FixedBuffer_append :: "fixed_buffer \<Rightarrow> char list \<Rightarrow> fixed_buffer option" where
  "FixedBuffer_append b buf =
     (if FixedBuffer_avail b > length buf
      then do {
        d \<leftarrow> overwrite (fb_data b) (fb_cur b) buf;
        Some (b\<lparr>fb_data := d, fb_cur := fb_cur b + length buf\<rparr>)
      }
      else Some b)"

definition FixedBuffer_add :: "fixed_buffer \<Rightarrow> nat \<Rightarrow> fixed_buffer" where
  "FixedBuffer_add b len = b\<lparr>fb_cur := fb_cur b + len\<rparr>"

definition FixedBuffer_reset :: "fixed_buffer \<Rightarrow> fixed_buffer" where
  "FixedBuffer_reset b = b\<lparr>fb_cur := 0\<rparr>"

definition FixedBuffer_bzero :: "fixed_buffer \<Rightarrow> fixed_buffer" where
  "FixedBuffer_bzero b = b\<lparr>fb_data := replicate (length (fb_data b)) (CHR 0x00)\<rparr>"

definition FixedBuffer_toString :: "fixed_buffer \<Rightarrow> string" where
  "FixedBuffer_toString b = take (FixedBuffer_length b) (fb_data b)"

definition FixedBuffer_debugString :: "fixed_buffer \<Rightarrow> fixed_buffer option" where
  "FixedBuffer_debugString b = do {
     d \<leftarrow> overwrite (fb_data b) (fb_cur b) [CHR 0x00];
     Some (b\<lparr>fb_data := d\<rparr>)
   }"

subsection \<open>Conversions\<close>

definition digits :: string where "digits = ''9876543210123456789''"

definition digitsHex :: string where "digitsHex = ''0123456789ABCDEF''"

text \<open>The digits pushed by the two loops, least significant first. \<open>zero\<close> points to the
  middle of \<open>digits\<close>, since the remainder of a negative number is not positive.\<close>

function convert_loop :: "int \<Rightarrow> string" where
  "convert_loop i =
     (let lsd = i smod 10; i' = i sdiv 10; c = digits ! nat (9 + lsd)
      in if i' \<noteq> 0 then c # convert_loop i' else [c])"
  by pat_completeness auto
termination
proof (relation "measure (\<lambda>i. nat \<bar>i\<bar>)")
  fix i x xa xb :: int
  assume "xa = i sdiv 10" "xa \<noteq> 0"
  moreover have "\<bar>i sdiv 10\<bar> = \<bar>i\<bar> div 10"
    by (simp add: signed_divide_int_def abs_mult sgn_if pos_imp_zdiv_nonneg_iff)
  moreover have "\<bar>i\<bar> div 10 < \<bar>i\<bar>" if "i \<noteq> 0" using that by (intro int_div_less_self) simp_all
  ultimately show "(xa, i) \<in> measure (\<lambda>i. nat \<bar>i\<bar>)" by (cases "i = 0") auto
qed simp

function convertHex_loop :: "nat \<Rightarrow> string" where
  "convertHex_loop i =
     (let lsd = i mod 16; i' = i div 16; c = digitsHex ! lsd
      in if i' \<noteq> 0 then c # convertHex_loop i' else [c])"
  by pat_completeness auto
termination by (relation "measure id") auto

declare convert_loop.simps [simp del] convertHex_loop.simps [simp del]

text \<open>\<open>convert\<close> stores the reversed characters and a zero at offset \<open>p\<close> of the array and
  returns their number.\<close>

definition convert :: "char list \<Rightarrow> nat \<Rightarrow> int \<Rightarrow> (char list \<times> nat) option" where
  "convert data p value = do {
     let cs = convert_loop value @ (if value < 0 then ''-'' else '''');
     d \<leftarrow> overwrite data p (rev cs @ [CHR 0x00]);
     Some (d, length cs)
   }"

definition convertHex :: "char list \<Rightarrow> nat \<Rightarrow> nat \<Rightarrow> (char list \<times> nat) option" where
  "convertHex data p value = do {
     let cs = convertHex_loop value;
     d \<leftarrow> overwrite data p (rev cs @ [CHR 0x00]);
     Some (d, length cs)
   }"

subsection \<open>The stream\<close>

definition kMaxNumericSize :: nat where "kMaxNumericSize = 32"

record log_stream =
  ls_buffer :: fixed_buffer

definition LogStream_append :: "log_stream \<Rightarrow> string \<Rightarrow> log_stream option" where
  "LogStream_append s data = do {
     b \<leftarrow> FixedBuffer_append (ls_buffer s) data;
     Some (s\<lparr>ls_buffer := b\<rparr>)
   }"

definition LogStream_resetBuffer :: "log_stream \<Rightarrow> log_stream" where
  "LogStream_resetBuffer s = s\<lparr>ls_buffer := FixedBuffer_reset (ls_buffer s)\<rparr>"

definition LogStream_bool :: "log_stream \<Rightarrow> bool \<Rightarrow> log_stream option" where
  "LogStream_bool s v = LogStream_append s (if v then ''1'' else ''0'')"

definition LogStream_formatInteger :: "log_stream \<Rightarrow> int \<Rightarrow> log_stream option" where
  "LogStream_formatInteger s v =
     (let b = ls_buffer s in
      if FixedBuffer_avail b \<ge> kMaxNumericSize
      then do {
        (d, len) \<leftarrow> convert (fb_data b) (fb_cur b) v;
        Some (s\<lparr>ls_buffer := FixedBuffer_add (b\<lparr>fb_data := d\<rparr>) len\<rparr>)
      }
      else Some s)"

text \<open>The signed and unsigned integer types; \<open>short\<close> and \<open>unsigned short\<close> are widened
  first, which does not change the value.\<close>

definition LogStream_int :: "log_stream \<Rightarrow> int \<Rightarrow> log_stream option" where
  "LogStream_int s v = LogStream_formatInteger s v"

definition LogStream_pointer :: "log_stream \<Rightarrow> nat \<Rightarrow> log_stream option" where
  "LogStream_pointer s v =
     (let b = ls_buffer s in
      if FixedBuffer_avail b \<ge> kMaxNumericSize
      then do {
        d \<leftarrow> overwrite (fb_data b) (fb_cur b) ''0x'';
        (d, len) \<leftarrow> convertHex d (fb_cur b + 2) v;
        Some (s\<lparr>ls_buffer := FixedBuffer_add (b\<lparr>fb_data := d\<rparr>) (len + 2)\<rparr>)
      }
      else Some s)"

text \<open>\<open>text\<close> is what \<open>%.12g\<close> gives for the number; \<open>snprintf\<close> returns its whole length.\<close>

definition LogStream_double :: "log_stream \<Rightarrow> string \<Rightarrow> log_stream option" where
  "LogStream_double s text =
     (let b = ls_buffer s in
      if FixedBuffer_avail b \<ge> kMaxNumericSize
      then do {
        d \<leftarrow> overwrite (fb_data b) (fb_cur b) (snprintf kMaxNumericSize text @ [CHR 0x00]);
        Some (s\<lparr>ls_buffer := FixedBuffer_add (b\<lparr>fb_data := d\<rparr>) (length text)\<rparr>)
      }
      else Some s)"

definition LogStream_char :: "log_stream \<Rightarrow> char \<Rightarrow> log_stream option" where
  "LogStream_char s v = LogStream_append s [v]"

text \<open>A C string is a null pointer or the bytes before its final zero.\<close>

definition LogStream_cstr :: "log_stream \<Rightarrow> string option \<Rightarrow> log_stream option" where
  "LogStream_cstr s str =
     (case str of Some t \<Rightarrow> LogStream_append s t | None \<Rightarrow> LogStream_append s ''(null)'')"

definition LogStream_string :: "log_stream \<Rightarrow> string \<Rightarrow> log_stream option" where
  "LogStream_string s v = LogStream_append s v"

definition LogStream_buffer :: "log_stream \<Rightarrow> fixed_buffer \<Rightarrow> log_stream option" where
  "LogStream_buffer s v = LogStream_append s (FixedBuffer_toString v)"

definition Fmt_ctor :: "string \<Rightarrow> string option" where
  "Fmt_ctor text = do { cassert (length text < 32); Some (snprintf 32 text) }"

definition LogStream_fmt :: "log_stream \<Rightarrow> string \<Rightarrow> log_stream option" where
  "LogStream_fmt s fmt = LogStream_append s fmt"

subsection \<open>The conversion loops produce the usual notation\<close>

lemma digits_nth:
  assumes "d < 10" and "sg = 1 \<or> sg = -1"
  shows "digits ! nat (9 + sg * int d) = digit_char d"
proof -
  have d: "digit_char d = ''0123456789ABCDEF'' ! d" using digit_char_nth [of d] assms(1) by simp
  have "\<forall>d<10. digits ! nat (9 + int d) = ''0123456789ABCDEF'' ! d \<and>
      digits ! nat (9 - int d) = ''0123456789ABCDEF'' ! d"
    by code_simp
  then show ?thesis unfolding d using assms by auto
qed

lemma signed_parts:
  assumes "sg = 1 \<or> sg = (-1 :: int)"
  shows "(sg * int n) smod 10 = sg * int (n mod 10)" "(sg * int n) sdiv 10 = sg * int (n div 10)"
  using assms by (auto simp: sdiv_nonneg smod_nonneg zmod_int zdiv_int)

lemma rev_convert_loop:
  assumes "sg = 1 \<or> sg = -1"
  shows "rev (convert_loop (sg * int n)) = nat_to_dec n"
proof (induction n rule: less_induct)
  case (less n)
  have c: "digits ! nat (9 + (sg * int n) smod 10) = digit_char (n mod 10)"
    unfolding signed_parts [OF assms] using assms by (intro digits_nth) simp_all
  have z: "sg * int (n div 10) = 0 \<longleftrightarrow> n < 10" using assms by (auto simp: div_eq_0_iff)
  show ?case
  proof (cases "n < 10")
    case True
    then show ?thesis using c z
      by (subst convert_loop.simps, subst nat_to_base.simps)
        (simp add: signed_parts [OF assms] Let_def)
  next
    case False
    then have "rev (convert_loop (sg * int (n div 10))) = nat_to_dec (n div 10)"
      by (intro less) simp
    then show ?thesis using c z False
      by (subst convert_loop.simps, subst nat_to_base.simps)
        (simp add: signed_parts [OF assms] Let_def)
  qed
qed

lemma convert_text: "rev (convert_loop v @ (if v < 0 then ''-'' else '''')) = int_to_dec v"
proof (cases "v < 0")
  case True
  then have "v = -1 * int (nat (- v))" by simp
  then have "rev (convert_loop v) = nat_to_dec (nat (- v))"
    using rev_convert_loop [of "-1" "nat (- v)"] by simp
  then show ?thesis using True by (simp add: int_to_dec_def)
next
  case False
  then have "v = 1 * int (nat v)" by simp
  then have "rev (convert_loop v) = nat_to_dec (nat v)"
    using rev_convert_loop [of 1 "nat v"] by simp
  then show ?thesis using False by (simp add: int_to_dec_def)
qed

lemma convertHex_text: "rev (convertHex_loop n) = nat_to_base 16 n"
proof (induction n rule: less_induct)
  case (less n)
  have c: "digitsHex ! (n mod 16) = digit_char (n mod 16)"
    using digit_char_nth [of "n mod 16"] by (simp add: digitsHex_def)
  show ?case
  proof (cases "n < 16")
    case True
    then show ?thesis using c
      by (subst convertHex_loop.simps, subst nat_to_base.simps) (simp add: Let_def)
  next
    case False
    then have "rev (convertHex_loop (n div 16)) = nat_to_base 16 (n div 16)"
      by (intro less) simp
    then show ?thesis using c False
      by (subst convertHex_loop.simps, subst nat_to_base.simps)
        (simp add: Let_def div_eq_0_iff)
  qed
qed

text \<open>C22: The integer conversions, which take digits from the least significant end, also of a
  negative number whose remainders are negative, and reverse them in place, store exactly the
  decimal notation (\<open>convert\<close>) and the hexadecimal notation (\<open>convertHex\<close>) with a final zero,
  and return its length.\<close>

theorem convert_correct:
  "convert data p v = do {
     d \<leftarrow> overwrite data p (int_to_dec v @ [CHR 0x00]); Some (d, length (int_to_dec v)) } \<and>
   convertHex data p n = do {
     d \<leftarrow> overwrite data p (nat_to_base 16 n @ [CHR 0x00]); Some (d, length (nat_to_base 16 n)) }"
proof -
  have "length (convert_loop v @ (if v < 0 then ''-'' else '''')) = length (int_to_dec v)"
    "length (convertHex_loop n) = length (nat_to_base 16 n)"
    by (simp_all only: convert_text [symmetric] convertHex_text [symmetric] length_rev)
  then show ?thesis
    by (simp only: convert_def convertHex_def Let_def convert_text convertHex_text)
qed

subsection \<open>What the stream holds\<close>

datatype log_item =
    ItemBool bool | ItemInt int | ItemPointer nat | ItemDouble string | ItemChar char
  | ItemCstr "string option" | ItemString string | ItemBuffer fixed_buffer | ItemFmt string

fun LogStream_put :: "log_stream \<Rightarrow> log_item \<Rightarrow> log_stream option" where
  "LogStream_put s (ItemBool v) = LogStream_bool s v"
| "LogStream_put s (ItemInt v) = LogStream_int s v"
| "LogStream_put s (ItemPointer v) = LogStream_pointer s v"
| "LogStream_put s (ItemDouble t) = LogStream_double s t"
| "LogStream_put s (ItemChar c) = LogStream_char s c"
| "LogStream_put s (ItemCstr t) = LogStream_cstr s t"
| "LogStream_put s (ItemString t) = LogStream_string s t"
| "LogStream_put s (ItemBuffer b) = LogStream_buffer s b"
| "LogStream_put s (ItemFmt t) = Option.bind (Fmt_ctor t) (LogStream_fmt s)"

fun item_text :: "log_item \<Rightarrow> string" where
  "item_text (ItemBool v) = (if v then ''1'' else ''0'')"
| "item_text (ItemInt v) = int_to_dec v"
| "item_text (ItemPointer v) = ''0x'' @ nat_to_base 16 v"
| "item_text (ItemDouble t) = t"
| "item_text (ItemChar c) = [c]"
| "item_text (ItemCstr t) = (case t of Some t \<Rightarrow> t | None \<Rightarrow> ''(null)'')"
| "item_text (ItemString t) = t"
| "item_text (ItemBuffer b) = FixedBuffer_toString b"
| "item_text (ItemFmt t) = t"

text \<open>The ranges of the types, and the longest text that \<open>%.12g\<close> gives.\<close>

fun item_ok :: "log_item \<Rightarrow> bool" where
  "item_ok (ItemInt v) \<longleftrightarrow> - (2 ^ 63) \<le> v \<and> v < 2 ^ 64"
| "item_ok (ItemPointer v) \<longleftrightarrow> v < 2 ^ 64"
| "item_ok (ItemDouble t) \<longleftrightarrow> length t \<le> 24"
| "item_ok (ItemFmt t) \<longleftrightarrow> length t < 32"
| "item_ok _ \<longleftrightarrow> True"

fun is_numeric :: "log_item \<Rightarrow> bool" where
  "is_numeric (ItemInt v) \<longleftrightarrow> True"
| "is_numeric (ItemPointer v) \<longleftrightarrow> True"
| "is_numeric (ItemDouble t) \<longleftrightarrow> True"
| "is_numeric _ \<longleftrightarrow> False"

definition FixedBuffer_wf :: "fixed_buffer \<Rightarrow> bool" where
  "FixedBuffer_wf b \<longleftrightarrow> fb_cur b < length (fb_data b)"

definition LogStream_content :: "log_stream \<Rightarrow> string" where
  "LogStream_content s = FixedBuffer_toString (ls_buffer s)"

definition LogStream_size :: "log_stream \<Rightarrow> nat" where
  "LogStream_size s = length (fb_data (ls_buffer s))"

definition accepts :: "nat \<Rightarrow> string \<Rightarrow> log_item \<Rightarrow> bool" where
  "accepts cap content item \<longleftrightarrow>
     (if is_numeric item then cap - length content \<ge> kMaxNumericSize
      else cap - length content > length (item_text item))"

fun LogStream_run :: "log_stream \<Rightarrow> log_item list \<Rightarrow> log_stream option" where
  "LogStream_run s [] = Some s"
| "LogStream_run s (i # is) = do { s' \<leftarrow> LogStream_put s i; LogStream_run s' is }"

fun run_text :: "nat \<Rightarrow> string \<Rightarrow> log_item list \<Rightarrow> string" where
  "run_text cap content [] = content"
| "run_text cap content (i # is) =
     run_text cap (if accepts cap content i then content @ item_text i else content) is"

lemma length_int_to_dec:
  assumes "- (2 ^ 63) \<le> v" and "v < 2 ^ 64"
  shows "length (int_to_dec v) \<le> 21"
proof -
  have "length (nat_to_dec (nat \<bar>v\<bar>)) \<le> 20"
    by (rule length_nat_to_base) (use assms in auto)
  then show ?thesis by (auto simp: int_to_dec_def)
qed

lemma length_hex: "v < 2 ^ 64 \<Longrightarrow> length (nat_to_base 16 v) \<le> 16"
  by (rule length_nat_to_base) simp_all

lemma content_length: "FixedBuffer_wf (ls_buffer s) \<Longrightarrow> length (LogStream_content s) = fb_cur (ls_buffer s)"
  by (simp add: LogStream_content_def FixedBuffer_toString_def FixedBuffer_length_def FixedBuffer_wf_def)

text \<open>The result of storing a text and then advancing by its length.\<close>

definition stored :: "log_stream \<Rightarrow> log_stream \<Rightarrow> string \<Rightarrow> bool" where
  "stored s s' t \<longleftrightarrow> FixedBuffer_wf (ls_buffer s') \<and> LogStream_size s' = LogStream_size s \<and>
     LogStream_content s' = LogStream_content s @ t"

lemmas stream_defs = stored_def LogStream_content_def FixedBuffer_toString_def
  FixedBuffer_length_def FixedBuffer_wf_def LogStream_size_def

lemma append_stored:
  assumes "FixedBuffer_wf (ls_buffer s)"
  shows "\<exists>s'. LogStream_append s t = Some s' \<and>
    stored s s' (if length t < LogStream_size s - length (LogStream_content s) then t else '''')"
  using assms content_length [OF assms]
  by (auto simp: LogStream_append_def FixedBuffer_append_def FixedBuffer_avail_def stream_defs
      overwrite_Some)

lemma numeric_stored:
  assumes wf: "FixedBuffer_wf (ls_buffer s)" and room: "FixedBuffer_avail (ls_buffer s) \<ge> 32"
    and t: "length t < 32" and w: "overwrite (fb_data (ls_buffer s)) (fb_cur (ls_buffer s)) (t @ [CHR 0x00]) = Some d"
  shows "stored s (s\<lparr>ls_buffer := FixedBuffer_add ((ls_buffer s)\<lparr>fb_data := d\<rparr>) (length t)\<rparr>) t"
  using assms overwrite_SomeD [OF w]
  by (auto simp: stream_defs FixedBuffer_add_def FixedBuffer_avail_def)

lemma numeric_room:
  assumes "FixedBuffer_avail b \<ge> 32" and "length t < 32"
  shows "\<exists>d. overwrite (fb_data b) (fb_cur b) (t @ [CHR 0x00]) = Some d"
  using assms by (auto simp: overwrite_def FixedBuffer_avail_def)

lemma LogStream_int_stored:
  assumes wf: "FixedBuffer_wf (ls_buffer s)" and v: "- (2 ^ 63) \<le> v" "v < 2 ^ 64"
  shows "\<exists>s'. LogStream_int s v = Some s' \<and>
    stored s s' (if FixedBuffer_avail (ls_buffer s) \<ge> 32 then int_to_dec v else '''')"
proof (cases "FixedBuffer_avail (ls_buffer s) \<ge> 32")
  case True
  have t: "length (int_to_dec v) < 32" using length_int_to_dec [OF v] by simp
  obtain d where d: "overwrite (fb_data (ls_buffer s)) (fb_cur (ls_buffer s)) (int_to_dec v @ [CHR 0x00]) = Some d"
    using numeric_room [OF True t] by blast
  moreover have "length (convert_loop v @ (if v < 0 then ''-'' else '''')) = length (int_to_dec v)"
    by (simp only: convert_text [symmetric] length_rev)
  ultimately have "LogStream_int s v =
      Some (s\<lparr>ls_buffer := FixedBuffer_add ((ls_buffer s)\<lparr>fb_data := d\<rparr>) (length (int_to_dec v))\<rparr>)"
    using True unfolding LogStream_int_def LogStream_formatInteger_def Let_def convert_def convert_text
    by (simp add: kMaxNumericSize_def)
  then show ?thesis using numeric_stored [OF wf True t d] True by simp
next
  case False
  then show ?thesis using wf
    by (simp add: LogStream_int_def LogStream_formatInteger_def kMaxNumericSize_def stored_def)
qed

lemma overwrite_twice:
  assumes "overwrite xs p (a @ b) = Some ys"
  shows "\<exists>zs. overwrite xs p a = Some zs \<and> overwrite zs (p + length a) b = Some ys"
  using overwrite_SomeD [OF assms] by (auto simp: overwrite_def ac_simps)

lemma LogStream_pointer_stored:
  assumes wf: "FixedBuffer_wf (ls_buffer s)" and v: "v < 2 ^ 64"
  shows "\<exists>s'. LogStream_pointer s v = Some s' \<and>
    stored s s' (if FixedBuffer_avail (ls_buffer s) \<ge> 32 then ''0x'' @ nat_to_base 16 v else '''')"
proof (cases "FixedBuffer_avail (ls_buffer s) \<ge> 32")
  case True
  let ?t = "''0x'' @ nat_to_base 16 v"
  have t: "length ?t < 32" using length_hex [OF v] by simp
  obtain d where d: "overwrite (fb_data (ls_buffer s)) (fb_cur (ls_buffer s)) (?t @ [CHR 0x00]) = Some d"
    using numeric_room [OF True t] by blast
  then obtain z where z: "overwrite (fb_data (ls_buffer s)) (fb_cur (ls_buffer s)) ''0x'' = Some z"
    "overwrite z (fb_cur (ls_buffer s) + 2) (nat_to_base 16 v @ [CHR 0x00]) = Some d"
    using overwrite_twice [of _ _ "''0x''" "nat_to_base 16 v @ [CHR 0x00]"] by force
  have l: "length (convertHex_loop v) = length (nat_to_base 16 v)"
    by (simp only: convertHex_text [symmetric] length_rev)
  have "LogStream_pointer s v =
      Some (s\<lparr>ls_buffer := FixedBuffer_add ((ls_buffer s)\<lparr>fb_data := d\<rparr>) (length ?t)\<rparr>)"
    using True z l unfolding LogStream_pointer_def Let_def convertHex_def convertHex_text
    by (simp add: kMaxNumericSize_def)
  then show ?thesis using numeric_stored [OF wf True t d] True by simp
next
  case False
  then show ?thesis using wf by (simp add: LogStream_pointer_def kMaxNumericSize_def stored_def)
qed

lemma LogStream_double_stored:
  assumes wf: "FixedBuffer_wf (ls_buffer s)" and t: "length t \<le> 24"
  shows "\<exists>s'. LogStream_double s t = Some s' \<and>
    stored s s' (if FixedBuffer_avail (ls_buffer s) \<ge> 32 then t else '''')"
proof (cases "FixedBuffer_avail (ls_buffer s) \<ge> 32")
  case True
  have t': "length t < 32" using t by simp
  obtain d where d: "overwrite (fb_data (ls_buffer s)) (fb_cur (ls_buffer s)) (t @ [CHR 0x00]) = Some d"
    using numeric_room [OF True t'] by blast
  then show ?thesis using numeric_stored [OF wf True t' d] True t
    by (simp add: LogStream_double_def kMaxNumericSize_def snprintf_fits)
next
  case False
  then show ?thesis using wf by (simp add: LogStream_double_def kMaxNumericSize_def stored_def)
qed

lemma avail_content:
  "FixedBuffer_wf (ls_buffer s) \<Longrightarrow>
   FixedBuffer_avail (ls_buffer s) = LogStream_size s - length (LogStream_content s)"
  by (simp add: content_length FixedBuffer_avail_def LogStream_size_def)

lemma LogStream_put_stored:
  assumes wf: "FixedBuffer_wf (ls_buffer s)" and ok: "item_ok i"
  shows "\<exists>s'. LogStream_put s i = Some s' \<and>
    stored s s' (if accepts (LogStream_size s) (LogStream_content s) i then item_text i else '''')"
proof (cases i)
  case (ItemInt v)
  then show ?thesis using LogStream_int_stored [OF wf, of v] ok
    by (auto simp: avail_content [OF wf] accepts_def kMaxNumericSize_def split: if_splits)
next
  case (ItemPointer v)
  then show ?thesis using LogStream_pointer_stored [OF wf, of v] ok
    by (auto simp: avail_content [OF wf] accepts_def kMaxNumericSize_def split: if_splits)
next
  case (ItemDouble t)
  then show ?thesis using LogStream_double_stored [OF wf, of t] ok
    by (auto simp: avail_content [OF wf] accepts_def kMaxNumericSize_def split: if_splits)
next
  case (ItemCstr t)
  then show ?thesis using append_stored [OF wf, of "item_text i"]
    by (cases t) (auto simp: LogStream_cstr_def accepts_def split: if_splits)
next
  case (ItemFmt t)
  then show ?thesis using append_stored [OF wf, of t] ok
    by (auto simp: LogStream_fmt_def Fmt_ctor_def snprintf_fits accepts_def split: if_splits)
qed (use append_stored [OF wf, of "item_text i"] in
  \<open>auto simp: LogStream_bool_def LogStream_char_def LogStream_string_def LogStream_buffer_def
    accepts_def split: if_splits\<close>)

lemma LogStream_run_stored:
  assumes "FixedBuffer_wf (ls_buffer s)" and "list_all item_ok is"
  shows "\<exists>s'. LogStream_run s is = Some s' \<and> FixedBuffer_wf (ls_buffer s') \<and>
    LogStream_size s' = LogStream_size s \<and>
    LogStream_content s' = run_text (LogStream_size s) (LogStream_content s) is"
  using assms
proof (induction "is" arbitrary: s)
  case Nil
  then show ?case by simp
next
  case (Cons i "is")
  obtain s1 where s1: "LogStream_put s i = Some s1"
    "stored s s1 (if accepts (LogStream_size s) (LogStream_content s) i then item_text i else '''')"
    using LogStream_put_stored [of s i] Cons.prems by auto
  then have "FixedBuffer_wf (ls_buffer s1)" by (simp add: stored_def)
  from Cons.IH [OF this] Cons.prems s1 show ?case by (auto simp: stored_def split: if_splits)
qed

lemma run_text_fits:
  assumes "list_all item_ok is" and "length content + length (concat (map item_text is)) + 32 \<le> cap"
  shows "run_text cap content is = content @ concat (map item_text is)"
  using assms
  by (induction "is" arbitrary: content) (auto simp: accepts_def kMaxNumericSize_def)

text \<open>C35: Whatever is put into a log stream, no write leaves the fixed buffer and one byte
  always stays free. Each item is stored completely or dropped completely: a number when 32
  bytes are free, another item when more than its length is free. When all of them fit the
  buffer holds the concatenation of their texts.\<close>

theorem LogStream_run_correct:
  assumes "FixedBuffer_wf (ls_buffer s)" and "list_all item_ok is"
  shows "\<exists>s'. LogStream_run s is = Some s' \<and> FixedBuffer_wf (ls_buffer s') \<and>
    LogStream_content s' = run_text (LogStream_size s) (LogStream_content s) is \<and>
    (length (LogStream_content s) + length (concat (map item_text is)) + 32 \<le> LogStream_size s \<longrightarrow>
     LogStream_content s' = LogStream_content s @ concat (map item_text is))"
  using LogStream_run_stored [OF assms] run_text_fits [OF assms(2)] by auto

theorem LogStream_run_correct_witness:
  "\<exists>s'. LogStream_run \<lparr>ls_buffer = FixedBuffer_ctor (replicate kSmallBuffer (CHR 0x00))\<rparr>
      [ItemCstr None, ItemInt (-2147483648), ItemBool True] = Some s' \<and>
    LogStream_content s' = ''(null)'' @ int_to_dec (-2147483648) @ ''1''"
proof -
  let ?s = "\<lparr>ls_buffer = FixedBuffer_ctor (replicate kSmallBuffer (CHR 0x00))\<rparr>"
  let ?is = "[ItemCstr None, ItemInt (-2147483648), ItemBool True]"
  have w: "FixedBuffer_wf (ls_buffer ?s)"
    by (simp add: FixedBuffer_wf_def FixedBuffer_ctor_def kSmallBuffer_def)
  have ok: "list_all item_ok ?is" by simp
  have c: "LogStream_content ?s = ''''" "LogStream_size ?s = 4000"
    by (simp_all add: LogStream_content_def FixedBuffer_toString_def FixedBuffer_length_def
        FixedBuffer_ctor_def LogStream_size_def kSmallBuffer_def)
  have l: "length (int_to_dec (-2147483648)) \<le> 21" by (rule length_int_to_dec) simp_all
  obtain s' where "LogStream_run ?s ?is = Some s'"
    "length (LogStream_content ?s) + length (concat (map item_text ?is)) + 32 \<le> LogStream_size ?s \<longrightarrow>
     LogStream_content s' = LogStream_content ?s @ concat (map item_text ?is)"
    using LogStream_run_correct [OF w ok] by blast
  then show ?thesis using l unfolding c by auto
qed

subsection \<open>Quantities\<close>

text \<open>\<open>fixed d s u\<close> stands for the text that \<open>%.<d>f\<close> gives for the quotient, as a
  \<open>double\<close>, of \<open>s\<close> converted to \<open>double\<close> and the unit \<open>u\<close>. The limits of \<open>formatIEC\<close> are
  compared as real numbers.\<close>

definition formatSI :: "(nat \<Rightarrow> int \<Rightarrow> int \<Rightarrow> string) \<Rightarrow> int \<Rightarrow> string" where
  "formatSI fixed s = snprintf 64
      (if s < 1000 then int_to_dec s
       else if s < 9995 then fixed 2 s (10 ^ 3) @ ''k''
       else if s < 99950 then fixed 1 s (10 ^ 3) @ ''k''
       else if s < 999500 then fixed 0 s (10 ^ 3) @ ''k''
       else if s < 9995000 then fixed 2 s (10 ^ 6) @ ''M''
       else if s < 99950000 then fixed 1 s (10 ^ 6) @ ''M''
       else if s < 999500000 then fixed 0 s (10 ^ 6) @ ''M''
       else if s < 9995000000 then fixed 2 s (10 ^ 9) @ ''G''
       else if s < 99950000000 then fixed 1 s (10 ^ 9) @ ''G''
       else if s < 999500000000 then fixed 0 s (10 ^ 9) @ ''G''
       else if s < 9995000000000 then fixed 2 s (10 ^ 12) @ ''T''
       else if s < 99950000000000 then fixed 1 s (10 ^ 12) @ ''T''
       else if s < 999500000000000 then fixed 0 s (10 ^ 12) @ ''T''
       else if s < 9995000000000000 then fixed 2 s (10 ^ 15) @ ''P''
       else if s < 99950000000000000 then fixed 1 s (10 ^ 15) @ ''P''
       else if s < 999500000000000000 then fixed 0 s (10 ^ 15) @ ''P''
       else fixed 2 s (10 ^ 18) @ ''E'')"

definition formatIEC :: "(nat \<Rightarrow> int \<Rightarrow> int \<Rightarrow> string) \<Rightarrow> int \<Rightarrow> string" where
  "formatIEC fixed s = snprintf 64
      (if real_of_int s < 2 ^ 10 then int_to_dec s
       else if real_of_int s < 2 ^ 10 * 9.995 then fixed 2 s (2 ^ 10) @ ''Ki''
       else if real_of_int s < 2 ^ 10 * 99.95 then fixed 1 s (2 ^ 10) @ ''Ki''
       else if real_of_int s < 2 ^ 10 * 1023.5 then fixed 0 s (2 ^ 10) @ ''Ki''
       else if real_of_int s < 2 ^ 20 * 9.995 then fixed 2 s (2 ^ 20) @ ''Mi''
       else if real_of_int s < 2 ^ 20 * 99.95 then fixed 1 s (2 ^ 20) @ ''Mi''
       else if real_of_int s < 2 ^ 20 * 1023.5 then fixed 0 s (2 ^ 20) @ ''Mi''
       else if real_of_int s < 2 ^ 30 * 9.995 then fixed 2 s (2 ^ 30) @ ''Gi''
       else if real_of_int s < 2 ^ 30 * 99.95 then fixed 1 s (2 ^ 30) @ ''Gi''
       else if real_of_int s < 2 ^ 30 * 1023.5 then fixed 0 s (2 ^ 30) @ ''Gi''
       else if real_of_int s < 2 ^ 40 * 9.995 then fixed 2 s (2 ^ 40) @ ''Ti''
       else if real_of_int s < 2 ^ 40 * 99.95 then fixed 1 s (2 ^ 40) @ ''Ti''
       else if real_of_int s < 2 ^ 40 * 1023.5 then fixed 0 s (2 ^ 40) @ ''Ti''
       else if real_of_int s < 2 ^ 50 * 9.995 then fixed 2 s (2 ^ 50) @ ''Pi''
       else if real_of_int s < 2 ^ 50 * 99.95 then fixed 1 s (2 ^ 50) @ ''Pi''
       else if real_of_int s < 2 ^ 50 * 1023.5 then fixed 0 s (2 ^ 50) @ ''Pi''
       else if real_of_int s < 2 ^ 60 * 9.995 then fixed 2 s (2 ^ 60) @ ''Ei''
       else fixed 1 s (2 ^ 60) @ ''Ei'')"

definition fixed_text :: "nat \<Rightarrow> nat \<Rightarrow> string" where
  "fixed_text d k =
     (if d = 0 then nat_to_dec k
      else nat_to_dec (k div 10 ^ d) @ ''.'' @ fmt_zero d (int (k mod 10 ^ d)))"

text \<open>What is relied on for values that a \<open>double\<close> represents exactly: the division is
  accurate to one part in \<open>2 ^ 53\<close>, and the result is rounded to a nearest multiple of the
  last digit.\<close>

definition fixed_ok :: "(nat \<Rightarrow> int \<Rightarrow> int \<Rightarrow> string) \<Rightarrow> bool" where
  "fixed_ok fixed \<longleftrightarrow> (\<forall>d s u. 0 \<le> s \<and> s \<le> 2 ^ 53 \<and> 0 < u \<longrightarrow>
     (\<exists>k. fixed d s u = fixed_text d k \<and>
        \<bar>real k - 10 ^ d * real_of_int s / real_of_int u\<bar> \<le>
          1 / 2 + 10 ^ d * real_of_int s / real_of_int u / 2 ^ 53))"

lemma length_fixed_text:
  "k < 1000 \<Longrightarrow> d \<le> 2 \<Longrightarrow> length (fixed_text d k) \<le> 4" "k < 10000 \<Longrightarrow> length (fixed_text 0 k) \<le> 4"
proof -
  assume k: "k < 1000" and d: "d \<le> 2"
  consider "d = 0" | "d = 1" | "d = 2" using d by linarith
  then show "length (fixed_text d k) \<le> 4"
  proof cases
    case 1
    then show ?thesis using length_nat_to_base [of 10 4 k] k by (simp add: fixed_text_def)
  next
    case 2
    have "length (nat_to_dec (k div 10)) \<le> 2" by (rule length_nat_to_base) (use k in auto)
    moreover have "length (fmt_zero 1 (int (k mod 10))) = 1" using fmt_zero_spec [of "int (k mod 10)" 1] by simp
    ultimately show ?thesis using 2 by (simp add: fixed_text_def)
  next
    case 3
    have "length (nat_to_dec (k div 100)) \<le> 1" by (rule length_nat_to_base) (use k in auto)
    moreover have "length (fmt_zero 2 (int (k mod 100))) = 2" using fmt_zero_spec [of "int (k mod 100)" 2] by simp
    ultimately show ?thesis using 3 by (simp add: fixed_text_def)
  qed
next
  assume "k < 10000"
  then show "length (fixed_text 0 k) \<le> 4"
    using length_nat_to_base [of 10 4 k] by (simp add: fixed_text_def)
qed

lemma fixed_bound:
  assumes "fixed_ok fixed" and "0 \<le> s" and "s \<le> 2 ^ 53" and "0 < u" and "B \<le> 1023"
    and x: "10 ^ d * real_of_int s / real_of_int u \<le> real B + 1 / 2 - 1 / 2 ^ 41"
  obtains k where "fixed d s u = fixed_text d k" and "k \<le> B"
proof -
  define x where "x = 10 ^ d * real_of_int s / real_of_int u"
  obtain k where k: "fixed d s u = fixed_text d k" "\<bar>real k - x\<bar> \<le> 1 / 2 + x / 2 ^ 53"
    using assms(1-4) unfolding fixed_ok_def x_def by blast
  define e where "e = x / 2 ^ 53"
  define dl :: real where "dl = 1 / 2 ^ 41"
  have dl: "0 < dl" by (simp add: dl_def)
  have B: "real B \<le> 1023" using assms(5) by simp
  have xB: "x \<le> real B + 1 / 2 - dl" using x by (simp only: x_def dl_def)
  then have "x \<le> 1024" using B dl by linarith
  then have "e \<le> 1024 / 2 ^ 53" unfolding e_def by (rule divide_right_mono) simp
  also have "(1024 :: real) / 2 ^ 53 < dl" by (simp add: dl_def)
  finally have "e < dl" .
  then have "real k < real B + 1" using k(2) xB unfolding e_def [symmetric] by linarith
  then have "k \<le> B" by linarith
  with k(1) that show ?thesis by blast
qed

lemma fixed_bound_int:
  assumes "fixed_ok fixed" and "0 \<le> s" and "s \<le> 2 ^ 53" and "0 < u" and "B \<le> 1023"
    and c: "2 * 10 ^ d * s + 1 \<le> (2 * int B + 1) * u \<and> u \<le> 2 ^ 40 \<or> 10 ^ d * s \<le> int B * u"
  obtains k where "fixed d s u = fixed_text d k" and "k \<le> B"
proof (rule fixed_bound [OF assms(1-5), of d])
  have u: "0 < real_of_int u" using assms(4) by simp
  have "10 ^ d * real_of_int s \<le> (real B + 1 / 2 - 1 / 2 ^ 41) * real_of_int u"
    using c
  proof
    assume a: "2 * 10 ^ d * s + 1 \<le> (2 * int B + 1) * u \<and> u \<le> 2 ^ 40"
    then have "real_of_int (2 * 10 ^ d * s + 1) \<le> real_of_int ((2 * int B + 1) * u)"
      by (simp only: of_int_le_iff)
    then have 1: "2 * (10 ^ d * real_of_int s) + 1 \<le> (2 * real B + 1) * real_of_int u" by simp
    have "real_of_int u \<le> real_of_int (2 ^ 40)" using a by (simp only: of_int_le_iff)
    then have 2: "1 / 2 ^ 41 * real_of_int u \<le> 1 / 2" by simp
    have 3: "(real B + 1 / 2 - 1 / 2 ^ 41) * real_of_int u =
        (2 * real B + 1) * real_of_int u / 2 - 1 / 2 ^ 41 * real_of_int u"
      by (simp add: algebra_simps)
    show ?thesis unfolding 3 using 1 2 by linarith
  next
    assume "10 ^ d * s \<le> int B * u"
    then have "real_of_int (10 ^ d * s) \<le> real_of_int (int B * u)" by (simp only: of_int_le_iff)
    then have "10 ^ d * real_of_int s \<le> real B * real_of_int u" by simp
    also have "\<dots> \<le> (real B + 1 / 2 - 1 / 2 ^ 41) * real_of_int u"
      using u by (intro mult_right_mono) simp_all
    finally show ?thesis .
  qed
  then show "10 ^ d * real_of_int s / real_of_int u \<le> real B + 1 / 2 - 1 / 2 ^ 41"
    using u by (simp only: pos_divide_le_eq)
qed

lemma fixed_length:
  assumes "fixed_ok fixed" and "0 \<le> s" and "s \<le> 2 ^ 53" and "0 < u" and "d \<le> 2"
    and "2 * 10 ^ d * s + 1 \<le> 1999 * u \<and> u \<le> 2 ^ 40 \<or> 10 ^ d * s \<le> 999 * u"
  shows "length (fixed d s u @ t) \<le> 4 + length t"
proof -
  obtain k where "fixed d s u = fixed_text d k" "k \<le> 999"
    by (rule fixed_bound_int [OF assms(1-4), of 999 d]) (use assms(6) in simp_all)
  then show ?thesis using length_fixed_text(1) [of k d] assms(5) by simp
qed

lemma fixed_length_0:
  assumes "fixed_ok fixed" and "0 \<le> s" and "s \<le> 2 ^ 53" and "0 < u"
    and "2 * s + 1 \<le> 2047 * u \<and> u \<le> 2 ^ 40 \<or> s \<le> 1023 * u"
  shows "length (fixed 0 s u @ t) \<le> 4 + length t"
proof -
  obtain k where "fixed 0 s u = fixed_text 0 k" "k \<le> 1023"
    by (rule fixed_bound_int [OF assms(1-4), of 1023 0]) (use assms(5) in simp_all)
  then show ?thesis using length_fixed_text(2) [of k] by simp
qed

lemma length_if: "(c \<Longrightarrow> length a \<le> n) \<Longrightarrow> (\<not> c \<Longrightarrow> length b \<le> n) \<Longrightarrow> length (if c then a else b) \<le> n"
  by simp

lemma length_snprintf: "length s \<le> n \<Longrightarrow> length (snprintf m s) \<le> n"
  by (simp add: snprintf_def)

lemma length_small_int: "0 \<le> s \<Longrightarrow> s < 10000 \<Longrightarrow> length (int_to_dec s) \<le> 4"
  using length_nat_to_base [of 10 4 "nat s"] by (simp add: int_to_dec_def)

lemma formatSI_length:
  assumes "fixed_ok fixed" and "0 \<le> s" and "s \<le> 2 ^ 53"
  shows "length (formatSI fixed s) \<le> 5"
proof -
  have f: "length (fixed d s u @ [c]) \<le> 5"
    if "0 < u" "d \<le> 2" "2 * 10 ^ d * s + 1 \<le> 1999 * u \<and> u \<le> 2 ^ 40 \<or> 10 ^ d * s \<le> 999 * u" for d u c
    using fixed_length [OF assms that, of "[c]"] by simp
  show ?thesis
    unfolding formatSI_def
    by (rule length_snprintf, intro length_if, use length_small_int [of s] assms in simp,
        (rule f; use assms(2,3) in simp)+)
qed

lemma IEC_limits:
  "real_of_int s < real_of_int u * 9.995 \<Longrightarrow> 2 * 10 ^ 2 * s + 1 \<le> 1999 * u"
  "real_of_int s < real_of_int u * 99.95 \<Longrightarrow> 2 * 10 ^ 1 * s + 1 \<le> 1999 * u"
  "real_of_int s < real_of_int u * 1023.5 \<Longrightarrow> 2 * s + 1 \<le> 2047 * u"
proof -
  have lt: "a + 1 \<le> b" if "real_of_int a < real_of_int b" for a b
    using that by simp
  show "real_of_int s < real_of_int u * 9.995 \<Longrightarrow> 2 * 10 ^ 2 * s + 1 \<le> 1999 * u" by (rule lt) simp
  show "real_of_int s < real_of_int u * 99.95 \<Longrightarrow> 2 * 10 ^ 1 * s + 1 \<le> 1999 * u" by (rule lt) simp
  show "real_of_int s < real_of_int u * 1023.5 \<Longrightarrow> 2 * s + 1 \<le> 2047 * u" by (rule lt) simp
qed

lemma formatIEC_length:
  assumes "fixed_ok fixed" and "0 \<le> s" and "s \<le> 2 ^ 53"
  shows "length (formatIEC fixed s) \<le> 6"
proof -
  have f2: "length (fixed 2 s u @ [c, c']) \<le> 6" if "real_of_int s < real_of_int u * 9.995"
    "0 < u" "u \<le> 2 ^ 40 \<or> 2 ^ 50 \<le> u" for u c c'
    using fixed_length [OF assms that(2), of 2 "[c, c']"] IEC_limits(1) [OF that(1)] that(3) assms(3)
    by auto
  have f1: "length (fixed 1 s u @ [c, c']) \<le> 6" if "real_of_int s < real_of_int u * 99.95"
    "0 < u" "u \<le> 2 ^ 40 \<or> 2 ^ 50 \<le> u" for u c c'
    using fixed_length [OF assms that(2), of 1 "[c, c']"] IEC_limits(2) [OF that(1)] that(3) assms(3)
    by auto
  have f0: "length (fixed 0 s u @ [c, c']) \<le> 6" if "real_of_int s < real_of_int u * 1023.5"
    "0 < u" "u \<le> 2 ^ 40 \<or> 2 ^ 50 \<le> u" for u c c'
    using fixed_length_0 [OF assms that(2), of "[c, c']"] IEC_limits(3) [OF that(1)] that(3) assms(3)
    by auto
  have small: "length (int_to_dec s) \<le> 6" if "real_of_int s < 2 ^ 10"
    using length_small_int [of s] assms(2) that by simp
  have big: "real_of_int s < 2 ^ 60 * 9.995"
  proof -
    have "real_of_int s \<le> real_of_int (2 ^ 53)" using assms(3) by (simp only: of_int_le_iff)
    then show ?thesis by simp
  qed
  show ?thesis
    unfolding formatIEC_def if_P [OF big]
    by (rule length_snprintf, intro length_if, erule small,
        ((rule f2 | rule f1 | rule f0); (simp only: of_int_power of_int_numeral big | simp))+)
qed

text \<open>The two formats of quantities keep the lengths promised for them: at most five
  characters with SI units and at most six with binary units, for every quantity that a
  \<open>double\<close> represents exactly.\<close>

theorem formatSI_formatIEC_lengths:
  assumes "fixed_ok fixed" and "0 \<le> s" and "s \<le> 2 ^ 53"
  shows "length (formatSI fixed s) \<le> 5 \<and> length (formatIEC fixed s) \<le> 6"
  using formatSI_length [OF assms] formatIEC_length [OF assms] by blast

definition exact_fixed :: "nat \<Rightarrow> int \<Rightarrow> int \<Rightarrow> string" where
  "exact_fixed d s u = fixed_text d (nat ((2 * 10 ^ d * s + u) div (2 * u)))"

lemma exact_fixed_ok: "fixed_ok exact_fixed"
  unfolding fixed_ok_def
proof (intro allI impI)
  fix d s u :: int and d' :: nat
  assume h: "0 \<le> s \<and> s \<le> 2 ^ 53 \<and> 0 < u"
  define n where "n = 10 ^ d' * s"
  define q where "q = (2 * n + u) div (2 * u)"
  have n: "0 \<le> n" using h by (simp add: n_def)
  have q0: "0 \<le> q" unfolding q_def using n h by (intro pos_imp_zdiv_nonneg_iff [THEN iffD2]) simp_all
  have e: "2 * u * q + (2 * n + u) mod (2 * u) = 2 * n + u" unfolding q_def by (rule mult_div_mod_eq)
  have r: "0 \<le> (2 * n + u) mod (2 * u)" "(2 * n + u) mod (2 * u) < 2 * u" using h by simp_all
  have "2 * u * q \<le> 2 * n + u" "2 * n + u < 2 * u * q + 2 * u" using e r by linarith+
  then have "real_of_int (2 * u * q) \<le> real_of_int (2 * n + u)"
    "real_of_int (2 * n + u) \<le> real_of_int (2 * u * q + 2 * u)" by (simp_all only: of_int_le_iff less_imp_le)
  then have b: "real_of_int u * real_of_int q \<le> real_of_int n + real_of_int u / 2"
    "real_of_int n \<le> real_of_int u * real_of_int q + real_of_int u / 2" by simp_all
  have u: "0 < real_of_int u" using h by simp
  have x: "real_of_int q \<le> real_of_int n / real_of_int u + 1 / 2"
    "real_of_int n / real_of_int u \<le> real_of_int q + 1 / 2"
    using b u by (simp_all add: field_simps)
  have "0 \<le> real_of_int n / real_of_int u / 2 ^ 53" using n u by simp
  then have "\<bar>real (nat q) - real_of_int n / real_of_int u\<bar> \<le> 1 / 2 + real_of_int n / real_of_int u / 2 ^ 53"
    using x q0 by simp
  then show "\<exists>k. exact_fixed d' s u = fixed_text d' k \<and>
      \<bar>real k - 10 ^ d' * real_of_int s / real_of_int u\<bar> \<le>
        1 / 2 + 10 ^ d' * real_of_int s / real_of_int u / 2 ^ 53"
    by (intro exI [of _ "nat q"]) (simp add: exact_fixed_def q_def n_def mult.assoc)
qed

end
