(* ===== verification/Channel.thy ===== *)
theory Channel
  imports Timestamp
begin

text \<open>
  Channels (\<open>src/net/Channel.h\<close>, \<open>src/net/Channel.cc\<close>): the events a file descriptor is
  watched for, the events that happened, and the dispatch of those events to the callbacks.

  Channels are objects on a heap, \<open>chans\<close>, since pollers, the event loop and the owner of a
  channel share them. The record \<open>channels\<close> is extended by the state of a poller; the virtual
  calls through the event loop are the arguments \<open>updateChannel\<close> and \<open>removeChannel\<close>. The
  flags are words of the width of \<open>int\<close>. A callback is a number; what it does to the state is
  the argument \<open>run\<close>. Log lines are not modelled.
\<close>

unbundle bit_operations_syntax

type_synonym events = "32 word"

subsection \<open>Events\<close>

abbreviation POLLIN :: events where "POLLIN \<equiv> 0x001"
abbreviation POLLPRI :: events where "POLLPRI \<equiv> 0x002"
abbreviation POLLOUT :: events where "POLLOUT \<equiv> 0x004"
abbreviation POLLERR :: events where "POLLERR \<equiv> 0x008"
abbreviation POLLHUP :: events where "POLLHUP \<equiv> 0x010"
abbreviation POLLNVAL :: events where "POLLNVAL \<equiv> 0x020"
abbreviation POLLRDHUP :: events where "POLLRDHUP \<equiv> 0x2000"

definition kNoneEvent :: events where "kNoneEvent = 0"
definition kReadEvent :: events where "kReadEvent = POLLIN OR POLLPRI"
definition kWriteEvent :: events where "kWriteEvent = POLLOUT"

subsection \<open>Channels\<close>

record channel =
  ch_loop :: nat
  ch_fd :: int
  ch_events :: events
  ch_revents :: events
  ch_index :: int
  ch_logHup :: bool
  ch_tie :: nat
  ch_tied :: bool
  ch_eventHandling :: bool
  ch_addedToLoop :: bool
  ch_readCallback :: "nat option"
  ch_writeCallback :: "nat option"
  ch_closeCallback :: "nat option"
  ch_errorCallback :: "nat option"

record channels =
  chans :: "nat \<rightharpoonup> channel"

definition Channel_ctor :: "nat \<Rightarrow> int \<Rightarrow> channel" where
  "Channel_ctor loop fd = \<lparr>ch_loop = loop, ch_fd = fd, ch_events = 0, ch_revents = 0, ch_index = -1,
     ch_logHup = True, ch_tie = 0, ch_tied = False, ch_eventHandling = False, ch_addedToLoop = False,
     ch_readCallback = None, ch_writeCallback = None, ch_closeCallback = None, ch_errorCallback = None\<rparr>"

definition on_channel ::
    "nat \<Rightarrow> (channel \<Rightarrow> channel) \<Rightarrow> 'a channels_scheme \<Rightarrow> 'a channels_scheme option" where
  "on_channel c f s = (case chans s c of
     None \<Rightarrow> None | Some ch \<Rightarrow> Some (s\<lparr>chans := (chans s)(c \<mapsto> f ch)\<rparr>))"

definition setReadCallback :: "nat \<Rightarrow> nat \<Rightarrow> 'a channels_scheme \<Rightarrow> 'a channels_scheme option" where
  "setReadCallback c cb = on_channel c (ch_readCallback_update (\<lambda>_. Some cb))"

definition setWriteCallback :: "nat \<Rightarrow> nat \<Rightarrow> 'a channels_scheme \<Rightarrow> 'a channels_scheme option" where
  "setWriteCallback c cb = on_channel c (ch_writeCallback_update (\<lambda>_. Some cb))"

definition setCloseCallback :: "nat \<Rightarrow> nat \<Rightarrow> 'a channels_scheme \<Rightarrow> 'a channels_scheme option" where
  "setCloseCallback c cb = on_channel c (ch_closeCallback_update (\<lambda>_. Some cb))"

definition setErrorCallback :: "nat \<Rightarrow> nat \<Rightarrow> 'a channels_scheme \<Rightarrow> 'a channels_scheme option" where
  "setErrorCallback c cb = on_channel c (ch_errorCallback_update (\<lambda>_. Some cb))"

definition Channel_tie :: "nat \<Rightarrow> nat \<Rightarrow> 'a channels_scheme \<Rightarrow> 'a channels_scheme option" where
  "Channel_tie c obj = on_channel c (\<lambda>ch. ch\<lparr>ch_tie := obj, ch_tied := True\<rparr>)"

definition set_revents :: "nat \<Rightarrow> events \<Rightarrow> 'a channels_scheme \<Rightarrow> 'a channels_scheme option" where
  "set_revents c revt = on_channel c (\<lambda>ch. ch\<lparr>ch_revents := revt\<rparr>)"

definition set_index :: "nat \<Rightarrow> int \<Rightarrow> 'a channels_scheme \<Rightarrow> 'a channels_scheme option" where
  "set_index c idx = on_channel c (\<lambda>ch. ch\<lparr>ch_index := idx\<rparr>)"

definition doNotLogHup :: "nat \<Rightarrow> 'a channels_scheme \<Rightarrow> 'a channels_scheme option" where
  "doNotLogHup c = on_channel c (\<lambda>ch. ch\<lparr>ch_logHup := False\<rparr>)"

definition isNoneEvent :: "channel \<Rightarrow> bool" where
  "isNoneEvent ch \<longleftrightarrow> ch_events ch = kNoneEvent"

definition isWriting :: "channel \<Rightarrow> bool" where
  "isWriting ch \<longleftrightarrow> ch_events ch AND kWriteEvent \<noteq> 0"

definition isReading :: "channel \<Rightarrow> bool" where
  "isReading ch \<longleftrightarrow> ch_events ch AND kReadEvent \<noteq> 0"

type_synonym 'a update_fun = "nat \<Rightarrow> 'a channels_scheme \<Rightarrow> 'a channels_scheme option"

definition Channel_update :: "'a update_fun \<Rightarrow> nat \<Rightarrow> 'a channels_scheme \<Rightarrow> 'a channels_scheme option" where
  "Channel_update updateChannel c s = do {
     s \<leftarrow> on_channel c (\<lambda>ch. ch\<lparr>ch_addedToLoop := True\<rparr>) s;
     updateChannel c s }"

definition enableReading :: "'a update_fun \<Rightarrow> nat \<Rightarrow> 'a channels_scheme \<Rightarrow> 'a channels_scheme option" where
  "enableReading updateChannel c s = do {
     s \<leftarrow> on_channel c (\<lambda>ch. ch\<lparr>ch_events := ch_events ch OR kReadEvent\<rparr>) s;
     Channel_update updateChannel c s }"

definition disableReading :: "'a update_fun \<Rightarrow> nat \<Rightarrow> 'a channels_scheme \<Rightarrow> 'a channels_scheme option" where
  "disableReading updateChannel c s = do {
     s \<leftarrow> on_channel c (\<lambda>ch. ch\<lparr>ch_events := ch_events ch AND NOT kReadEvent\<rparr>) s;
     Channel_update updateChannel c s }"

definition enableWriting :: "'a update_fun \<Rightarrow> nat \<Rightarrow> 'a channels_scheme \<Rightarrow> 'a channels_scheme option" where
  "enableWriting updateChannel c s = do {
     s \<leftarrow> on_channel c (\<lambda>ch. ch\<lparr>ch_events := ch_events ch OR kWriteEvent\<rparr>) s;
     Channel_update updateChannel c s }"

definition disableWriting :: "'a update_fun \<Rightarrow> nat \<Rightarrow> 'a channels_scheme \<Rightarrow> 'a channels_scheme option" where
  "disableWriting updateChannel c s = do {
     s \<leftarrow> on_channel c (\<lambda>ch. ch\<lparr>ch_events := ch_events ch AND NOT kWriteEvent\<rparr>) s;
     Channel_update updateChannel c s }"

definition disableAll :: "'a update_fun \<Rightarrow> nat \<Rightarrow> 'a channels_scheme \<Rightarrow> 'a channels_scheme option" where
  "disableAll updateChannel c s = do {
     s \<leftarrow> on_channel c (\<lambda>ch. ch\<lparr>ch_events := kNoneEvent\<rparr>) s;
     Channel_update updateChannel c s }"

definition Channel_remove :: "'a update_fun \<Rightarrow> nat \<Rightarrow> 'a channels_scheme \<Rightarrow> 'a channels_scheme option" where
  "Channel_remove removeChannel c s = do {
     ch \<leftarrow> chans s c;
     cassert (isNoneEvent ch);
     s \<leftarrow> on_channel c (\<lambda>ch. ch\<lparr>ch_addedToLoop := False\<rparr>) s;
     removeChannel c s }"

definition Channel_dtor ::
    "(nat \<Rightarrow> 'a channels_scheme \<Rightarrow> bool) \<Rightarrow> bool \<Rightarrow> nat \<Rightarrow> 'a channels_scheme \<Rightarrow> 'a channels_scheme option" where
  "Channel_dtor hasChannel isInLoopThread c s = do {
     ch \<leftarrow> chans s c;
     cassert (\<not> ch_eventHandling ch);
     cassert (\<not> ch_addedToLoop ch);
     cassert (isInLoopThread \<longrightarrow> \<not> hasChannel c s);
     Some (s\<lparr>chans := (chans s)(c := None)\<rparr>) }"

subsection \<open>Dispatch\<close>

datatype closure = Call nat | CallAt nat timestamp

definition call_if ::
    "(closure \<Rightarrow> 'a channels_scheme \<Rightarrow> 'a channels_scheme option) \<Rightarrow> bool \<Rightarrow> closure option \<Rightarrow>
     'a channels_scheme \<Rightarrow> 'a channels_scheme option" where
  "call_if run b cb s = (if b then (case cb of None \<Rightarrow> Some s | Some f \<Rightarrow> run f s) else Some s)"

definition hupWithoutIn :: "channel \<Rightarrow> bool" where
  "hupWithoutIn ch \<longleftrightarrow> ch_revents ch AND POLLHUP \<noteq> 0 \<and> \<not> ch_revents ch AND POLLIN \<noteq> 0"

definition handleEventWithGuard ::
    "(closure \<Rightarrow> 'a channels_scheme \<Rightarrow> 'a channels_scheme option) \<Rightarrow> nat \<Rightarrow> timestamp \<Rightarrow>
     'a channels_scheme \<Rightarrow> 'a channels_scheme option" where
  "handleEventWithGuard run c receiveTime s = do {
     s \<leftarrow> on_channel c (\<lambda>ch. ch\<lparr>ch_eventHandling := True\<rparr>) s;
     ch \<leftarrow> chans s c;
     s \<leftarrow> call_if run (hupWithoutIn ch) (map_option Call (ch_closeCallback ch)) s;
     ch \<leftarrow> chans s c;
     s \<leftarrow> call_if run (ch_revents ch AND (POLLERR OR POLLNVAL) \<noteq> 0) (map_option Call (ch_errorCallback ch)) s;
     ch \<leftarrow> chans s c;
     s \<leftarrow> call_if run (ch_revents ch AND (POLLIN OR POLLPRI OR POLLRDHUP) \<noteq> 0)
            (map_option (\<lambda>f. CallAt f receiveTime) (ch_readCallback ch)) s;
     ch \<leftarrow> chans s c;
     s \<leftarrow> call_if run (ch_revents ch AND POLLOUT \<noteq> 0) (map_option Call (ch_writeCallback ch)) s;
     on_channel c (\<lambda>ch. ch\<lparr>ch_eventHandling := False\<rparr>) s }"

text \<open>\<open>lock\<close> is what the weak pointer to the owner gives: whether the owner still exists.\<close>

definition handleEvent ::
    "(nat \<Rightarrow> bool) \<Rightarrow> (closure \<Rightarrow> 'a channels_scheme \<Rightarrow> 'a channels_scheme option) \<Rightarrow> nat \<Rightarrow> timestamp \<Rightarrow>
     'a channels_scheme \<Rightarrow> 'a channels_scheme option" where
  "handleEvent lock run c receiveTime s = do {
     ch \<leftarrow> chans s c;
     (if ch_tied ch
      then (if lock (ch_tie ch) then handleEventWithGuard run c receiveTime s else Some s)
      else handleEventWithGuard run c receiveTime s) }"

definition eventsToString :: "int \<Rightarrow> events \<Rightarrow> string" where
  "eventsToString fd ev =
     int_to_dec fd @ '': '' @
     (if ev AND POLLIN \<noteq> 0 then ''IN '' else []) @
     (if ev AND POLLPRI \<noteq> 0 then ''PRI '' else []) @
     (if ev AND POLLOUT \<noteq> 0 then ''OUT '' else []) @
     (if ev AND POLLHUP \<noteq> 0 then ''HUP '' else []) @
     (if ev AND POLLRDHUP \<noteq> 0 then ''RDHUP '' else []) @
     (if ev AND POLLERR \<noteq> 0 then ''ERR '' else []) @
     (if ev AND POLLNVAL \<noteq> 0 then ''NVAL '' else [])"

subsection \<open>Changing the events\<close>

lemma on_channel_Some [simp]:
  "chans s c = Some ch \<Longrightarrow> on_channel c f s = Some (s\<lparr>chans := (chans s)(c \<mapsto> f ch)\<rparr>)"
  by (simp add: on_channel_def)

lemma on_channel_None [simp]: "chans s c = None \<Longrightarrow> on_channel c f s = None"
  by (simp add: on_channel_def)

text \<open>The heap when the channel asks its loop to watch for the events \<open>ev\<close>.\<close>

definition with_events :: "nat \<Rightarrow> events \<Rightarrow> 'a channels_scheme \<Rightarrow> 'a channels_scheme" where
  "with_events c ev s = s\<lparr>chans :=
     (chans s)(c \<mapsto> (the (chans s c))\<lparr>ch_events := ev, ch_addedToLoop := True\<rparr>)\<rparr>"

lemma channel_updates:
  assumes "chans s c = Some ch"
  shows enableReading_eq: "enableReading u c s = u c (with_events c (ch_events ch OR kReadEvent) s)"
    and disableReading_eq: "disableReading u c s = u c (with_events c (ch_events ch AND NOT kReadEvent) s)"
    and enableWriting_eq: "enableWriting u c s = u c (with_events c (ch_events ch OR kWriteEvent) s)"
    and disableWriting_eq: "disableWriting u c s = u c (with_events c (ch_events ch AND NOT kWriteEvent) s)"
    and disableAll_eq: "disableAll u c s = u c (with_events c 0 s)"
  using assms
  by (simp_all add: enableReading_def disableReading_def enableWriting_def disableWriting_def
      disableAll_def Channel_update_def with_events_def kNoneEvent_def)

lemma event_flags:
  fixes ev :: events
  shows "(ev OR kReadEvent) AND kReadEvent \<noteq> 0" and "(ev AND NOT kReadEvent) AND kReadEvent = 0"
    and "(ev OR kReadEvent) AND kWriteEvent = ev AND kWriteEvent"
    and "(ev AND NOT kReadEvent) AND kWriteEvent = ev AND kWriteEvent"
    and "(ev OR kWriteEvent) AND kWriteEvent \<noteq> 0" and "(ev AND NOT kWriteEvent) AND kWriteEvent = 0"
    and "(ev OR kWriteEvent) AND kReadEvent = ev AND kReadEvent"
    and "(ev AND NOT kWriteEvent) AND kReadEvent = ev AND kReadEvent"
proof -
  have rw: "kReadEvent AND kWriteEvent = 0" "NOT kReadEvent AND kWriteEvent = kWriteEvent"
    "NOT kWriteEvent AND kReadEvent = kReadEvent" "kWriteEvent AND kReadEvent = 0"
    by (simp_all add: kReadEvent_def kWriteEvent_def)
  have nz: "kReadEvent \<noteq> 0" "kWriteEvent \<noteq> 0" by (simp_all add: kReadEvent_def kWriteEvent_def)
  have absorb: "(ev OR k) AND k = k" "(ev AND NOT k) AND k = 0" for k :: events
    by (simp_all add: bit_eq_iff bit_simps)
  show "(ev OR kReadEvent) AND kReadEvent \<noteq> 0" "(ev AND NOT kReadEvent) AND kReadEvent = 0"
    "(ev OR kWriteEvent) AND kWriteEvent \<noteq> 0" "(ev AND NOT kWriteEvent) AND kWriteEvent = 0"
    using nz absorb by simp_all
  show "(ev OR kReadEvent) AND kWriteEvent = ev AND kWriteEvent"
    "(ev OR kWriteEvent) AND kReadEvent = ev AND kReadEvent"
    using rw by (simp_all add: and.assoc bit.conj_disj_distrib2)
  show "(ev AND NOT kReadEvent) AND kWriteEvent = ev AND kWriteEvent"
    "(ev AND NOT kWriteEvent) AND kReadEvent = ev AND kReadEvent"
    using rw by (simp_all add: and.assoc)
qed

subsection \<open>The order of the callbacks\<close>

definition dispatch :: "timestamp \<Rightarrow> channel \<Rightarrow> closure list" where
  "dispatch t ch =
     (if hupWithoutIn ch then map Call (option_list (ch_closeCallback ch)) else []) @
     (if ch_revents ch AND (POLLERR OR POLLNVAL) \<noteq> 0
      then map Call (option_list (ch_errorCallback ch)) else []) @
     (if ch_revents ch AND (POLLIN OR POLLPRI OR POLLRDHUP) \<noteq> 0
      then map (\<lambda>f. CallAt f t) (option_list (ch_readCallback ch)) else []) @
     (if ch_revents ch AND POLLOUT \<noteq> 0 then map Call (option_list (ch_writeCallback ch)) else [])"

fun run_all :: "('f \<Rightarrow> 's \<Rightarrow> 's option) \<Rightarrow> 'f list \<Rightarrow> 's \<Rightarrow> 's option" where
  "run_all run [] s = Some s"
| "run_all run (f # fs) s = Option.bind (run f s) (run_all run fs)"

lemma run_all_append: "run_all run (xs @ ys) s = Option.bind (run_all run xs s) (run_all run ys)"
  by (induction xs arbitrary: s) (auto simp: bind_assoc split: bind_splits)

text \<open>A callback keeps the channel it is called for, the events that happened on it and its
  callbacks.\<close>

definition keeps_channel :: "(closure \<Rightarrow> 'a channels_scheme \<Rightarrow> 'a channels_scheme option) \<Rightarrow> nat \<Rightarrow> bool" where
  "keeps_channel run c \<longleftrightarrow> (\<forall>f s s' ch. run f s = Some s' \<longrightarrow> chans s c = Some ch \<longrightarrow>
     (\<exists>ch'. chans s' c = Some ch' \<and> ch_revents ch' = ch_revents ch \<and>
        ch_readCallback ch' = ch_readCallback ch \<and> ch_writeCallback ch' = ch_writeCallback ch \<and>
        ch_closeCallback ch' = ch_closeCallback ch \<and> ch_errorCallback ch' = ch_errorCallback ch))"

definition same_dispatch :: "channel \<Rightarrow> channel \<Rightarrow> bool" where
  "same_dispatch ch ch' \<longleftrightarrow> ch_revents ch' = ch_revents ch \<and>
     ch_readCallback ch' = ch_readCallback ch \<and> ch_writeCallback ch' = ch_writeCallback ch \<and>
     ch_closeCallback ch' = ch_closeCallback ch \<and> ch_errorCallback ch' = ch_errorCallback ch"

lemma same_dispatch_trans: "same_dispatch a b \<Longrightarrow> same_dispatch b c \<Longrightarrow> same_dispatch a c"
  by (simp add: same_dispatch_def)

lemma call_if_eq: "call_if run b cb s = run_all run (if b then option_list cb else []) s"
  by (cases cb; cases "run (the cb) s") (simp_all add: call_if_def)

lemma run_all_keeps:
  assumes "keeps_channel run c" and "run_all run fs s = Some s'" and "chans s c = Some ch"
  shows "\<exists>ch'. chans s' c = Some ch' \<and> same_dispatch ch ch'"
  using assms(2,3)
proof (induction fs arbitrary: s ch)
  case Nil
  then show ?case by (simp add: same_dispatch_def)
next
  case (Cons f fs)
  then obtain s1 where s1: "run f s = Some s1" "run_all run fs s1 = Some s'"
    by (auto elim: bind_eq_SomeE)
  obtain ch1 where ch1: "chans s1 c = Some ch1" "same_dispatch ch ch1"
    using assms(1) s1(1) Cons.prems(2) unfolding keeps_channel_def same_dispatch_def by meson
  show ?case using Cons.IH [OF s1(2) ch1(1)] ch1(2) same_dispatch_trans by blast
qed

fun run_slots ::
    "(closure \<Rightarrow> 'a channels_scheme \<Rightarrow> 'a channels_scheme option) \<Rightarrow> nat \<Rightarrow> (channel \<Rightarrow> closure list) list \<Rightarrow>
     'a channels_scheme \<Rightarrow> 'a channels_scheme option" where
  "run_slots run c [] s = Some s"
| "run_slots run c (l # ls) s = do { ch \<leftarrow> chans s c; s \<leftarrow> run_all run (l ch) s; run_slots run c ls s }"

lemma run_slots_eq:
  assumes keeps: "keeps_channel run c" and "chans s c = Some ch"
    and "\<And>l ch ch'. l \<in> set ls \<Longrightarrow> same_dispatch ch ch' \<Longrightarrow> l ch' = l ch"
  shows "run_slots run c ls s = run_all run (concat (map (\<lambda>l. l ch) ls)) s"
  using assms(2,3)
proof (induction ls arbitrary: s ch)
  case Nil
  then show ?case by simp
next
  case (Cons l ls)
  show ?case
  proof (cases "run_all run (l ch) s")
    case None
    then show ?thesis using Cons.prems(1) by (simp add: run_all_append)
  next
    case (Some s1)
    then obtain ch1 where ch1: "chans s1 c = Some ch1" "same_dispatch ch ch1"
      using run_all_keeps [OF keeps Some Cons.prems(1)] by blast
    have "run_slots run c ls s1 = run_all run (concat (map (\<lambda>l. l ch1) ls)) s1"
      using Cons.IH [OF ch1(1)] Cons.prems(2) by (meson list.set_intros(2))
    moreover have "map (\<lambda>l. l ch1) ls = map (\<lambda>l. l ch) ls"
      using Cons.prems(2) ch1(2) by auto
    ultimately show ?thesis using Cons.prems(1) Some by (simp add: run_all_append)
  qed
qed

lemma handleEventWithGuard_eq:
  assumes keeps: "keeps_channel run c" and ch: "chans s c = Some ch"
  shows "handleEventWithGuard run c t s = do {
    s \<leftarrow> run_all run (dispatch t ch) (s\<lparr>chans := (chans s)(c \<mapsto> ch\<lparr>ch_eventHandling := True\<rparr>)\<rparr>);
    on_channel c (\<lambda>ch. ch\<lparr>ch_eventHandling := False\<rparr>) s }"
proof -
  define l1 :: "channel \<Rightarrow> closure list" where
    "l1 ch = (if hupWithoutIn ch then map Call (option_list (ch_closeCallback ch)) else [])" for ch
  define l2 :: "channel \<Rightarrow> closure list" where "l2 ch = (if ch_revents ch AND (POLLERR OR POLLNVAL) \<noteq> 0
    then map Call (option_list (ch_errorCallback ch)) else [])" for ch
  define l3 :: "channel \<Rightarrow> closure list" where
    "l3 ch = (if ch_revents ch AND (POLLIN OR POLLPRI OR POLLRDHUP) \<noteq> 0
    then map (\<lambda>f. CallAt f t) (option_list (ch_readCallback ch)) else [])" for ch
  define l4 :: "channel \<Rightarrow> closure list" where "l4 ch = (if ch_revents ch AND POLLOUT \<noteq> 0
    then map Call (option_list (ch_writeCallback ch)) else [])" for ch
  have same: "l ch' = l ch" if "l \<in> set [l1, l2, l3, l4]" and "same_dispatch ch ch'" for l ch ch'
    using that by (auto simp: same_dispatch_def l1_def l2_def l3_def l4_def hupWithoutIn_def)
  let ?ch = "ch\<lparr>ch_eventHandling := True\<rparr>" and ?fin = "on_channel c (\<lambda>ch. ch\<lparr>ch_eventHandling := False\<rparr>)"
  let ?s = "s\<lparr>chans := (chans s)(c \<mapsto> ?ch)\<rparr>"
  have "handleEventWithGuard run c t s = Option.bind (run_slots run c [l1, l2, l3, l4] ?s) ?fin"
    using ch by (simp add: handleEventWithGuard_def call_if_eq l1_def l2_def l3_def l4_def bind_assoc
        cong: if_cong)
  also have "run_slots run c [l1, l2, l3, l4] ?s = run_all run (concat (map (\<lambda>l. l ?ch) [l1, l2, l3, l4])) ?s"
    by (rule run_slots_eq [OF keeps _ same]) simp_all
  also have "concat (map (\<lambda>l. l ?ch) [l1, l2, l3, l4]) = dispatch t ch"
    by (simp add: l1_def l2_def l3_def l4_def dispatch_def hupWithoutIn_def)
  finally show ?thesis .
qed

text \<open>C36: When the owner of a channel still exists, or the channel has no owner, handling an event
  runs the callbacks for what happened, each at most once and in a fixed order: close on a
  hang-up with nothing to read, then error, then read with the time the poll returned, then
  write; the flag that guards the destructor is clear afterwards. When the owner is gone no
  callback runs and nothing changes.\<close>

theorem handleEvent_dispatches:
  assumes "keeps_channel run c" and "chans s c = Some ch"
  shows "if ch_tied ch \<longrightarrow> lock (ch_tie ch)
    then (case run_all run (dispatch t ch) (s\<lparr>chans := (chans s)(c \<mapsto> ch\<lparr>ch_eventHandling := True\<rparr>)\<rparr>) of
        None \<Rightarrow> handleEvent lock run c t s = None
      | Some s' \<Rightarrow> (\<exists>ch'. chans s' c = Some ch' \<and>
          handleEvent lock run c t s = Some (s'\<lparr>chans := (chans s')(c \<mapsto> ch'\<lparr>ch_eventHandling := False\<rparr>)\<rparr>)))
    else handleEvent lock run c t s = Some s"
proof -
  let ?s = "s\<lparr>chans := (chans s)(c \<mapsto> ch\<lparr>ch_eventHandling := True\<rparr>)\<rparr>"
  have "\<exists>ch'. chans s' c = Some ch'" if "run_all run (dispatch t ch) ?s = Some s'" for s'
    using run_all_keeps [OF assms(1) that] by simp blast
  then show ?thesis
    using assms handleEventWithGuard_eq [OF assms, of t]
    by (cases "run_all run (dispatch t ch) ?s") (auto simp: handleEvent_def)
qed

subsection \<open>Example\<close>

record traced_channels = channels +
  traced_calls :: "closure list"

definition traced_run :: "closure \<Rightarrow> traced_channels \<Rightarrow> traced_channels option" where
  "traced_run f s = Some (s\<lparr>traced_calls := traced_calls s @ [f]\<rparr>)"

definition example_channel :: channel where
  "example_channel = (Channel_ctor 1 5)\<lparr>ch_revents := POLLIN OR POLLHUP OR POLLOUT OR POLLERR,
     ch_readCallback := Some 1, ch_writeCallback := Some 2, ch_closeCallback := Some 3, ch_errorCallback := Some 4\<rparr>"

theorem handleEvent_dispatches_witness:
  "\<exists>s'. handleEvent (\<lambda>_. True) traced_run 7 100 \<lparr>chans = [7 \<mapsto> example_channel], traced_calls = []\<rparr> = Some s'
     \<and> traced_calls s' = [Call 4, CallAt 1 100, Call 2]"
proof -
  have "keeps_channel traced_run 7" by (simp add: keeps_channel_def traced_run_def)
  from handleEvent_dispatches [OF this, of "\<lparr>chans = [7 \<mapsto> example_channel], traced_calls = []\<rparr>" example_channel
      "\<lambda>_. True" 100]
  show ?thesis
    by (simp add: dispatch_def hupWithoutIn_def example_channel_def Channel_ctor_def traced_run_def)
qed

end
