(* ===== verification/Poller.thy ===== *)
theory Poller
  imports Channel
begin

text \<open>
  The interface of the pollers (\<open>src/net/Poller.h\<close>, \<open>src/net/Poller.cc\<close>). A poller keeps a map
  from descriptors to channels and tells the kernel which events to watch for. The locale
  \<open>poller_contract\<close> is what the event loop and the channels rely on: the events the kernel
  watches for are the events of the registered channels. Inside the locale, every sequence of
  legal channel operations is shown to succeed and to refine a specification that has only the
  registered channels and their events. Both pollers interpret the locale.
\<close>

record poller = channels +
  channels_map :: "int \<rightharpoonup> nat"

definition hasChannel :: "nat \<Rightarrow> 'a poller_scheme \<Rightarrow> bool" where
  "hasChannel c s \<longleftrightarrow> (case chans s c of None \<Rightarrow> False | Some ch \<Rightarrow> channels_map s (ch_fd ch) = Some c)"

subsection \<open>Operations on channels\<close>

datatype channel_op =
    EnableReading nat | DisableReading nat | EnableWriting nat | DisableWriting nat
  | DisableAll nat | Remove nat

fun channel_step :: "'a update_fun \<Rightarrow> 'a update_fun \<Rightarrow> channel_op \<Rightarrow> 'a channels_scheme \<Rightarrow> 'a channels_scheme option" where
  "channel_step update remove (EnableReading c) = enableReading update c"
| "channel_step update remove (DisableReading c) = disableReading update c"
| "channel_step update remove (EnableWriting c) = enableWriting update c"
| "channel_step update remove (DisableWriting c) = disableWriting update c"
| "channel_step update remove (DisableAll c) = disableAll update c"
| "channel_step update remove (Remove c) = Channel_remove remove c"

subsection \<open>Specification\<close>

text \<open>\<open>sp_fresh\<close> are the channels that were never registered.\<close>

record watch_spec =
  sp_registered :: "int \<rightharpoonup> nat"
  sp_channels :: "nat \<rightharpoonup> int \<times> events"
  sp_fresh :: "nat \<Rightarrow> bool"

fun op_channel :: "channel_op \<Rightarrow> nat" where
  "op_channel (EnableReading c) = c"
| "op_channel (DisableReading c) = c"
| "op_channel (EnableWriting c) = c"
| "op_channel (DisableWriting c) = c"
| "op_channel (DisableAll c) = c"
| "op_channel (Remove c) = c"

fun op_events :: "channel_op \<Rightarrow> events \<Rightarrow> events" where
  "op_events (EnableReading c) ev = ev OR kReadEvent"
| "op_events (DisableReading c) ev = ev AND NOT kReadEvent"
| "op_events (EnableWriting c) ev = ev OR kWriteEvent"
| "op_events (DisableWriting c) ev = ev AND NOT kWriteEvent"
| "op_events (DisableAll c) ev = 0"
| "op_events (Remove c) ev = ev"

fun is_remove :: "channel_op \<Rightarrow> bool" where
  "is_remove (Remove c) = True"
| "is_remove _ = False"

text \<open>A registered channel is removed once it has no events. Otherwise a channel that is watched,
  or will be, can change its events; a channel is registered by asking for its first event,
  when no other channel has its descriptor.\<close>

definition op_legal :: "watch_spec \<Rightarrow> channel_op \<Rightarrow> bool" where
  "op_legal a x = (let c = op_channel x in case sp_channels a c of
     None \<Rightarrow> False
   | Some (fd, ev) \<Rightarrow>
       if is_remove x then sp_registered a fd = Some c \<and> ev = 0
       else if sp_registered a fd = Some c then ev \<noteq> 0 \<or> op_events x ev \<noteq> 0
       else sp_registered a fd = None \<and> sp_fresh a c \<and> 0 \<le> fd \<and> fd < int_max \<and> op_events x ev \<noteq> 0)"

definition spec_step :: "watch_spec \<Rightarrow> channel_op \<Rightarrow> watch_spec" where
  "spec_step a x = (let c = op_channel x; (fd, ev) = the (sp_channels a c) in
     a\<lparr>sp_registered := (sp_registered a)(fd := (if is_remove x then None else Some c)),
       sp_channels := (sp_channels a)(c \<mapsto> (fd, op_events x ev)),
       sp_fresh := (sp_fresh a)(c := False)\<rparr>)"

fun ops_legal :: "watch_spec \<Rightarrow> channel_op list \<Rightarrow> bool" where
  "ops_legal a [] = True"
| "ops_legal a (x # xs) = (op_legal a x \<and> ops_legal (spec_step a x) xs)"

definition spec_interest :: "watch_spec \<Rightarrow> int \<Rightarrow> events option" where
  "spec_interest a fd = (case sp_registered a fd of
     None \<Rightarrow> None
   | Some c \<Rightarrow> (case sp_channels a c of
       None \<Rightarrow> None | Some (_, ev) \<Rightarrow> if ev = 0 then None else Some ev))"

subsection \<open>The contract of a poller\<close>

definition view :: "'a channels_scheme \<Rightarrow> nat \<Rightarrow> (int \<times> events) option" where
  "view s c = map_option (\<lambda>ch. (ch_fd ch, ch_events ch)) (chans s c)"

definition handlers :: "'a channels_scheme \<Rightarrow> nat \<Rightarrow> (nat option \<times> nat option \<times> nat option \<times> nat option) option" where
  "handlers s c = map_option (\<lambda>ch.
     (ch_readCallback ch, ch_writeCallback ch, ch_closeCallback ch, ch_errorCallback ch)) (chans s c)"

definition fresh :: "'a channels_scheme \<Rightarrow> nat \<Rightarrow> bool" where
  "fresh s c \<longleftrightarrow> (\<exists>ch. chans s c = Some ch \<and> ch_index ch = -1)"

definition event_ok :: "events \<Rightarrow> bool" where
  "event_ok ev \<longleftrightarrow> ev AND (kReadEvent OR kWriteEvent) = ev"

lemma event_ok_bits: "event_ok ev \<Longrightarrow> bit ev n \<Longrightarrow> n < 3"
proof -
  have "kReadEvent OR kWriteEvent = mask 3"
    by (simp add: kReadEvent_def kWriteEvent_def mask_eq_exp_minus_1)
  then show "event_ok ev \<Longrightarrow> bit ev n \<Longrightarrow> n < 3"
    by (metis bit_and_iff bit_mask_iff event_ok_def)
qed

lemma event_ok_0 [simp]: "event_ok 0"
  by (simp add: event_ok_def)

lemma event_ok_op: "event_ok ev \<Longrightarrow> event_ok (op_events x ev)"
proof (cases x)
qed (auto simp: event_ok_def bit_eq_iff bit_simps)

text \<open>The state when a channel is removed by \<open>Channel::remove\<close>.\<close>

definition not_added :: "nat \<Rightarrow> 'a channels_scheme \<Rightarrow> 'a channels_scheme" where
  "not_added c s = s\<lparr>chans := (chans s)(c \<mapsto> (the (chans s c))\<lparr>ch_addedToLoop := False\<rparr>)\<rparr>"

text \<open>Everything a poller reads of a channel is the same, for every channel there is.\<close>

definition same_watch :: "(nat \<rightharpoonup> channel) \<Rightarrow> (nat \<rightharpoonup> channel) \<Rightarrow> bool" where
  "same_watch m m' \<longleftrightarrow> (\<forall>c ch. m c = Some ch \<longrightarrow> (\<exists>ch'. m' c = Some ch' \<and>
     ch_fd ch' = ch_fd ch \<and> ch_events ch' = ch_events ch \<and> ch_index ch' = ch_index ch))"

locale poller_contract =
  fixes inv :: "'a poller_scheme \<Rightarrow> bool"
    and interest :: "'a poller_scheme \<Rightarrow> int \<Rightarrow> events option"
    and update remove :: "nat \<Rightarrow> 'a poller_scheme \<Rightarrow> 'a poller_scheme option"
  assumes interest_events: "inv s \<Longrightarrow> interest s fd = (case channels_map s fd of
      None \<Rightarrow> None
    | Some c \<Rightarrow> (case view s c of None \<Rightarrow> None | Some (_, ev) \<Rightarrow> if ev = 0 then None else Some ev))"
    and update_new: "inv s \<Longrightarrow> view s c = Some (fd, ev0) \<Longrightarrow> fresh s c \<Longrightarrow> channels_map s fd = None \<Longrightarrow>
      0 \<le> fd \<Longrightarrow> fd < int_max \<Longrightarrow> event_ok ev \<Longrightarrow> ev \<noteq> 0 \<Longrightarrow>
      \<exists>s'. update c (with_events c ev s) = Some s' \<and> inv s' \<and>
        channels_map s' = (channels_map s)(fd \<mapsto> c) \<and> view s' = (view s)(c \<mapsto> (fd, ev)) \<and>
        (\<forall>d. d \<noteq> c \<longrightarrow> fresh s d \<longrightarrow> fresh s' d) \<and> handlers s' = handlers s"
    and update_old: "inv s \<Longrightarrow> view s c = Some (fd, ev0) \<Longrightarrow> channels_map s fd = Some c \<Longrightarrow>
      event_ok ev \<Longrightarrow> ev0 \<noteq> 0 \<or> ev \<noteq> 0 \<Longrightarrow>
      \<exists>s'. update c (with_events c ev s) = Some s' \<and> inv s' \<and>
        channels_map s' = channels_map s \<and> view s' = (view s)(c \<mapsto> (fd, ev)) \<and>
        (\<forall>d. d \<noteq> c \<longrightarrow> fresh s d \<longrightarrow> fresh s' d) \<and> handlers s' = handlers s"
    and remove_old: "inv s \<Longrightarrow> view s c = Some (fd, 0) \<Longrightarrow> channels_map s fd = Some c \<Longrightarrow>
      \<exists>s'. remove c (not_added c s) = Some s' \<and> inv s' \<and>
        channels_map s' = (channels_map s)(fd := None) \<and> view s' = view s \<and>
        (\<forall>d. d \<noteq> c \<longrightarrow> fresh s d \<longrightarrow> fresh s' d) \<and> handlers s' = handlers s"
    and inv_chans: "inv s \<Longrightarrow> same_watch (chans s) m \<Longrightarrow> inv (s\<lparr>chans := m\<rparr>)"
begin

definition refines :: "'a poller_scheme \<Rightarrow> watch_spec \<Rightarrow> bool" where
  "refines s a \<longleftrightarrow> inv s \<and> channels_map s = sp_registered a \<and> view s = sp_channels a \<and>
     (\<forall>c. sp_fresh a c \<longrightarrow> fresh s c) \<and> (\<forall>c fd ev. sp_channels a c = Some (fd, ev) \<longrightarrow> event_ok ev)"

lemma refines_interest: "refines s a \<Longrightarrow> interest s fd = spec_interest a fd"
  by (cases "sp_registered a fd") (auto simp: refines_def interest_events spec_interest_def)

lemma refines_step:
  assumes "refines s a" and "op_legal a x"
  shows "\<exists>s'. channel_step update remove x s = Some s' \<and> refines s' (spec_step a x)"
proof -
  let ?c = "op_channel x"
  obtain fd ev where v: "sp_channels a ?c = Some (fd, ev)"
    using assms(2) by (auto simp: op_legal_def Let_def split: option.splits)
  note ref = assms(1) [unfolded refines_def]
  have view: "view s ?c = Some (fd, ev)" using ref v by simp
  then obtain ch where ch: "chans s ?c = Some ch" "ch_fd ch = fd" "ch_events ch = ev"
    by (auto simp: view_def)
  have ok: "event_ok (op_events x ev)" using ref v event_ok_op by blast
  show ?thesis
  proof (cases "is_remove x")
    case True
    then have x: "x = Remove ?c" by (cases x) auto
    have e: "ev = 0" "channels_map s fd = Some ?c"
      using assms(2) ref v True by (auto simp: op_legal_def Let_def)
    obtain s' where s': "remove ?c (not_added ?c s) = Some s'" "inv s'"
      "channels_map s' = (channels_map s)(fd := None)" "view s' = view s"
      "\<forall>d. d \<noteq> ?c \<longrightarrow> fresh s d \<longrightarrow> fresh s' d"
      using remove_old [of s ?c fd] ref view e by auto
    have "channel_step update remove x s = Some s'"
      using s'(1) ch e by (subst x) (simp add: Channel_remove_def isNoneEvent_def kNoneEvent_def not_added_def)
    moreover have "op_events x ev = ev" by (subst x) simp
    then have "refines s' (spec_step a x)"
      using s' ref v True ok by (auto simp: refines_def spec_step_def Let_def)
    ultimately show ?thesis by blast
  next
    case False
    have eq: "channel_step update remove x s = update ?c (with_events ?c (op_events x ev) s)"
      using False ch by (cases x) (simp_all add: channel_updates)
    show ?thesis
    proof (cases "channels_map s fd = Some ?c")
      case True
      then have "ev \<noteq> 0 \<or> op_events x ev \<noteq> 0"
        using assms(2) ref v False by (auto simp: op_legal_def Let_def)
      from update_old [OF _ view True ok this] ref obtain s' where
        s': "update ?c (with_events ?c (op_events x ev) s) = Some s'" "inv s'"
        "channels_map s' = channels_map s" "view s' = (view s)(?c \<mapsto> (fd, op_events x ev))"
        "\<forall>d. d \<noteq> ?c \<longrightarrow> fresh s d \<longrightarrow> fresh s' d" by blast
      then have "refines s' (spec_step a x)"
        using ref v False True ok by (auto simp: refines_def spec_step_def Let_def)
      then show ?thesis using eq s'(1) by simp
    next
      case new: False
      then have n: "sp_registered a fd = None" "sp_fresh a ?c" "0 \<le> fd" "fd < int_max" "op_events x ev \<noteq> 0"
        using assms(2) ref v False by (auto simp: op_legal_def Let_def)
      then have "channels_map s fd = None" "fresh s ?c" using ref by auto
      from update_new [OF _ view this(2,1) n(3,4) ok n(5)] ref obtain s' where
        s': "update ?c (with_events ?c (op_events x ev) s) = Some s'" "inv s'"
        "channels_map s' = (channels_map s)(fd \<mapsto> ?c)" "view s' = (view s)(?c \<mapsto> (fd, op_events x ev))"
        "\<forall>d. d \<noteq> ?c \<longrightarrow> fresh s d \<longrightarrow> fresh s' d" by blast
      then have "refines s' (spec_step a x)"
        using ref v False ok by (auto simp: refines_def spec_step_def Let_def)
      then show ?thesis using eq s'(1) by simp
    qed
  qed
qed

theorem refines_run:
  assumes "refines s a" and "ops_legal a xs"
  shows "\<exists>s'. run_all (channel_step update remove) xs s = Some s' \<and> refines s' (foldl spec_step a xs)"
  using assms
proof (induction xs arbitrary: s a)
  case Nil
  then show ?case by simp
next
  case (Cons x xs)
  obtain s1 where "channel_step update remove x s = Some s1" "refines s1 (spec_step a x)"
    using refines_step Cons.prems by fastforce
  then show ?case using Cons.IH [of s1 "spec_step a x"] Cons.prems(2) by simp
qed

end

text \<open>A poll returns registered channels that are watched, each once, and changes nothing but the
  events that happened on them.\<close>

locale polling_contract = poller_contract +
  fixes poll :: "'a poller_scheme \<Rightarrow> (nat list \<times> 'a poller_scheme) option"
  assumes poll_active: "inv s \<Longrightarrow> channels_map s \<noteq> Map.empty \<Longrightarrow>
      \<exists>active s'. poll s = Some (active, s') \<and> inv s' \<and> channels_map s' = channels_map s \<and>
        view s' = view s \<and> handlers s' = handlers s \<and> (\<forall>d. fresh s d \<longrightarrow> fresh s' d) \<and> distinct active \<and>
        (\<forall>c \<in> set active. \<exists>fd. channels_map s fd = Some c \<and> interest s fd \<noteq> None)"
begin

lemma refines_poll:
  assumes "refines s a" and "sp_registered a \<noteq> Map.empty"
  shows "\<exists>active s'. poll s = Some (active, s') \<and> refines s' a \<and> distinct active \<and>
    (\<forall>c \<in> set active. \<exists>fd. sp_registered a fd = Some c \<and> spec_interest a fd \<noteq> None)"
  using poll_active [of s] assms refines_interest [OF assms(1)] unfolding refines_def by metis

end

end
