(* ===== verification/PollPoller.thy ===== *)
theory PollPoller
  imports Poller
begin

text \<open>
  The poller over \<open>poll(2)\<close> (\<open>src/net/poller/PollPoller.h\<close>, \<open>src/net/poller/PollPoller.cc\<close>).
  The index of a registered channel is its position in the array of descriptors; removal moves
  the last entry into the gap. The system call is the argument \<open>sys_poll\<close>: from the array and
  the timeout it gives the result and the array with the events that happened. All operations
  run on the thread of the loop.
\<close>

record pollfd =
  pfd_fd :: int
  pfd_events :: "16 word"
  pfd_revents :: "16 word"

record poll_poller = poller +
  pp_pollfds :: "pollfd list"

definition PollPoller_ctor :: "(nat \<rightharpoonup> channel) \<Rightarrow> poll_poller" where
  "PollPoller_ctor heap = \<lparr>chans = heap, channels_map = Map.empty, pp_pollfds = []\<rparr>"

fun PollPoller_fillActiveChannels ::
    "pollfd list \<Rightarrow> int \<Rightarrow> nat list \<Rightarrow> poll_poller \<Rightarrow> (nat list \<times> poll_poller) option" where
  "PollPoller_fillActiveChannels [] numEvents activeChannels s = Some (activeChannels, s)"
| "PollPoller_fillActiveChannels (pfd # pfds) numEvents activeChannels s =
     (if numEvents > 0 then
        (if sint (pfd_revents pfd) > 0 then do {
           c \<leftarrow> channels_map s (pfd_fd pfd);
           ch \<leftarrow> chans s c;
           cassert (ch_fd ch = pfd_fd pfd);
           s \<leftarrow> set_revents c (scast (pfd_revents pfd)) s;
           PollPoller_fillActiveChannels pfds (numEvents - 1) (activeChannels @ [c]) s }
         else PollPoller_fillActiveChannels pfds numEvents activeChannels s)
      else Some (activeChannels, s))"

definition PollPoller_poll ::
    "(pollfd list \<Rightarrow> int \<Rightarrow> int \<times> pollfd list) \<Rightarrow> timestamp \<Rightarrow> int \<Rightarrow> nat list \<Rightarrow> poll_poller \<Rightarrow>
     (timestamp \<times> nat list \<times> poll_poller) option" where
  "PollPoller_poll sys_poll now timeoutMs activeChannels s = do {
     cassert (pp_pollfds s \<noteq> []);
     let (numEvents, pfds) = sys_poll (pp_pollfds s) timeoutMs;
     let s = s\<lparr>pp_pollfds := pfds\<rparr>;
     (if numEvents > 0 then do {
        (activeChannels, s) \<leftarrow> PollPoller_fillActiveChannels pfds numEvents activeChannels s;
        Some (now, activeChannels, s) }
      else Some (now, activeChannels, s)) }"

definition PollPoller_updateChannel :: "nat \<Rightarrow> poll_poller \<Rightarrow> poll_poller option" where
  "PollPoller_updateChannel c s = do {
     ch \<leftarrow> chans s c;
     (if ch_index ch < 0 then do {
        cassert (channels_map s (ch_fd ch) = None);
        let pfd = \<lparr>pfd_fd = ch_fd ch, pfd_events = ucast (ch_events ch), pfd_revents = 0\<rparr>;
        let s = s\<lparr>pp_pollfds := pp_pollfds s @ [pfd]\<rparr>;
        let idx = to_int32 (length (pp_pollfds s)) - 1;
        s \<leftarrow> set_index c idx s;
        Some (s\<lparr>channels_map := (channels_map s)(pfd_fd pfd \<mapsto> c)\<rparr>) }
      else do {
        cassert (channels_map s (ch_fd ch) \<noteq> None);
        cassert (channels_map s (ch_fd ch) = Some c);
        let idx = ch_index ch;
        cassert (0 \<le> idx \<and> idx < to_int32 (length (pp_pollfds s)));
        let pfd = pp_pollfds s ! nat idx;
        cassert (pfd_fd pfd = ch_fd ch \<or> pfd_fd pfd = - ch_fd ch - 1);
        let pfd = \<lparr>pfd_fd = ch_fd ch, pfd_events = ucast (ch_events ch), pfd_revents = 0\<rparr>;
        let pfd = (if isNoneEvent ch then pfd\<lparr>pfd_fd := - ch_fd ch - 1\<rparr> else pfd);
        Some (s\<lparr>pp_pollfds := (pp_pollfds s)[nat idx := pfd]\<rparr>) }) }"

definition PollPoller_removeChannel :: "nat \<Rightarrow> poll_poller \<Rightarrow> poll_poller option" where
  "PollPoller_removeChannel c s = do {
     ch \<leftarrow> chans s c;
     cassert (channels_map s (ch_fd ch) \<noteq> None);
     cassert (channels_map s (ch_fd ch) = Some c);
     cassert (isNoneEvent ch);
     let idx = ch_index ch;
     cassert (0 \<le> idx \<and> idx < to_int32 (length (pp_pollfds s)));
     let pfd = pp_pollfds s ! nat idx;
     cassert (pfd_fd pfd = - ch_fd ch - 1 \<and> scast (pfd_events pfd) = ch_events ch);
     let s = s\<lparr>channels_map := (channels_map s)(ch_fd ch := None)\<rparr>;
     (if nat idx = length (pp_pollfds s) - 1
      then Some (s\<lparr>pp_pollfds := butlast (pp_pollfds s)\<rparr>)
      else do {
        let channelAtEnd = pfd_fd (last (pp_pollfds s));
        let s = s\<lparr>pp_pollfds := (pp_pollfds s)[nat idx := last (pp_pollfds s),
                                              length (pp_pollfds s) - 1 := pp_pollfds s ! nat idx]\<rparr>;
        let channelAtEnd = (if channelAtEnd < 0 then - channelAtEnd - 1 else channelAtEnd);
        d \<leftarrow> channels_map s channelAtEnd;
        s \<leftarrow> set_index d idx s;
        Some (s\<lparr>pp_pollfds := butlast (pp_pollfds s)\<rparr>) }) }"

subsection \<open>The array and the channels\<close>

definition pfd_ok :: "pollfd \<Rightarrow> channel \<Rightarrow> bool" where
  "pfd_ok p ch \<longleftrightarrow> pfd_fd p = (if ch_events ch = 0 then - ch_fd ch - 1 else ch_fd ch) \<and>
     pfd_events p = ucast (ch_events ch)"

definition entry_of :: "poll_poller \<Rightarrow> int \<Rightarrow> channel \<Rightarrow> bool" where
  "entry_of s fd ch \<longleftrightarrow> ch_fd ch = fd \<and> 0 \<le> fd \<and> fd < int_max \<and> event_ok (ch_events ch) \<and>
     0 \<le> ch_index ch \<and> nat (ch_index ch) < length (pp_pollfds s) \<and>
     pfd_ok (pp_pollfds s ! nat (ch_index ch)) ch"

definition pp_inv :: "poll_poller \<Rightarrow> bool" where
  "pp_inv s \<longleftrightarrow>
     (\<forall>fd c. channels_map s fd = Some c \<longrightarrow> (\<exists>ch. chans s c = Some ch \<and> entry_of s fd ch)) \<and>
     (\<forall>i < length (pp_pollfds s). \<exists>c ch. chans s c = Some ch \<and>
        channels_map s (ch_fd ch) = Some c \<and> ch_index ch = int i)"

lemma pp_invD:
  assumes "pp_inv s"
  shows "channels_map s fd = Some c \<Longrightarrow> \<exists>ch. chans s c = Some ch \<and> entry_of s fd ch"
    and "i < length (pp_pollfds s) \<Longrightarrow>
      \<exists>c ch. chans s c = Some ch \<and> channels_map s (ch_fd ch) = Some c \<and> ch_index ch = int i"
  using assms unfolding pp_inv_def by blast+

lemma pp_invI:
  assumes "\<And>fd c. channels_map s fd = Some c \<Longrightarrow> \<exists>ch. chans s c = Some ch \<and> entry_of s fd ch"
    and "\<And>i. i < length (pp_pollfds s) \<Longrightarrow>
      \<exists>c ch. chans s c = Some ch \<and> channels_map s (ch_fd ch) = Some c \<and> ch_index ch = int i"
  shows "pp_inv s"
  using assms unfolding pp_inv_def by blast

lemma pp_inv_entry:
  assumes "pp_inv s" and "i < length (pp_pollfds s)"
  obtains c ch where "chans s c = Some ch" and "channels_map s (ch_fd ch) = Some c"
    and "ch_index ch = int i" and "pfd_ok (pp_pollfds s ! i) ch" and "entry_of s (ch_fd ch) ch"
proof -
  obtain c ch where c: "chans s c = Some ch" "channels_map s (ch_fd ch) = Some c" "ch_index ch = int i"
    using pp_invD(2) [OF assms] by blast
  have "entry_of s (ch_fd ch) ch" using pp_invD(1) [OF assms(1) c(2)] c(1) by simp
  then show ?thesis using that [OF c] c(3) by (simp add: entry_of_def)
qed

text \<open>Two registered channels have different positions.\<close>

lemma pp_inv_index_inj:
  assumes "pp_inv s" and "channels_map s fd = Some c" and "channels_map s fd' = Some c'"
    and "chans s c = Some ch" and "chans s c' = Some ch'" and "ch_index ch = ch_index ch'"
  shows "fd = fd' \<and> c = c'"
proof -
  have "entry_of s fd ch" "entry_of s fd' ch'"
    using pp_invD(1) [OF assms(1,2)] pp_invD(1) [OF assms(1,3)] assms(4,5) by auto
  then have "ch_fd ch = fd" "ch_fd ch' = fd'" "pfd_ok (pp_pollfds s ! nat (ch_index ch)) ch"
    "pfd_ok (pp_pollfds s ! nat (ch_index ch)) ch'" "0 \<le> fd" "0 \<le> fd'"
    using assms(6) by (auto simp: entry_of_def)
  then have "fd = fd'" by (auto simp: pfd_ok_def split: if_splits)
  then show ?thesis using assms(2,3) by simp
qed

lemma pp_inv_length: "pp_inv s \<Longrightarrow> int (length (pp_pollfds s)) \<le> int_max"
proof -
  assume inv: "pp_inv s"
  define rfd where "rfd i = (let f = pfd_fd (pp_pollfds s ! i) in if f < 0 then - f - 1 else f)" for i
  have fd: "\<exists>c ch. chans s c = Some ch \<and> channels_map s (rfd i) = Some c \<and> ch_index ch = int i \<and>
      0 \<le> rfd i \<and> rfd i < int_max" if i: "i < length (pp_pollfds s)" for i
  proof -
    obtain c ch where c: "chans s c = Some ch" "channels_map s (ch_fd ch) = Some c" "ch_index ch = int i"
      "pfd_ok (pp_pollfds s ! i) ch" "entry_of s (ch_fd ch) ch" by (rule pp_inv_entry [OF inv i])
    then have "rfd i = ch_fd ch" by (auto simp: rfd_def pfd_ok_def entry_of_def Let_def)
    then show ?thesis using c by (auto simp: entry_of_def)
  qed
  have "inj_on rfd {..<length (pp_pollfds s)}"
  proof (rule inj_onI)
    fix i j assume ij: "i \<in> {..<length (pp_pollfds s)}" "j \<in> {..<length (pp_pollfds s)}" "rfd i = rfd j"
    obtain c ch where c: "chans s c = Some ch" "channels_map s (rfd i) = Some c" "ch_index ch = int i"
      using fd [of i] ij(1) by blast
    obtain d dh where "chans s d = Some dh" "channels_map s (rfd j) = Some d" "ch_index dh = int j"
      using fd [of j] ij(2) by blast
    with c ij(3) show "i = j" by simp
  qed
  then have "card {..<length (pp_pollfds s)} \<le> card {0..<int_max}"
  proof (rule card_inj_on_le)
    show "rfd ` {..<length (pp_pollfds s)} \<subseteq> {0..<int_max}"
    proof
      fix x assume "x \<in> rfd ` {..<length (pp_pollfds s)}"
      then obtain i where "x = rfd i" "i < length (pp_pollfds s)" by blast
      then show "x \<in> {0..<int_max}" using fd [of i] by auto
    qed
  qed simp
  moreover have "0 \<le> int_max" by (simp add: int_max_def)
  ultimately show ?thesis by simp
qed

subsection \<open>The operations keep the array consistent\<close>

text \<open>The kernel skips entries with a negative descriptor.\<close>

definition pp_interest :: "poll_poller \<Rightarrow> int \<Rightarrow> events option" where
  "pp_interest s fd = (if fd < 0 then None
     else map_option (\<lambda>p. ucast (pfd_events p)) (find (\<lambda>p. pfd_fd p = fd) (pp_pollfds s)))"

lemma registered_not_fresh:
  assumes "pp_inv s" and "fresh s c"
  shows "channels_map s fd \<noteq> Some c"
  using pp_invD(1) [OF assms(1), of fd c] assms(2) by (auto simp: fresh_def entry_of_def)

lemma pp_update_new:
  assumes inv: "pp_inv s" and view: "view s c = Some (fd, ev0)" and fr: "fresh s c"
    and none: "channels_map s fd = None" and fd: "0 \<le> fd" "fd < int_max"
    and ok: "event_ok ev" "ev \<noteq> 0"
  shows "\<exists>s'. PollPoller_updateChannel c (with_events c ev s) = Some s' \<and> pp_inv s' \<and>
    channels_map s' = (channels_map s)(fd \<mapsto> c) \<and> view s' = (view s)(c \<mapsto> (fd, ev)) \<and>
    (\<forall>d. d \<noteq> c \<longrightarrow> fresh s d \<longrightarrow> fresh s' d) \<and> handlers s' = handlers s"
proof -
  obtain ch where ch: "chans s c = Some ch" "ch_fd ch = fd" "ch_index ch = -1"
    using view fr by (auto simp: view_def fresh_def)
  let ?n = "length (pp_pollfds s)"
  define ch' where "ch' = ch\<lparr>ch_events := ev, ch_addedToLoop := True, ch_index := int ?n\<rparr>"
  define p where "p = \<lparr>pfd_fd = fd, pfd_events = ucast ev, pfd_revents = 0\<rparr>"
  define s' where "s' = s\<lparr>chans := (chans s)(c \<mapsto> ch'), channels_map := (channels_map s)(fd \<mapsto> c),
    pp_pollfds := pp_pollfds s @ [p]\<rparr>"
  have new: "entry_of s' fd ch'"
    using ch fd ok by (simp add: entry_of_def s'_def ch'_def p_def pfd_ok_def)
  have old: "entry_of s' fd' d" if "entry_of s fd' d" for fd' d
    using that by (auto simp: entry_of_def s'_def nth_append)
  have inv': "pp_inv s'"
  proof (rule pp_invI)
    fix fd' d assume "channels_map s' fd' = Some d"
    then have "fd' = fd \<and> d = c \<or> channels_map s fd' = Some d \<and> d \<noteq> c"
      using registered_not_fresh [OF inv fr] by (auto simp: s'_def split: if_splits)
    then show "\<exists>ch. chans s' d = Some ch \<and> entry_of s' fd' ch"
      using new old pp_invD(1) [OF inv, of fd' d] by (auto simp: s'_def)
  next
    fix i assume "i < length (pp_pollfds s')"
    then consider "i < ?n" | "i = ?n" by (fastforce simp: s'_def less_Suc_eq)
    then show "\<exists>c ch. chans s' c = Some ch \<and> channels_map s' (ch_fd ch) = Some c \<and> ch_index ch = int i"
    proof cases
      case 1
      then obtain d dh where d: "chans s d = Some dh" "channels_map s (ch_fd dh) = Some d" "ch_index dh = int i"
        using pp_invD(2) [OF inv] by blast
      then have "d \<noteq> c" "ch_fd dh \<noteq> fd" using registered_not_fresh [OF inv fr] none by auto
      then show ?thesis using d by (auto simp: s'_def)
    next
      case 2
      have "chans s' c = Some ch'" "channels_map s' (ch_fd ch') = Some c" "ch_index ch' = int i"
        using 2 ch by (simp_all add: s'_def ch'_def)
      then show ?thesis by blast
    qed
  qed
  have "to_int32 (Suc ?n) = int (Suc ?n)"
    using pp_inv_length [OF inv'] by (intro to_int32_small) (simp add: s'_def)
  then have "PollPoller_updateChannel c (with_events c ev s) = Some s'"
    using ch none by (simp add: PollPoller_updateChannel_def with_events_def set_index_def s'_def ch'_def p_def)
  moreover have "view s' = (view s)(c \<mapsto> (fd, ev))" "handlers s' = handlers s"
    using ch by (auto simp: view_def handlers_def s'_def ch'_def fun_eq_iff)
  moreover have "fresh s' d" if "d \<noteq> c" "fresh s d" for d using that by (simp add: fresh_def s'_def)
  ultimately show ?thesis using inv' by (auto simp: s'_def)
qed

lemma pp_update_old:
  assumes inv: "pp_inv s" and view: "view s c = Some (fd, ev0)" and reg: "channels_map s fd = Some c"
    and ok: "event_ok ev"
  shows "\<exists>s'. PollPoller_updateChannel c (with_events c ev s) = Some s' \<and> pp_inv s' \<and>
    channels_map s' = channels_map s \<and> view s' = (view s)(c \<mapsto> (fd, ev)) \<and>
    (\<forall>d. d \<noteq> c \<longrightarrow> fresh s d \<longrightarrow> fresh s' d) \<and> handlers s' = handlers s"
proof -
  obtain ch where ch: "chans s c = Some ch" "entry_of s fd ch" using pp_invD(1) [OF inv reg] by blast
  define i where "i = nat (ch_index ch)"
  have i: "ch_index ch = int i" "i < length (pp_pollfds s)" "ch_fd ch = fd" "0 \<le> fd" "fd < int_max"
    "pfd_ok (pp_pollfds s ! i) ch"
    using ch by (auto simp: i_def entry_of_def)
  define ch' where "ch' = ch\<lparr>ch_events := ev, ch_addedToLoop := True\<rparr>"
  define p where "p = \<lparr>pfd_fd = (if ev = 0 then - fd - 1 else fd), pfd_events = ucast ev, pfd_revents = 0\<rparr>"
  define s' where "s' = s\<lparr>chans := (chans s)(c \<mapsto> ch'), pp_pollfds := (pp_pollfds s)[i := p]\<rparr>"
  have new: "entry_of s' fd ch'" using i ok by (simp add: entry_of_def s'_def ch'_def p_def pfd_ok_def)
  have inv': "pp_inv s'"
  proof (rule pp_invI)
    fix fd' d assume d: "channels_map s' fd' = Some d"
    then have reg': "channels_map s fd' = Some d" by (simp add: s'_def)
    obtain dh where dh: "chans s d = Some dh" "entry_of s fd' dh" using pp_invD(1) [OF inv reg'] by blast
    show "\<exists>ch. chans s' d = Some ch \<and> entry_of s' fd' ch"
    proof (cases "d = c")
      case True
      then have "fd' = fd" using ch dh by (auto simp: entry_of_def)
      then show ?thesis using True new by (simp add: s'_def)
    next
      case False
      then have "ch_index dh \<noteq> ch_index ch" using pp_inv_index_inj [OF inv reg' reg dh(1) ch(1)] by blast
      then have "entry_of s' fd' dh" using dh(2) i by (auto simp: entry_of_def s'_def)
      then show ?thesis using False dh(1) by (simp add: s'_def)
    qed
  next
    fix j assume "j < length (pp_pollfds s')"
    then obtain d dh where "chans s d = Some dh" "channels_map s (ch_fd dh) = Some d" "ch_index dh = int j"
      using pp_invD(2) [OF inv, of j] by (auto simp: s'_def)
    then show "\<exists>c ch. chans s' c = Some ch \<and> channels_map s' (ch_fd ch) = Some c \<and> ch_index ch = int j"
      using ch(1) by (cases "d = c") (auto simp: s'_def ch'_def)
  qed
  have "to_int32 (length (pp_pollfds s)) = int (length (pp_pollfds s))"
    using pp_inv_length [OF inv] by (rule to_int32_small)
  then have "PollPoller_updateChannel c (with_events c ev s) = Some s'"
    using ch(1) i reg
    by (auto simp: PollPoller_updateChannel_def with_events_def s'_def ch'_def p_def isNoneEvent_def
        kNoneEvent_def pfd_ok_def Let_def split: if_splits)
  moreover have "view s' = (view s)(c \<mapsto> (fd, ev))" "handlers s' = handlers s"
    using ch(1) i(3) by (auto simp: view_def handlers_def s'_def ch'_def fun_eq_iff)
  moreover have "fresh s' d" if "d \<noteq> c" "fresh s d" for d using that by (simp add: fresh_def s'_def)
  ultimately show ?thesis using inv' by (auto simp: s'_def)
qed

text \<open>Taking the last entry out, and moving the last entry into the place of another.\<close>

lemma pp_inv_pop:
  assumes inv: "pp_inv s" and reg: "channels_map s fd = Some c"
    and ch: "chans s c = Some ch" "ch_index ch = int (length (pp_pollfds s) - 1)"
  shows "pp_inv (s\<lparr>chans := (chans s)(c \<mapsto> ch'), channels_map := (channels_map s)(fd := None),
    pp_pollfds := butlast (pp_pollfds s)\<rparr>)" (is "pp_inv ?s")
proof (rule pp_invI)
  let ?n = "length (pp_pollfds s)"
  have fd: "ch_fd ch = fd" using pp_invD(1) [OF inv reg] ch by (auto simp: entry_of_def)
  {
    fix fd' d assume "channels_map ?s fd' = Some d"
    then have d: "channels_map s fd' = Some d" "fd' \<noteq> fd" by (auto split: if_splits)
    obtain dh where dh: "chans s d = Some dh" "entry_of s fd' dh" using pp_invD(1) [OF inv d(1)] by blast
    have dc: "d \<noteq> c" using dh ch fd d(2) by (auto simp: entry_of_def)
    have "ch_index dh \<noteq> ch_index ch" using pp_inv_index_inj [OF inv d(1) reg dh(1) ch(1)] dc by blast
    then have "nat (ch_index dh) < ?n - 1" using ch(2) dh(2) unfolding entry_of_def by linarith
    then have "entry_of ?s fd' dh" using dh(2) by (auto simp: entry_of_def nth_butlast)
    then show "\<exists>ch. chans ?s d = Some ch \<and> entry_of ?s fd' ch" using dc dh(1) by simp
  next
    fix j assume "j < length (pp_pollfds ?s)"
    then have j: "j < ?n" "int j \<noteq> ch_index ch" using ch(2) by auto
    obtain d dh where d: "chans s d = Some dh" "channels_map s (ch_fd dh) = Some d" "ch_index dh = int j"
      using pp_invD(2) [OF inv j(1)] by blast
    then have "d \<noteq> c" "ch_fd dh \<noteq> fd" using j(2) ch reg by auto
    then show "\<exists>c ch. chans ?s c = Some ch \<and> channels_map ?s (ch_fd ch) = Some c \<and> ch_index ch = int j"
      using d by auto
  }
qed

lemma pp_inv_move:
  assumes inv: "pp_inv s" and reg: "channels_map s fd = Some c" "channels_map s (ch_fd eh) = Some e"
    and ch: "chans s c = Some ch" "ch_index ch = int i" "i < length (pp_pollfds s) - 1"
    and eh: "chans s e = Some eh" "ch_index eh = int (length (pp_pollfds s) - 1)"
  shows "pp_inv (s\<lparr>chans := (chans s)(c \<mapsto> ch', e \<mapsto> eh\<lparr>ch_index := int i\<rparr>),
    channels_map := (channels_map s)(fd := None),
    pp_pollfds := butlast ((pp_pollfds s)[i := pp_pollfds s ! (length (pp_pollfds s) - 1)])\<rparr>)" (is "pp_inv ?s")
proof (rule pp_invI)
  let ?P = "pp_pollfds s" and ?n = "length (pp_pollfds s)"
  have fd: "ch_fd ch = fd" using pp_invD(1) [OF inv reg(1)] ch by (auto simp: entry_of_def)
  have ec: "e \<noteq> c" "ch_fd eh \<noteq> fd" using ch eh reg by auto
  have nth: "pp_pollfds ?s ! i = ?P ! (?n - 1)" "length (pp_pollfds ?s) = ?n - 1"
    "\<And>j. j < ?n - 1 \<Longrightarrow> j \<noteq> i \<Longrightarrow> pp_pollfds ?s ! j = ?P ! j"
    using ch(3) by (simp_all add: nth_butlast)
  have "entry_of s (ch_fd eh) eh" using pp_invD(1) [OF inv reg(2)] eh(1) by simp
  then have "pfd_ok (?P ! (?n - 1)) eh" "0 \<le> ch_fd eh" "ch_fd eh < int_max" "event_ok (ch_events eh)"
    unfolding entry_of_def eh(2) nat_int by blast+
  then have new: "entry_of ?s (ch_fd eh) (eh\<lparr>ch_index := int i\<rparr>)"
    using ch(3) nth(1,2) by (simp add: entry_of_def pfd_ok_def)
  {
    fix fd' d assume "channels_map ?s fd' = Some d"
    then have d: "channels_map s fd' = Some d" "fd' \<noteq> fd" by (auto split: if_splits)
    obtain dh where dh: "chans s d = Some dh" "entry_of s fd' dh" using pp_invD(1) [OF inv d(1)] by blast
    have dc: "d \<noteq> c" using dh ch fd d(2) by (auto simp: entry_of_def)
    show "\<exists>ch. chans ?s d = Some ch \<and> entry_of ?s fd' ch"
    proof (cases "d = e")
      case True
      then have "fd' = ch_fd eh" using dh eh(1) by (auto simp: entry_of_def)
      then show ?thesis using new True by simp
    next
      case False
      have "ch_index dh \<noteq> ch_index ch" "ch_index dh \<noteq> ch_index eh"
        using pp_inv_index_inj [OF inv d(1) reg(1) dh(1) ch(1)] dc
          pp_inv_index_inj [OF inv d(1) reg(2) dh(1) eh(1)] False by blast+
      then have j: "nat (ch_index dh) \<noteq> i" "nat (ch_index dh) < ?n - 1"
        using ch(2) eh(2) dh(2) unfolding entry_of_def by linarith+
      then have "entry_of ?s fd' dh" using dh(2) nth(2) nth(3) [OF j(2,1)] by (simp add: entry_of_def)
      then show ?thesis using dc False dh(1) by simp
    qed
  next
    fix j assume "j < length (pp_pollfds ?s)"
    then have j: "j < ?n" "j < ?n - 1" using nth(2) by auto
    obtain d dh where d: "chans s d = Some dh" "channels_map s (ch_fd dh) = Some d" "ch_index dh = int j"
      using pp_invD(2) [OF inv j(1)] by blast
    have "\<exists>c ch. chans ?s c = Some ch \<and> channels_map ?s (ch_fd ch) = Some c \<and> ch_index ch = int j" if "j \<noteq> i"
    proof -
      have "d \<noteq> c" "ch_fd dh \<noteq> fd" "d \<noteq> e" using that d ch eh reg j(2) by auto
      then show ?thesis using d by auto
    qed
    moreover have "channels_map ?s (ch_fd (eh\<lparr>ch_index := int i\<rparr>)) = Some e" using reg(2) ec by simp
    ultimately show "\<exists>c ch. chans ?s c = Some ch \<and> channels_map ?s (ch_fd ch) = Some c \<and> ch_index ch = int j"
      by (cases "j = i") fastforce+
  }
qed

lemma pp_remove_old:
  assumes inv: "pp_inv s" and view: "view s c = Some (fd, 0)" and reg: "channels_map s fd = Some c"
  shows "\<exists>s'. PollPoller_removeChannel c (not_added c s) = Some s' \<and> pp_inv s' \<and>
    channels_map s' = (channels_map s)(fd := None) \<and> view s' = view s \<and>
    (\<forall>d. d \<noteq> c \<longrightarrow> fresh s d \<longrightarrow> fresh s' d) \<and> handlers s' = handlers s"
proof -
  let ?P = "pp_pollfds s" and ?n = "length (pp_pollfds s)"
  obtain ch where ch: "chans s c = Some ch" "entry_of s fd ch" using pp_invD(1) [OF inv reg] by blast
  define i where "i = nat (ch_index ch)"
  have i: "ch_index ch = int i" "i < ?n" "ch_fd ch = fd" "0 \<le> fd" "pfd_ok (?P ! i) ch" "ch_events ch = 0"
    using ch view by (auto simp: i_def entry_of_def view_def)
  have len: "to_int32 ?n = int ?n" using pp_inv_length [OF inv] by (rule to_int32_small)
  define ch' where "ch' = ch\<lparr>ch_addedToLoop := False\<rparr>"
  obtain e eh where e: "chans s e = Some eh" "channels_map s (ch_fd eh) = Some e" "ch_index eh = int (?n - 1)"
    "pfd_ok (?P ! (?n - 1)) eh" "entry_of s (ch_fd eh) eh"
    by (rule pp_inv_entry [OF inv, of "?n - 1"]) (use i(2) in auto)
  show ?thesis
  proof (cases "i = ?n - 1")
    case True
    define s' where "s' = s\<lparr>chans := (chans s)(c \<mapsto> ch'), channels_map := (channels_map s)(fd := None),
      pp_pollfds := butlast ?P\<rparr>"
    have "pp_inv s'" unfolding s'_def by (rule pp_inv_pop [OF inv reg ch(1)]) (simp add: i(1) True)
    moreover have "PollPoller_removeChannel c (not_added c s) = Some s'"
      using ch(1) i reg len True
      by (auto simp: PollPoller_removeChannel_def not_added_def s'_def ch'_def isNoneEvent_def kNoneEvent_def
          pfd_ok_def Let_def)
    moreover have "view s' = view s" "\<forall>d. d \<noteq> c \<longrightarrow> fresh s d \<longrightarrow> fresh s' d" "handlers s' = handlers s"
      using ch(1) by (auto simp: view_def handlers_def s'_def ch'_def fresh_def fun_eq_iff)
    ultimately show ?thesis by (auto simp: s'_def)
  next
    case False
    define s' where "s' = s\<lparr>chans := (chans s)(c \<mapsto> ch', e \<mapsto> eh\<lparr>ch_index := int i\<rparr>),
      channels_map := (channels_map s)(fd := None), pp_pollfds := butlast (?P[i := ?P ! (?n - 1)])\<rparr>"
    have ec: "e \<noteq> c" "ch_fd eh \<noteq> fd" using e(1-3) ch(1) i False reg by auto
    have last: "last ?P = ?P ! (?n - 1)" using i(2) by (intro last_conv_nth) auto
    have ae: "pfd_fd (last ?P) < 0 \<and> - pfd_fd (last ?P) - 1 = ch_fd eh \<or>
        \<not> pfd_fd (last ?P) < 0 \<and> pfd_fd (last ?P) = ch_fd eh"
      using e(4,5) last by (auto simp: pfd_ok_def entry_of_def)
    have bl: "butlast (?P[i := x, ?n - 1 := y]) = butlast (?P[i := x])" for x y
      using i(2) by (simp add: butlast_list_update)
    have "pp_inv s'" unfolding s'_def
      by (rule pp_inv_move [OF inv reg e(2) ch(1) i(1) _ e(1,3)]) (use i(2) False in simp)
    moreover have "PollPoller_removeChannel c (not_added c s) = Some s'"
      using ae ch(1) i reg len False e(1,2) ec bl unfolding s'_def last [symmetric]
      by (elim disjE) (simp_all add: PollPoller_removeChannel_def not_added_def ch'_def isNoneEvent_def
          kNoneEvent_def pfd_ok_def set_index_def Let_def)
    moreover have "view s' = view s" "handlers s' = handlers s"
      using ch(1) e(1) ec by (auto simp: view_def handlers_def s'_def ch'_def fun_eq_iff)
    moreover have "fresh s' d" if "d \<noteq> c" "fresh s d" for d
      using that e(1,3) by (auto simp: fresh_def s'_def)
    ultimately show ?thesis by (auto simp: s'_def)
  qed
qed

subsection \<open>What the kernel watches\<close>

lemma event_ok_ucast:
  assumes "event_ok ev"
  shows "ucast (ucast ev :: 16 word) = ev"
proof (rule bit_word_eqI)
  fix n assume "n < LENGTH(32)"
  then show "bit (ucast (ucast ev :: 16 word) :: events) n = bit ev n"
    using event_ok_bits [OF assms, of n] by (auto simp: bit_simps)
qed

lemma pp_interest_events:
  assumes inv: "pp_inv s"
  shows "pp_interest s fd = (case channels_map s fd of None \<Rightarrow> None
    | Some c \<Rightarrow> (case view s c of None \<Rightarrow> None | Some (_, ev) \<Rightarrow> if ev = 0 then None else Some ev))"
proof (cases "find (\<lambda>p. pfd_fd p = fd) (pp_pollfds s)")
  case None
  have "ch_events ch = 0" if "channels_map s fd = Some c" "chans s c = Some ch" for c ch
  proof (rule ccontr)
    assume "ch_events ch \<noteq> 0"
    moreover have "entry_of s fd ch" using pp_invD(1) [OF inv that(1)] that(2) by simp
    ultimately show False using None by (auto simp: find_None_iff entry_of_def pfd_ok_def)
  qed
  then show ?thesis using None by (auto simp: pp_interest_def view_def split: option.splits)
next
  case (Some p)
  then obtain i where i: "i < length (pp_pollfds s)" "pp_pollfds s ! i = p" "pfd_fd p = fd"
    by (auto simp: find_Some_iff)
  obtain c ch where c: "chans s c = Some ch" "channels_map s (ch_fd ch) = Some c" "ch_index ch = int i"
    "pfd_ok (pp_pollfds s ! i) ch" "entry_of s (ch_fd ch) ch" by (rule pp_inv_entry [OF inv i(1)])
  show ?thesis
  proof (cases "fd < 0")
    case True
    then have "channels_map s fd = None" using pp_invD(1) [OF inv, of fd] by (force simp: entry_of_def)
    then show ?thesis using True by (simp add: pp_interest_def)
  next
    case False
    then have "ch_fd ch = fd" "ch_events ch \<noteq> 0" "pfd_events p = ucast (ch_events ch)"
      using c(4,5) i by (auto simp: pfd_ok_def entry_of_def split: if_splits)
    then show ?thesis
      using Some False c(1,2,5) by (simp add: pp_interest_def view_def event_ok_ucast entry_of_def)
  qed
qed

text \<open>What \<open>poll(2)\<close> documents: it keeps the descriptors and the requested events, reports nothing
  for a negative descriptor, and returns the number of entries with events, or fails.\<close>

definition poll_ok :: "(pollfd list \<Rightarrow> int \<Rightarrow> int \<times> pollfd list) \<Rightarrow> bool" where
  "poll_ok sys_poll \<longleftrightarrow> (\<forall>fds t. let (n, fds') = sys_poll fds t in
     map pfd_fd fds' = map pfd_fd fds \<and> map pfd_events fds' = map pfd_events fds \<and>
     (\<forall>p \<in> set fds'. 0 \<le> sint (pfd_revents p) \<and> (pfd_fd p < 0 \<longrightarrow> pfd_revents p = 0)) \<and>
     (0 \<le> n \<longrightarrow> n = int (length (filter (\<lambda>p. pfd_revents p \<noteq> 0) fds'))))"

lemma poll_okD:
  assumes "poll_ok sys_poll" and "sys_poll fds t = (n, fds')"
  shows "map pfd_fd fds' = map pfd_fd fds" and "map pfd_events fds' = map pfd_events fds"
    and "p \<in> set fds' \<Longrightarrow> 0 \<le> sint (pfd_revents p) \<and> (pfd_fd p < 0 \<longrightarrow> pfd_revents p = 0)"
    and "0 \<le> n \<Longrightarrow> n = int (length (filter (\<lambda>p. pfd_revents p \<noteq> 0) fds'))"
  using assms(1) [unfolded poll_ok_def, rule_format, of fds t] by (simp_all add: assms(2))

lemma sint_zero: "sint (x :: 16 word) = 0 \<Longrightarrow> x = 0"
  by (simp add: signed_eq_0_iff)

subsection \<open>Polling\<close>

text \<open>Only the events that happened differ.\<close>

definition revents_only :: "poll_poller \<Rightarrow> poll_poller \<Rightarrow> bool" where
  "revents_only s s' \<longleftrightarrow> (\<exists>f. s' = s\<lparr>chans := (\<lambda>c. map_option (\<lambda>ch. ch\<lparr>ch_revents := f c\<rparr>) (chans s c))\<rparr>)"

lemma revents_only_refl: "revents_only s s"
proof -
  have "chans s = (\<lambda>c. map_option (\<lambda>ch. ch\<lparr>ch_revents := ch_revents (the (chans s c))\<rparr>) (chans s c))"
    by (rule ext) (simp add: map_option_case split: option.splits)
  then show ?thesis unfolding revents_only_def
    by (intro exI [of _ "\<lambda>c. ch_revents (the (chans s c))"]) simp
qed

lemma revents_only_set:
  assumes "revents_only s s'" and "chans s c = Some ch"
  shows "revents_only s (s'\<lparr>chans := (chans s')(c \<mapsto> (the (chans s' c))\<lparr>ch_revents := r\<rparr>)\<rparr>)"
proof -
  obtain f where "s' = s\<lparr>chans := (\<lambda>c. map_option (\<lambda>ch. ch\<lparr>ch_revents := f c\<rparr>) (chans s c))\<rparr>"
    using assms(1) by (auto simp: revents_only_def)
  then show ?thesis using assms(2) unfolding revents_only_def
    by (intro exI [of _ "f(c := r)"]) (auto simp: fun_eq_iff)
qed

lemma revents_only_channels:
  assumes "revents_only s s'"
  shows "channels_map s' = channels_map s" and "pp_pollfds s' = pp_pollfds s" and "view s' = view s"
    and "fresh s' = fresh s" and "handlers s' = handlers s" and "pp_inv s \<Longrightarrow> pp_inv s'"
    and "chans s c = Some ch \<Longrightarrow> \<exists>r. chans s' c = Some (ch\<lparr>ch_revents := r\<rparr>)"
proof -
  obtain f where s': "s' = s\<lparr>chans := (\<lambda>c. map_option (\<lambda>ch. ch\<lparr>ch_revents := f c\<rparr>) (chans s c))\<rparr>"
    using assms by (auto simp: revents_only_def)
  show "channels_map s' = channels_map s" "pp_pollfds s' = pp_pollfds s" by (simp_all add: s')
  show "view s' = view s" by (simp add: s' view_def fun_eq_iff option.map_comp comp_def)
  show "handlers s' = handlers s" by (simp add: s' handlers_def fun_eq_iff option.map_comp comp_def)
  show "fresh s' = fresh s" by (auto simp: s' fresh_def fun_eq_iff)
  show "chans s c = Some ch \<Longrightarrow> \<exists>r. chans s' c = Some (ch\<lparr>ch_revents := r\<rparr>)" by (auto simp: s')
  have "entry_of s fd ch \<Longrightarrow> entry_of s' fd (ch\<lparr>ch_revents := r\<rparr>)" for fd ch r
    by (simp add: entry_of_def s' pfd_ok_def)
  then show "pp_inv s'" if "pp_inv s"
    using pp_invD [OF that] by (intro pp_invI) (fastforce simp: s')+
qed

abbreviation happened :: "pollfd \<Rightarrow> bool" where
  "happened p \<equiv> 0 < sint (pfd_revents p)"

lemma fillActiveChannels_spec:
  assumes "\<forall>p \<in> set fds. happened p \<longrightarrow>
      (\<exists>c ch. channels_map s (pfd_fd p) = Some c \<and> chans s c = Some ch \<and> ch_fd ch = pfd_fd p)"
    and "int (length (filter happened fds)) \<le> n" and "distinct (map pfd_fd fds)" and "revents_only s s1"
  shows "\<exists>s'. PollPoller_fillActiveChannels fds n active s1 =
      Some (active @ map (\<lambda>p. the (channels_map s (pfd_fd p))) (filter happened fds), s') \<and> revents_only s s' \<and>
    (\<forall>p c. p \<in> set fds \<longrightarrow> happened p \<longrightarrow> channels_map s (pfd_fd p) = Some c \<longrightarrow>
      ch_revents (the (chans s' c)) = scast (pfd_revents p)) \<and>
    (\<forall>c. (\<forall>p \<in> set fds. happened p \<longrightarrow> channels_map s (pfd_fd p) \<noteq> Some c) \<longrightarrow> chans s' c = chans s1 c)"
  using assms
proof (induction fds arbitrary: n active s1)
  case Nil
  then show ?case by simp
next
  case (Cons p fds)
  show ?case
  proof (cases "happened p")
    case False
    have n: "int (length (filter happened fds)) \<le> n" using Cons.prems(2) False by simp
    have "PollPoller_fillActiveChannels (p # fds) n active s1 = PollPoller_fillActiveChannels fds n active s1"
    proof (cases "0 < n")
      case pos: False
      then have "length (filter happened fds) = 0" using n by linarith
      then have "filter happened fds = []" by simp
      then have "\<And>p. p \<in> set fds \<Longrightarrow> \<not> happened p" by (simp add: filter_empty_conv)
      then show ?thesis using pos by (cases fds) simp_all
    qed (use False in simp)
    then show ?thesis using Cons.IH [of n s1 active] Cons.prems n False by auto
  next
    case True
    then have n: "0 < n" "int (length (filter happened fds)) \<le> n - 1" using Cons.prems(2) by auto
    obtain c ch where c: "channels_map s (pfd_fd p) = Some c" "chans s c = Some ch" "ch_fd ch = pfd_fd p"
      using Cons.prems(1) True by auto
    obtain r where r: "chans s1 c = Some (ch\<lparr>ch_revents := r\<rparr>)"
      using revents_only_channels(7) [OF Cons.prems(4) c(2)] by blast
    define s2 where "s2 = s1\<lparr>chans := (chans s1)(c \<mapsto> (the (chans s1 c))\<lparr>ch_revents := scast (pfd_revents p)\<rparr>)\<rparr>"
    have s2: "revents_only s s2" unfolding s2_def by (rule revents_only_set [OF Cons.prems(4) c(2)])
    have step: "PollPoller_fillActiveChannels (p # fds) n active s1 =
        PollPoller_fillActiveChannels fds (n - 1) (active @ [c]) s2"
      using n(1) True c r revents_only_channels(1) [OF Cons.prems(4)]
      by (simp add: set_revents_def s2_def)
    have other: "channels_map s (pfd_fd q) \<noteq> Some c" if "q \<in> set fds" "happened q" for q
    proof
      assume "channels_map s (pfd_fd q) = Some c"
      then have "pfd_fd q = pfd_fd p" using Cons.prems(1) that c by (metis list.set_intros(2) option.inject)
      then show False using Cons.prems(3) that(1) by (metis distinct.simps(2) list.simps(9) image_eqI list.set_map)
    qed
    have "\<forall>p \<in> set fds. happened p \<longrightarrow>
        (\<exists>c ch. channels_map s (pfd_fd p) = Some c \<and> chans s c = Some ch \<and> ch_fd ch = pfd_fd p)"
      "distinct (map pfd_fd fds)" using Cons.prems(1,3) by auto
    from Cons.IH [OF this(1) n(2) this(2) s2, of "active @ [c]"] obtain s' where s':
      "PollPoller_fillActiveChannels fds (n - 1) (active @ [c]) s2 =
        Some ((active @ [c]) @ map (\<lambda>p. the (channels_map s (pfd_fd p))) (filter happened fds), s')"
      "revents_only s s'"
      "\<forall>p c. p \<in> set fds \<longrightarrow> happened p \<longrightarrow> channels_map s (pfd_fd p) = Some c \<longrightarrow>
        ch_revents (the (chans s' c)) = scast (pfd_revents p)"
      "\<forall>c. (\<forall>p \<in> set fds. happened p \<longrightarrow> channels_map s (pfd_fd p) \<noteq> Some c) \<longrightarrow> chans s' c = chans s2 c"
      by blast
    have "ch_revents (the (chans s' c)) = scast (pfd_revents p)"
      using s'(4) other by (simp add: s2_def)
    then show ?thesis using s' step True c(1) by (auto simp: s2_def)
  qed
qed

lemma pollfds_update_inv:
  assumes "pp_inv s" and "map pfd_fd fds = map pfd_fd (pp_pollfds s)"
    and "map pfd_events fds = map pfd_events (pp_pollfds s)"
  shows "pp_inv (s\<lparr>pp_pollfds := fds\<rparr>)"
proof -
  have len: "length fds = length (pp_pollfds s)" using assms(2) by (metis length_map)
  have "pfd_fd (fds ! i) = pfd_fd (pp_pollfds s ! i) \<and> pfd_events (fds ! i) = pfd_events (pp_pollfds s ! i)"
    if "i < length fds" for i
    using assms(2,3) that len by (metis nth_map)
  then have "entry_of s fd ch \<Longrightarrow> entry_of (s\<lparr>pp_pollfds := fds\<rparr>) fd ch" for fd ch
    using len by (simp add: entry_of_def pfd_ok_def)
  then have "\<exists>ch. chans s c = Some ch \<and> entry_of (s\<lparr>pp_pollfds := fds\<rparr>) fd ch" if "channels_map s fd = Some c" for fd c
    using pp_invD(1) [OF assms(1) that] by blast
  then show ?thesis using pp_invD(2) [OF assms(1)] len by (intro pp_invI) simp_all
qed

lemma pollfds_distinct:
  assumes inv: "pp_inv s"
  shows "distinct (map pfd_fd (pp_pollfds s))"
proof (rule distinct_map_nth)
  fix i j assume ij: "i < length (pp_pollfds s)" "j < length (pp_pollfds s)"
    "pfd_fd (pp_pollfds s ! i) = pfd_fd (pp_pollfds s ! j)"
  obtain c ch where c: "chans s c = Some ch" "channels_map s (ch_fd ch) = Some c" "ch_index ch = int i"
    "pfd_ok (pp_pollfds s ! i) ch" "entry_of s (ch_fd ch) ch" by (rule pp_inv_entry [OF inv ij(1)])
  obtain d dh where d: "chans s d = Some dh" "channels_map s (ch_fd dh) = Some d" "ch_index dh = int j"
    "pfd_ok (pp_pollfds s ! j) dh" "entry_of s (ch_fd dh) dh" by (rule pp_inv_entry [OF inv ij(2)])
  have "ch_fd ch = ch_fd dh" using ij(3) c(4,5) d(4,5) by (auto simp: pfd_ok_def entry_of_def split: if_splits)
  then show "i = j" using c d by auto
qed

lemma pollfds_registered:
  assumes inv: "pp_inv s" and "p \<in> set (pp_pollfds s)" and "0 \<le> pfd_fd p"
  shows "\<exists>c ch. channels_map s (pfd_fd p) = Some c \<and> chans s c = Some ch \<and> ch_fd ch = pfd_fd p \<and> ch_events ch \<noteq> 0"
proof -
  obtain i where i: "i < length (pp_pollfds s)" "pp_pollfds s ! i = p" using assms(2) by (auto simp: in_set_conv_nth)
  obtain c ch where "chans s c = Some ch" "channels_map s (ch_fd ch) = Some c" "ch_index ch = int i"
    "pfd_ok (pp_pollfds s ! i) ch" "entry_of s (ch_fd ch) ch" by (rule pp_inv_entry [OF inv i(1)])
  then show ?thesis using i(2) assms(3) by (auto simp: pfd_ok_def entry_of_def split: if_splits)
qed

text \<open>The channels that a poll returns: those of the entries with events, in the order of the array.\<close>

definition active_channels :: "poll_poller \<Rightarrow> pollfd list \<Rightarrow> nat list" where
  "active_channels s fds = map (\<lambda>p. the (channels_map s (pfd_fd p))) (filter happened fds)"

lemma PollPoller_poll_spec:
  assumes inv: "pp_inv s" and ok: "poll_ok sys_poll" and ne: "pp_pollfds s \<noteq> []"
    and sys: "sys_poll (pp_pollfds s) t = (n, fds)"
  shows "\<exists>s'. PollPoller_poll sys_poll now t active s =
      Some (now, active @ (if 0 < n then active_channels s fds else []), s') \<and>
    pp_inv s' \<and> channels_map s' = channels_map s \<and> view s' = view s \<and> handlers s' = handlers s \<and> fresh s' = fresh s \<and>
    distinct (active_channels s fds) \<and>
    (\<forall>p \<in> set fds. happened p \<longrightarrow> (\<exists>c ch. channels_map s (pfd_fd p) = Some c \<and> chans s' c = Some ch \<and>
      ch_fd ch = pfd_fd p \<and> ch_events ch \<noteq> 0 \<and> (0 < n \<longrightarrow> ch_revents ch = scast (pfd_revents p))))"
proof -
  have p: "map pfd_fd fds = map pfd_fd (pp_pollfds s)" "map pfd_events fds = map pfd_events (pp_pollfds s)"
    "\<And>p. p \<in> set fds \<Longrightarrow> 0 \<le> sint (pfd_revents p) \<and> (pfd_fd p < 0 \<longrightarrow> pfd_revents p = 0)"
    "0 \<le> n \<Longrightarrow> n = int (length (filter (\<lambda>p. pfd_revents p \<noteq> 0) fds))"
    using poll_okD [OF ok sys] by simp_all
  let ?s = "s\<lparr>pp_pollfds := fds\<rparr>"
  have inv1: "pp_inv ?s" by (rule pollfds_update_inv [OF inv p(1,2)])
  have reg: "\<exists>c ch. channels_map ?s (pfd_fd p) = Some c \<and> chans ?s c = Some ch \<and> ch_fd ch = pfd_fd p \<and> ch_events ch \<noteq> 0"
    if "p \<in> set fds" "happened p" for p
    using pollfds_registered [OF inv1, of p] that p(3) [OF that(1)] by fastforce
  have le: "int (length (filter happened fds)) \<le> n" if "0 < n"
  proof -
    have "filter happened fds = filter (\<lambda>p. pfd_revents p \<noteq> 0) fds"
      using p(3) sint_zero by (intro filter_cong) (auto simp: order.order_iff_strict)
    then show ?thesis using p(4) that by simp
  qed
  have dis: "distinct (map pfd_fd fds)" using pollfds_distinct [OF inv] p(1) by simp
  have "inj_on (\<lambda>p. the (channels_map s (pfd_fd p))) (set (filter happened fds))"
  proof (rule inj_onI)
    fix x y assume "x \<in> set (filter happened fds)" "y \<in> set (filter happened fds)"
      "the (channels_map s (pfd_fd x)) = the (channels_map s (pfd_fd y))"
    then have "pfd_fd x = pfd_fd y" "x \<in> set fds" "y \<in> set fds" using reg [of x] reg [of y] by auto
    then show "x = y" using dis by (simp add: distinct_map inj_on_def)
  qed
  then have act: "distinct (active_channels s fds)"
    using dis by (simp add: active_channels_def distinct_map)
  show ?thesis
  proof (cases "0 < n")
    case True
    have reg': "\<forall>p \<in> set fds. happened p \<longrightarrow>
      (\<exists>c ch. channels_map ?s (pfd_fd p) = Some c \<and> chans ?s c = Some ch \<and> ch_fd ch = pfd_fd p)"
      using reg by blast
    obtain s' where s': "PollPoller_fillActiveChannels fds n active ?s = Some (active @ active_channels s fds, s')"
      "revents_only ?s s'"
      "\<forall>p c. p \<in> set fds \<longrightarrow> happened p \<longrightarrow> channels_map s (pfd_fd p) = Some c \<longrightarrow>
        ch_revents (the (chans s' c)) = scast (pfd_revents p)"
      using fillActiveChannels_spec [OF reg' le [OF True] dis revents_only_refl, of active]
      by (auto simp: active_channels_def)
    have "\<exists>c ch. channels_map s (pfd_fd p) = Some c \<and> chans s' c = Some ch \<and>
      ch_fd ch = pfd_fd p \<and> ch_events ch \<noteq> 0 \<and> ch_revents ch = scast (pfd_revents p)"
      if ph: "p \<in> set fds" "happened p" for p
    proof -
      obtain c ch where c: "channels_map ?s (pfd_fd p) = Some c" "chans ?s c = Some ch" "ch_fd ch = pfd_fd p"
        "ch_events ch \<noteq> 0" using reg [OF ph] by blast
      obtain r where r: "chans s' c = Some (ch\<lparr>ch_revents := r\<rparr>)"
        using revents_only_channels(7) [OF s'(2) c(2)] by blast
      then show ?thesis using c s'(3) ph by fastforce
    qed
    then show ?thesis
      using s' True ne sys act revents_only_channels [OF s'(2)] inv1
      by (auto simp: PollPoller_poll_def view_def handlers_def fresh_def)
  next
    case False
    then show ?thesis using ne sys inv1 act reg by (auto simp: PollPoller_poll_def view_def handlers_def fresh_def)
  qed
qed

subsection \<open>The contract\<close>

definition PollPoller_poll_once ::
    "(pollfd list \<Rightarrow> int \<Rightarrow> int \<times> pollfd list) \<Rightarrow> timestamp \<Rightarrow> int \<Rightarrow> poll_poller \<Rightarrow> (nat list \<times> poll_poller) option" where
  "PollPoller_poll_once sys_poll now t s = map_option snd (PollPoller_poll sys_poll now t [] s)"

lemma pp_poll_once:
  assumes inv: "pp_inv s" and ok: "poll_ok sys_poll" and ne: "channels_map s \<noteq> Map.empty"
  shows "\<exists>active s'. PollPoller_poll_once sys_poll now t s = Some (active, s') \<and> pp_inv s' \<and>
    channels_map s' = channels_map s \<and> view s' = view s \<and> handlers s' = handlers s \<and> (\<forall>d. fresh s d \<longrightarrow> fresh s' d) \<and> distinct active \<and>
    (\<forall>c \<in> set active. \<exists>fd. channels_map s fd = Some c \<and> pp_interest s fd \<noteq> None)"
proof -
  obtain n fds where sys: "sys_poll (pp_pollfds s) t = (n, fds)" by fastforce
  obtain fd c where "channels_map s fd = Some c" using ne by (meson ext not_None_eq)
  then have "pp_pollfds s \<noteq> []" using pp_invD(1) [OF inv] by (fastforce simp: entry_of_def)
  from PollPoller_poll_spec [OF inv ok this sys, of now "[]"] obtain s' where s':
    "PollPoller_poll sys_poll now t [] s = Some (now, if 0 < n then active_channels s fds else [], s')"
    "pp_inv s'" "channels_map s' = channels_map s" "view s' = view s" "handlers s' = handlers s" "fresh s' = fresh s"
    "distinct (active_channels s fds)"
    "\<And>p. p \<in> set fds \<Longrightarrow> happened p \<Longrightarrow> \<exists>c ch. channels_map s (pfd_fd p) = Some c \<and> chans s' c = Some ch \<and>
      ch_fd ch = pfd_fd p \<and> ch_events ch \<noteq> 0"
    unfolding append_Nil by metis
  have "\<exists>fd. channels_map s fd = Some c \<and> pp_interest s fd \<noteq> None"
    if c: "c \<in> set (active_channels s fds)" for c
  proof -
    obtain p where p: "p \<in> set fds" "happened p" "c = the (channels_map s (pfd_fd p))"
      using c by (auto simp: active_channels_def)
    obtain ch where ch: "channels_map s (pfd_fd p) = Some c" "chans s' c = Some ch" "ch_events ch \<noteq> 0"
      using s'(8) [OF p(1,2)] p(3) by auto
    then have "view s c = Some (ch_fd ch, ch_events ch)" unfolding s'(4) [symmetric] by (simp add: view_def)
    then show ?thesis using ch by (auto simp: pp_interest_events [OF inv])
  qed
  then show ?thesis using s' by (auto simp: PollPoller_poll_once_def)
qed

lemma pp_inv_chans:
  assumes inv: "pp_inv s" and same: "same_watch (chans s) m"
  shows "pp_inv (s\<lparr>chans := m\<rparr>)"
proof (rule pp_invI)
  have same': "\<exists>ch'. m c = Some ch' \<and> ch_fd ch' = ch_fd ch \<and> ch_events ch' = ch_events ch \<and>
      ch_index ch' = ch_index ch" if ch: "chans s c = Some ch" for c ch
    using same ch unfolding same_watch_def by blast
  fix fd c
  assume "channels_map (s\<lparr>chans := m\<rparr>) fd = Some c"
  then obtain ch where "chans s c = Some ch" "entry_of s fd ch" using pp_invD(1) [OF inv] by fastforce
  with same' [of c ch] show "\<exists>ch. chans (s\<lparr>chans := m\<rparr>) c = Some ch \<and> entry_of (s\<lparr>chans := m\<rparr>) fd ch"
    by (auto simp: entry_of_def pfd_ok_def)
next
  fix i
  assume "i < length (pp_pollfds (s\<lparr>chans := m\<rparr>))"
  then obtain c ch where "chans s c = Some ch" "channels_map s (ch_fd ch) = Some c" "ch_index ch = int i"
    using pp_invD(2) [OF inv] by fastforce
  then show "\<exists>c ch. chans (s\<lparr>chans := m\<rparr>) c = Some ch \<and>
      channels_map (s\<lparr>chans := m\<rparr>) (ch_fd ch) = Some c \<and> ch_index ch = int i"
    using same unfolding same_watch_def by fastforce
qed

interpretation pp: polling_contract
  "\<lambda>s. poll_ok sys_poll \<and> pp_inv s" pp_interest PollPoller_updateChannel PollPoller_removeChannel
  "PollPoller_poll_once sys_poll now t"
  for sys_poll now t
proof (unfold_locales, goal_cases)
  case (1 s fd)
  then show ?case using pp_interest_events by blast
next
  case (2 s c fd ev0 ev)
  show ?case using pp_update_new [OF conjunct2 [OF 2(1)] 2(2-8)] 2(1) by metis
next
  case (3 s c fd ev0 ev)
  show ?case using pp_update_old [OF conjunct2 [OF 3(1)] 3(2-4)] 3(1) by metis
next
  case (4 s c fd)
  show ?case using pp_remove_old [OF conjunct2 [OF 4(1)] 4(2,3)] 4(1) by metis
next
  case (5 s m)
  then show ?case using pp_inv_chans by blast
next
  case (6 s)
  show ?case using pp_poll_once [OF conjunct2 [OF 6(1)] conjunct1 [OF 6(1)] 6(2)] 6(1) by metis
qed

end
