(* ===== verification/EPollPoller.thy ===== *)
theory EPollPoller
  imports Poller
begin

text \<open>
  The poller over \<open>epoll(4)\<close> (\<open>src/net/poller/EPollPoller.h\<close>, \<open>src/net/poller/EPollPoller.cc\<close>).
  The index of a channel is its state: new, added to the kernel's interest list, or deleted
  from it while still registered. The kernel is two arguments: \<open>ctl\<close> says whether
  \<open>epoll_ctl\<close> succeeds after the calls that succeeded before, and \<open>wait\<close> gives the result of
  \<open>epoll_wait\<close> and the events it stores. The state has the calls that succeeded. All operations
  run on the thread of the loop.
\<close>

definition kNew :: int where "kNew = -1"
definition kAdded :: int where "kAdded = 1"
definition kDeleted :: int where "kDeleted = 2"
definition kInitEventListSize :: nat where "kInitEventListSize = 16"

datatype epoll_op = EPOLL_CTL_ADD | EPOLL_CTL_DEL | EPOLL_CTL_MOD

record epoll_event =
  ee_events :: events
  ee_ptr :: nat

type_synonym epoll_call = "epoll_op \<times> int \<times> epoll_event"
type_synonym epoll_ctl = "epoll_call list \<Rightarrow> epoll_call \<Rightarrow> bool"
type_synonym epoll_wait = "epoll_call list \<Rightarrow> int \<Rightarrow> int \<Rightarrow> int \<times> epoll_event list"

record epoll_poller = poller +
  ep_epollfd :: int
  ep_calls :: "epoll_call list"
  ep_events :: "epoll_event list"

abbreviation no_event :: epoll_event where
  "no_event \<equiv> \<lparr>ee_events = 0, ee_ptr = 0\<rparr>"

definition EPollPoller_ctor :: "int \<Rightarrow> (nat \<rightharpoonup> channel) \<Rightarrow> epoll_poller option" where
  "EPollPoller_ctor epollfd heap = (if epollfd < 0 then None
     else Some \<lparr>chans = heap, channels_map = Map.empty, ep_epollfd = epollfd, ep_calls = [],
       ep_events = replicate kInitEventListSize no_event\<rparr>)"

fun operationToString :: "epoll_op \<Rightarrow> string" where
  "operationToString EPOLL_CTL_ADD = ''ADD''"
| "operationToString EPOLL_CTL_DEL = ''DEL''"
| "operationToString EPOLL_CTL_MOD = ''MOD''"

definition EPollPoller_update :: "epoll_ctl \<Rightarrow> epoll_op \<Rightarrow> nat \<Rightarrow> epoll_poller \<Rightarrow> epoll_poller option" where
  "EPollPoller_update ctl operation c s = do {
     ch \<leftarrow> chans s c;
     let event = \<lparr>ee_events = ch_events ch, ee_ptr = c\<rparr>;
     let call = (operation, ch_fd ch, event);
     (if ctl (ep_calls s) call then Some (s\<lparr>ep_calls := ep_calls s @ [call]\<rparr>)
      else if operation = EPOLL_CTL_DEL then Some s
      else None) }"

definition EPollPoller_updateChannel :: "epoll_ctl \<Rightarrow> nat \<Rightarrow> epoll_poller \<Rightarrow> epoll_poller option" where
  "EPollPoller_updateChannel ctl c s = do {
     ch \<leftarrow> chans s c;
     let index = ch_index ch;
     (if index = kNew \<or> index = kDeleted then do {
        let fd = ch_fd ch;
        s \<leftarrow> (if index = kNew then do {
                cassert (channels_map s fd = None);
                Some (s\<lparr>channels_map := (channels_map s)(fd \<mapsto> c)\<rparr>) }
              else do {
                cassert (channels_map s fd \<noteq> None);
                cassert (channels_map s fd = Some c);
                Some s });
        s \<leftarrow> set_index c kAdded s;
        EPollPoller_update ctl EPOLL_CTL_ADD c s }
      else do {
        let fd = ch_fd ch;
        cassert (channels_map s fd \<noteq> None);
        cassert (channels_map s fd = Some c);
        cassert (index = kAdded);
        (if isNoneEvent ch then do {
           s \<leftarrow> EPollPoller_update ctl EPOLL_CTL_DEL c s;
           set_index c kDeleted s }
         else EPollPoller_update ctl EPOLL_CTL_MOD c s) }) }"

definition EPollPoller_removeChannel :: "epoll_ctl \<Rightarrow> nat \<Rightarrow> epoll_poller \<Rightarrow> epoll_poller option" where
  "EPollPoller_removeChannel ctl c s = do {
     ch \<leftarrow> chans s c;
     let fd = ch_fd ch;
     cassert (channels_map s fd \<noteq> None);
     cassert (channels_map s fd = Some c);
     cassert (isNoneEvent ch);
     let index = ch_index ch;
     cassert (index = kAdded \<or> index = kDeleted);
     let s = s\<lparr>channels_map := (channels_map s)(fd := None)\<rparr>;
     s \<leftarrow> (if index = kAdded then EPollPoller_update ctl EPOLL_CTL_DEL c s else Some s);
     set_index c kNew s }"

fun fill_active :: "epoll_event list \<Rightarrow> nat list \<Rightarrow> epoll_poller \<Rightarrow> (nat list \<times> epoll_poller) option" where
  "fill_active [] activeChannels s = Some (activeChannels, s)"
| "fill_active (e # es) activeChannels s = do {
     let channel = ee_ptr e;
     ch \<leftarrow> chans s channel;
     cassert (channels_map s (ch_fd ch) \<noteq> None);
     cassert (channels_map s (ch_fd ch) = Some channel);
     s \<leftarrow> set_revents channel (ee_events e) s;
     fill_active es (activeChannels @ [channel]) s }"

definition EPollPoller_fillActiveChannels ::
    "int \<Rightarrow> nat list \<Rightarrow> epoll_poller \<Rightarrow> (nat list \<times> epoll_poller) option" where
  "EPollPoller_fillActiveChannels numEvents activeChannels s = do {
     cassert (nat numEvents \<le> length (ep_events s));
     fill_active (take (nat numEvents) (ep_events s)) activeChannels s }"

definition EPollPoller_poll ::
    "epoll_wait \<Rightarrow> timestamp \<Rightarrow> int \<Rightarrow> nat list \<Rightarrow> epoll_poller \<Rightarrow> (timestamp \<times> nat list \<times> epoll_poller) option" where
  "EPollPoller_poll wait now timeoutMs activeChannels s = do {
     let (numEvents, stored) = wait (ep_calls s) (to_int32 (length (ep_events s))) timeoutMs;
     let s = s\<lparr>ep_events := stored @ drop (length stored) (ep_events s)\<rparr>;
     (if numEvents > 0 then do {
        (activeChannels, s) \<leftarrow> EPollPoller_fillActiveChannels numEvents activeChannels s;
        (if nat numEvents = length (ep_events s) then do {
           events \<leftarrow> vector_resize no_event (ep_events s) (length (ep_events s) * 2);
           Some (now, activeChannels, s\<lparr>ep_events := events\<rparr>) }
         else Some (now, activeChannels, s)) }
      else Some (now, activeChannels, s)) }"

subsection \<open>The interest list\<close>

text \<open>The interest list after calls that succeeded, and when \<open>epoll_ctl\<close> documents success: adding
  a descriptor that is not in the list, changing or deleting one that is. What \<open>epoll_wait\<close>
  documents: it stores at most as many events as there is room for, each for another
  descriptor of the list and with the data given for it.\<close>

fun apply_call :: "(int \<rightharpoonup> epoll_event) \<Rightarrow> epoll_call \<Rightarrow> int \<rightharpoonup> epoll_event" where
  "apply_call m (EPOLL_CTL_DEL, fd, e) = m(fd := None)"
| "apply_call m (_, fd, e) = m(fd \<mapsto> e)"

definition interest_list :: "epoll_call list \<Rightarrow> int \<rightharpoonup> epoll_event" where
  "interest_list calls = foldl apply_call Map.empty calls"

lemma interest_list_Nil [simp]: "interest_list [] = Map.empty"
  by (simp add: interest_list_def)

lemma interest_list_snoc [simp]: "interest_list (calls @ [x]) = apply_call (interest_list calls) x"
  by (simp add: interest_list_def)

definition epoll_ctl_ok :: "epoll_ctl \<Rightarrow> bool" where
  "epoll_ctl_ok ctl \<longleftrightarrow> (\<forall>calls op fd e.
     (interest_list calls fd = None \<longleftrightarrow> op = EPOLL_CTL_ADD) \<longrightarrow> ctl calls (op, fd, e))"

definition epoll_wait_ok :: "epoll_wait \<Rightarrow> bool" where
  "epoll_wait_ok wait \<longleftrightarrow> (\<forall>calls m t n stored. wait calls m t = (n, stored) \<longrightarrow>
     (0 \<le> n \<longrightarrow> n \<le> m) \<and> int (length stored) = max 0 n \<and>
     (\<exists>fds. distinct fds \<and> list_all2 (\<lambda>fd e.
        map_option ee_ptr (interest_list calls fd) = Some (ee_ptr e)) fds stored))"

lemma epoll_wait_okD:
  assumes "epoll_wait_ok wait" and "wait calls m t = (n, stored)"
  shows "0 \<le> n \<Longrightarrow> n \<le> m" and "int (length stored) = max 0 n"
    and "\<exists>fds. distinct fds \<and> list_all2 (\<lambda>fd e.
      map_option ee_ptr (interest_list calls fd) = Some (ee_ptr e)) fds stored"
  using assms unfolding epoll_wait_ok_def by blast+

definition ep_interest :: "epoll_poller \<Rightarrow> int \<Rightarrow> events option" where
  "ep_interest s fd = map_option ee_events (interest_list (ep_calls s) fd)"

subsection \<open>The channels and the interest list\<close>

definition ep_entry :: "epoll_poller \<Rightarrow> int \<Rightarrow> nat \<Rightarrow> channel \<Rightarrow> bool" where
  "ep_entry s fd c ch \<longleftrightarrow> ch_fd ch = fd \<and> 0 \<le> fd \<and> fd < int_max \<and> event_ok (ch_events ch) \<and>
     (if ch_events ch = 0 then ch_index ch = kDeleted \<and> interest_list (ep_calls s) fd = None
      else ch_index ch = kAdded \<and> interest_list (ep_calls s) fd = Some \<lparr>ee_events = ch_events ch, ee_ptr = c\<rparr>)"

definition ep_inv :: "epoll_poller \<Rightarrow> bool" where
  "ep_inv s \<longleftrightarrow>
     (\<forall>fd c. channels_map s fd = Some c \<longrightarrow> (\<exists>ch. chans s c = Some ch \<and> ep_entry s fd c ch)) \<and>
     (\<forall>fd. channels_map s fd = None \<longrightarrow> interest_list (ep_calls s) fd = None) \<and>
     0 < length (ep_events s) \<and> int (length (ep_events s)) \<le> 2 * int_max"

lemma ep_invD:
  assumes "ep_inv s"
  shows "channels_map s fd = Some c \<Longrightarrow> \<exists>ch. chans s c = Some ch \<and> ep_entry s fd c ch"
    and "channels_map s fd = None \<Longrightarrow> interest_list (ep_calls s) fd = None"
    and "0 < length (ep_events s)" and "int (length (ep_events s)) \<le> 2 * int_max"
  using assms unfolding ep_inv_def by blast+

lemma ep_invI:
  assumes "\<And>fd c. channels_map s fd = Some c \<Longrightarrow> \<exists>ch. chans s c = Some ch \<and> ep_entry s fd c ch"
    and "\<And>fd. channels_map s fd = None \<Longrightarrow> interest_list (ep_calls s) fd = None"
    and "0 < length (ep_events s)" and "int (length (ep_events s)) \<le> 2 * int_max"
  shows "ep_inv s"
  using assms unfolding ep_inv_def by blast

lemma ep_interest_events:
  assumes inv: "ep_inv s"
  shows "ep_interest s fd = (case channels_map s fd of None \<Rightarrow> None
    | Some c \<Rightarrow> (case view s c of None \<Rightarrow> None | Some (_, ev) \<Rightarrow> if ev = 0 then None else Some ev))"
proof (cases "channels_map s fd")
  case None
  then show ?thesis using ep_invD(2) [OF inv] by (simp add: ep_interest_def)
next
  case (Some c)
  then show ?thesis using ep_invD(1) [OF inv Some] by (auto simp: ep_interest_def ep_entry_def view_def)
qed

lemma ep_registered_channel:
  assumes "ep_inv s" and "channels_map s fd = Some c" and "channels_map s fd' = Some c"
  shows "fd = fd'"
  using ep_invD(1) [OF assms(1,2)] ep_invD(1) [OF assms(1,3)] by (auto simp: ep_entry_def)

text \<open>The state after a call for the channel \<open>c\<close>, which becomes \<open>ch\<close>: the other channels and the
  other descriptors of the interest list are as before.\<close>

lemma ep_inv_update:
  assumes inv: "ep_inv s" and reg: "channels_map s fd = Some c \<or> channels_map s fd = None \<and> fresh s c"
    and s': "s' = s\<lparr>chans := (chans s)(c \<mapsto> ch), channels_map := (channels_map s)(fd \<mapsto> c), ep_calls := calls\<rparr>"
    and other: "\<And>fd'. fd' \<noteq> fd \<Longrightarrow> interest_list calls fd' = interest_list (ep_calls s) fd'"
    and entry: "ep_entry s' fd c ch"
  shows "ep_inv s'"
proof (rule ep_invI)
  fix fd' d assume d: "channels_map s' fd' = Some d"
  show "\<exists>ch. chans s' d = Some ch \<and> ep_entry s' fd' d ch"
  proof (cases "fd' = fd")
    case True
    then show ?thesis using d entry by (simp add: s')
  next
    case False
    then have reg': "channels_map s fd' = Some d" using d by (simp add: s')
    obtain dh where dh: "chans s d = Some dh" "ep_entry s fd' d dh" using ep_invD(1) [OF inv reg'] by blast
    have "d \<noteq> c"
    proof
      assume "d = c"
      then have "\<not> fresh s c" using dh by (auto simp: fresh_def ep_entry_def kAdded_def kDeleted_def split: if_splits)
      then show False using reg reg' ep_registered_channel [OF inv] False \<open>d = c\<close> by blast
    qed
    then show ?thesis using dh other [OF False] by (simp add: s' ep_entry_def)
  qed
next
  fix fd' assume "channels_map s' fd' = None"
  then have "fd' \<noteq> fd" "channels_map s fd' = None" by (auto simp: s' split: if_splits)
  then show "interest_list (ep_calls s') fd' = None" using ep_invD(2) [OF inv] other by (simp add: s')
qed (use ep_invD(3,4) [OF inv] s' in simp_all)

subsection \<open>The operations keep the interest list in step\<close>

lemma epoll_ctl_okD:
  "epoll_ctl_ok ctl \<Longrightarrow> (interest_list calls fd = None) = (op = EPOLL_CTL_ADD) \<Longrightarrow> ctl calls (op, fd, e)"
  by (simp add: epoll_ctl_ok_def)

lemma ep_update_new:
  assumes inv: "ep_inv s" and ctl: "epoll_ctl_ok ctl" and view: "view s c = Some (fd, ev0)" and fr: "fresh s c"
    and none: "channels_map s fd = None" and fd: "0 \<le> fd" "fd < int_max"
    and ok: "event_ok ev" "ev \<noteq> 0"
  shows "\<exists>s'. EPollPoller_updateChannel ctl c (with_events c ev s) = Some s' \<and> ep_inv s' \<and>
    channels_map s' = (channels_map s)(fd \<mapsto> c) \<and> view s' = (view s)(c \<mapsto> (fd, ev)) \<and>
    (\<forall>d. d \<noteq> c \<longrightarrow> fresh s d \<longrightarrow> fresh s' d) \<and> handlers s' = handlers s"
proof -
  obtain ch where ch: "chans s c = Some ch" "ch_fd ch = fd" "ch_index ch = -1"
    using view fr by (auto simp: view_def fresh_def)
  define ch' where "ch' = ch\<lparr>ch_events := ev, ch_addedToLoop := True, ch_index := kAdded\<rparr>"
  define call where "call = (EPOLL_CTL_ADD, fd, \<lparr>ee_events = ev, ee_ptr = c\<rparr>)"
  define s' where "s' = s\<lparr>chans := (chans s)(c \<mapsto> ch'), channels_map := (channels_map s)(fd \<mapsto> c),
    ep_calls := ep_calls s @ [call]\<rparr>"
  have "ep_inv s'"
    by (rule ep_inv_update [OF inv _ s'_def])
      (use ch fd ok none fr in \<open>auto simp: call_def ep_entry_def s'_def ch'_def\<close>)
  moreover have "ctl (ep_calls s) call"
    unfolding call_def using ep_invD(2) [OF inv none] by (intro epoll_ctl_okD [OF ctl]) simp
  then have "EPollPoller_updateChannel ctl c (with_events c ev s) = Some s'"
    using ch none by (simp add: EPollPoller_updateChannel_def EPollPoller_update_def with_events_def
        set_index_def s'_def ch'_def call_def kNew_def kAdded_def)
  moreover have "view s' = (view s)(c \<mapsto> (fd, ev))" "\<And>d. d \<noteq> c \<Longrightarrow> fresh s d \<Longrightarrow> fresh s' d"
    "handlers s' = handlers s"
    using ch by (auto simp: view_def handlers_def s'_def ch'_def fun_eq_iff fresh_def)
  ultimately show ?thesis by (auto simp: s'_def)
qed

lemma ep_update_old:
  assumes inv: "ep_inv s" and ctl: "epoll_ctl_ok ctl" and view: "view s c = Some (fd, ev0)"
    and reg: "channels_map s fd = Some c" and ok: "event_ok ev" "ev0 \<noteq> 0 \<or> ev \<noteq> 0"
  shows "\<exists>s'. EPollPoller_updateChannel ctl c (with_events c ev s) = Some s' \<and> ep_inv s' \<and>
    channels_map s' = channels_map s \<and> view s' = (view s)(c \<mapsto> (fd, ev)) \<and>
    (\<forall>d. d \<noteq> c \<longrightarrow> fresh s d \<longrightarrow> fresh s' d) \<and> handlers s' = handlers s"
proof -
  obtain ch where ch: "chans s c = Some ch" "ep_entry s fd c ch" using ep_invD(1) [OF inv reg] by blast
  have e: "ch_fd ch = fd" "ch_events ch = ev0" "0 \<le> fd" "fd < int_max" using ch view by (auto simp: ep_entry_def view_def)
  define op where "op = (if ev0 = 0 then EPOLL_CTL_ADD else if ev = 0 then EPOLL_CTL_DEL else EPOLL_CTL_MOD)"
  define ch' where "ch' = ch\<lparr>ch_events := ev, ch_addedToLoop := True,
    ch_index := (if ev = 0 then kDeleted else kAdded)\<rparr>"
  define call where "call = (op, fd, \<lparr>ee_events = ev, ee_ptr = c\<rparr>)"
  define s' where "s' = s\<lparr>chans := (chans s)(c \<mapsto> ch'), channels_map := (channels_map s)(fd \<mapsto> c),
    ep_calls := ep_calls s @ [call]\<rparr>"
  have "ep_inv s'"
    by (rule ep_inv_update [OF inv _ s'_def])
      (use e ok reg in \<open>auto simp: call_def ep_entry_def s'_def ch'_def op_def split: if_splits\<close>)
  moreover have "ctl (ep_calls s) call"
    unfolding call_def using ch(2) e(2) ok
    by (intro epoll_ctl_okD [OF ctl]) (auto simp: ep_entry_def op_def split: if_splits)
  moreover note [simp] = EPollPoller_updateChannel_def EPollPoller_update_def with_events_def isNoneEvent_def
    kNoneEvent_def set_index_def kNew_def kAdded_def kDeleted_def map_upd_triv
  consider (add) "ev0 = 0" "ev \<noteq> 0" "ch_index ch = 2" | (del) "ev0 \<noteq> 0" "ev = 0" "ch_index ch = 1"
    | (mod) "ev0 \<noteq> 0" "ev \<noteq> 0" "ch_index ch = 1"
    using ch(2) e(2) ok(2) by (auto simp: ep_entry_def split: if_splits)
  then have "EPollPoller_updateChannel ctl c (with_events c ev s) = Some s'" if "ctl (ep_calls s) call"
  proof cases
    case add
    then show ?thesis using that ch(1) e reg by (simp add: s'_def ch'_def call_def op_def)
  next
    case del
    then show ?thesis using that ch(1) e reg by (simp add: s'_def ch'_def call_def op_def)
  next
    case mod
    then have "ch' = ch\<lparr>ch_events := ev, ch_addedToLoop := True\<rparr>" by (cases ch) (simp add: ch'_def)
    then show ?thesis using mod that ch(1) e reg by (simp add: s'_def call_def op_def)
  qed
  moreover have "view s' = (view s)(c \<mapsto> (fd, ev))" "\<And>d. d \<noteq> c \<Longrightarrow> fresh s d \<Longrightarrow> fresh s' d"
    "handlers s' = handlers s"
    using ch(1) e by (auto simp: view_def handlers_def s'_def ch'_def fun_eq_iff fresh_def)
  ultimately show ?thesis using reg by (auto simp: s'_def)
qed

lemma ep_remove_old:
  assumes inv: "ep_inv s" and view: "view s c = Some (fd, 0)" and reg: "channels_map s fd = Some c"
  shows "\<exists>s'. EPollPoller_removeChannel ctl c (not_added c s) = Some s' \<and> ep_inv s' \<and>
    channels_map s' = (channels_map s)(fd := None) \<and> view s' = view s \<and>
    (\<forall>d. d \<noteq> c \<longrightarrow> fresh s d \<longrightarrow> fresh s' d) \<and> handlers s' = handlers s \<and> fresh s' c"
proof -
  obtain ch where ch: "chans s c = Some ch" "ep_entry s fd c ch" using ep_invD(1) [OF inv reg] by blast
  have e: "ch_fd ch = fd" "ch_events ch = 0" "ch_index ch = kDeleted" "interest_list (ep_calls s) fd = None"
    using ch view by (auto simp: ep_entry_def view_def split: if_splits)
  define s' where "s' = s\<lparr>chans := (chans s)(c \<mapsto> ch\<lparr>ch_addedToLoop := False, ch_index := kNew\<rparr>),
    channels_map := (channels_map s)(fd := None)\<rparr>"
  have "ep_inv s'"
  proof (rule ep_invI)
    fix fd' d assume "channels_map s' fd' = Some d"
    then have d: "channels_map s fd' = Some d" "fd' \<noteq> fd" by (auto simp: s'_def split: if_splits)
    then have "d \<noteq> c" using ep_registered_channel [OF inv reg] by blast
    then show "\<exists>ch. chans s' d = Some ch \<and> ep_entry s' fd' d ch"
      using ep_invD(1) [OF inv d(1)] by (auto simp: s'_def ep_entry_def)
  next
    fix fd' assume "channels_map s' fd' = None"
    then show "interest_list (ep_calls s') fd' = None"
      using ep_invD(2) [OF inv] e(4) by (auto simp: s'_def split: if_splits)
  qed (use ep_invD(3,4) [OF inv] s'_def in simp_all)
  moreover have "EPollPoller_removeChannel ctl c (not_added c s) = Some s'"
    using ch(1) e reg
    by (simp add: EPollPoller_removeChannel_def not_added_def s'_def isNoneEvent_def kNoneEvent_def set_index_def
        kAdded_def kDeleted_def kNew_def)
  moreover have "view s' = view s" "handlers s' = handlers s" "\<And>d. d \<noteq> c \<Longrightarrow> fresh s d \<Longrightarrow> fresh s' d" "fresh s' c"
    using ch(1) by (auto simp: view_def handlers_def s'_def fun_eq_iff fresh_def kNew_def)
  ultimately show ?thesis by (auto simp: s'_def)
qed

subsection \<open>Polling\<close>

text \<open>The channels when the events \<open>es\<close> have been reported to them.\<close>

definition reported :: "epoll_event list \<Rightarrow> epoll_poller \<Rightarrow> epoll_poller" where
  "reported es s = s\<lparr>chans := (\<lambda>c. map_option (\<lambda>ch. ch\<lparr>ch_revents :=
     (case find (\<lambda>e. ee_ptr e = c) es of Some e \<Rightarrow> ee_events e | None \<Rightarrow> ch_revents ch)\<rparr>) (chans s c))\<rparr>"

lemma reported_Nil: "reported [] s = s"
proof -
  have "(\<lambda>c. map_option (\<lambda>ch. ch\<lparr>ch_revents := ch_revents ch\<rparr>) (chans s c)) = chans s"
    by (simp add: option.map_ident)
  then show ?thesis by (simp add: reported_def)
qed

lemma reported_channels:
  shows "channels_map (reported es s) = channels_map s" and "ep_calls (reported es s) = ep_calls s"
    and "ep_events (reported es s) = ep_events s" and "view (reported es s) = view s"
    and "fresh (reported es s) = fresh s" and "handlers (reported es s) = handlers s" and "ep_inv s \<Longrightarrow> ep_inv (reported es s)"
proof -
  show "channels_map (reported es s) = channels_map s" "ep_calls (reported es s) = ep_calls s"
    "ep_events (reported es s) = ep_events s" by (simp_all add: reported_def)
  show "view (reported es s) = view s" by (simp add: reported_def view_def fun_eq_iff option.map_comp comp_def)
  show "handlers (reported es s) = handlers s"
    by (simp add: reported_def handlers_def fun_eq_iff option.map_comp comp_def)
  show "fresh (reported es s) = fresh s" by (auto simp: reported_def fresh_def fun_eq_iff)
  have "ep_entry s fd c ch \<Longrightarrow> ep_entry (reported es s) fd c (ch\<lparr>ch_revents := r\<rparr>)" for fd c ch r
    by (simp add: ep_entry_def reported_def)
  then show "ep_inv (reported es s)" if "ep_inv s"
    using ep_invD [OF that] by (intro ep_invI) (fastforce simp: reported_def)+
qed

lemma fill_active_spec:
  assumes "list_all (\<lambda>e. \<exists>ch. chans s (ee_ptr e) = Some ch \<and> channels_map s (ch_fd ch) = Some (ee_ptr e)) es"
    and "distinct (map ee_ptr es)"
  shows "fill_active es active s = Some (active @ map ee_ptr es, reported es s)"
  using assms
proof (induction es arbitrary: s active)
  case Nil
  then show ?case by (simp add: reported_Nil)
next
  case (Cons e es)
  obtain ch where ch: "chans s (ee_ptr e) = Some ch" "channels_map s (ch_fd ch) = Some (ee_ptr e)"
    using Cons.prems(1) by auto
  define s1 where "s1 = s\<lparr>chans := (chans s)(ee_ptr e \<mapsto> ch\<lparr>ch_revents := ee_events e\<rparr>)\<rparr>"
  have "list_all (\<lambda>e. \<exists>ch. chans s1 (ee_ptr e) = Some ch \<and> channels_map s1 (ch_fd ch) = Some (ee_ptr e)) es"
    using Cons.prems ch by (auto simp: list_all_iff s1_def)
  then have "fill_active es (active @ [ee_ptr e]) s1 = Some ((active @ [ee_ptr e]) @ map ee_ptr es, reported es s1)"
    using Cons.IH Cons.prems(2) by simp
  moreover have "find (\<lambda>e'. ee_ptr e' = ee_ptr e) es = None"
    using Cons.prems(2) by (simp add: find_None_iff) (metis image_eqI)
  then have "reported es s1 = reported (e # es) s"
    using ch(1) by (auto simp: s1_def reported_def fun_eq_iff)
  ultimately show ?case using ch by (simp add: set_revents_def s1_def)
qed

text \<open>The stored events are for channels that are registered and watched, each once.\<close>

lemma stored_registered:
  assumes inv: "ep_inv s" and wait: "epoll_wait_ok wait" and w: "wait (ep_calls s) m t = (n, stored)"
  shows "distinct (map ee_ptr stored)"
    and "e \<in> set stored \<Longrightarrow> \<exists>ch. chans s (ee_ptr e) = Some ch \<and> channels_map s (ch_fd ch) = Some (ee_ptr e) \<and>
      ep_interest s (ch_fd ch) \<noteq> None"
proof -
  obtain fds where fds: "distinct fds"
    "list_all2 (\<lambda>fd e. map_option ee_ptr (interest_list (ep_calls s) fd) = Some (ee_ptr e)) fds stored"
    using epoll_wait_okD(3) [OF wait w] by blast
  have reg: "\<exists>ch. channels_map s fd = Some p \<and> chans s p = Some ch \<and> ch_fd ch = fd \<and> ep_interest s fd \<noteq> None"
    if "map_option ee_ptr (interest_list (ep_calls s) fd) = Some p" for fd p
  proof (cases "channels_map s fd")
    case None
    then show ?thesis using ep_invD(2) [OF inv None] that by simp
  next
    case (Some c)
    then show ?thesis
      using ep_invD(1) [OF inv Some] that by (auto simp: ep_entry_def ep_interest_def split: if_splits)
  qed
  show "distinct (map ee_ptr stored)"
  proof (rule distinct_map_nth)
    fix i j assume ij: "i < length stored" "j < length stored" "ee_ptr (stored ! i) = ee_ptr (stored ! j)"
    have "map_option ee_ptr (interest_list (ep_calls s) (fds ! i)) = Some (ee_ptr (stored ! i))"
      "map_option ee_ptr (interest_list (ep_calls s) (fds ! j)) = Some (ee_ptr (stored ! j))" "length fds = length stored"
      using fds(2) ij(1,2) by (auto simp: list_all2_conv_all_nth)
    then have "fds ! i = fds ! j" using reg [of "fds ! i"] reg [of "fds ! j"] ij(3) by fastforce
    then show "i = j" using fds(1) ij(1,2) \<open>length fds = length stored\<close> by (simp add: nth_eq_iff_index_eq)
  qed
  assume "e \<in> set stored"
  then obtain i where i: "i < length stored" "stored ! i = e" by (auto simp: in_set_conv_nth)
  have "map_option ee_ptr (interest_list (ep_calls s) (fds ! i)) = Some (ee_ptr e)"
    using list_all2_nthD2 [OF fds(2) i(1)] i(2) by simp
  from reg [OF this] show "\<exists>ch. chans s (ee_ptr e) = Some ch \<and> channels_map s (ch_fd ch) = Some (ee_ptr e) \<and>
      ep_interest s (ch_fd ch) \<noteq> None" by auto
qed

lemma ep_events_inv:
  assumes "ep_inv s" and "0 < length es" and "int (length es) \<le> 2 * int_max"
  shows "ep_inv (s\<lparr>ep_events := es\<rparr>)"
proof -
  have "ep_entry (s\<lparr>ep_events := es\<rparr>) = ep_entry s" by (simp add: ep_entry_def fun_eq_iff)
  then show ?thesis using ep_invD(1,2) [OF assms(1)] assms(2,3) by (intro ep_invI) simp_all
qed

lemma EPollPoller_poll_spec:
  assumes inv: "ep_inv s" and wait: "epoll_wait_ok wait"
    and w: "wait (ep_calls s) (to_int32 (length (ep_events s))) t = (n, stored)"
  shows "\<exists>es. EPollPoller_poll wait now t active s =
      Some (now, active @ map ee_ptr stored, (reported stored s)\<lparr>ep_events := es\<rparr>) \<and>
    ep_inv ((reported stored s)\<lparr>ep_events := es\<rparr>) \<and>
    length es = (if 0 < n \<and> nat n = length (ep_events s) then 2 * length (ep_events s) else length (ep_events s))"
proof -
  define len where "len = length (ep_events s)"
  have n: "int (length stored) = max 0 n" "0 \<le> n \<Longrightarrow> n \<le> to_int32 len"
    using epoll_wait_okD [OF wait w] by (simp_all add: len_def)
  define es0 where "es0 = stored @ drop (length stored) (ep_events s)"
  have le: "length stored \<le> len" "int (length stored) \<le> int_max"
    using n to_int32_le [of len] int_max_nonneg by linarith+
  then have es0: "length es0 = len" "take (length stored) es0 = stored" by (simp_all add: es0_def len_def)
  have inv1: "ep_inv (s\<lparr>ep_events := es0\<rparr>)"
    using ep_events_inv [OF inv, of es0] es0 ep_invD(3,4) [OF inv] by (simp add: len_def)
  have rep: "reported stored (s\<lparr>ep_events := x\<rparr>) = (reported stored s)\<lparr>ep_events := x\<rparr>" for x
    by (simp add: reported_def)
  show ?thesis
  proof (cases "0 < n")
    case False
    then have "stored = []" using n(1) by simp
    then show ?thesis using w False inv
      by (intro exI [of _ "ep_events s"]) (simp add: EPollPoller_poll_def reported_Nil)
  next
    case True
    have nat: "nat n = length stored" using n(1) True by linarith
    have "fill_active stored active (s\<lparr>ep_events := es0\<rparr>) =
        Some (active @ map ee_ptr stored, reported stored (s\<lparr>ep_events := es0\<rparr>))"
      using stored_registered [OF inv wait w] by (intro fill_active_spec) (auto simp: list_all_iff)
    then have fill: "EPollPoller_fillActiveChannels n active (s\<lparr>ep_events := es0\<rparr>) =
        Some (active @ map ee_ptr stored, (reported stored s)\<lparr>ep_events := es0\<rparr>)"
      using le es0 by (simp add: EPollPoller_fillActiveChannels_def rep nat)
    show ?thesis
    proof (cases "nat n = len")
      case False
      then show ?thesis using w True fill inv1 es0 reported_channels(7) [OF inv1, of stored]
        by (intro exI [of _ es0]) (simp add: EPollPoller_poll_def rep len_def es0_def [symmetric])
    next
      case full: True
      define es where "es = es0 @ replicate len no_event"
      have "int len \<le> int_max" using full le nat by simp
      then have les: "length es = 2 * len" "int (length es) \<le> 2 * int_max" "len * 2 \<le> max_size"
        using es0 by (simp_all add: es_def max_size_def int_max_def)
      then have "vector_resize no_event es0 (len * 2) = Some es"
        using es0 by (simp add: vector_resize_def es_def)
      moreover have "ep_inv (reported stored (s\<lparr>ep_events := es\<rparr>))"
        using ep_events_inv [OF inv, of es] ep_invD(3) [OF inv] les by (intro reported_channels(7)) (simp add: len_def)
      ultimately show ?thesis using w True fill full es0 les
        by (intro exI [of _ es]) (simp add: EPollPoller_poll_def rep len_def es0_def [symmetric])
    qed
  qed
qed

subsection \<open>The contract\<close>

definition EPollPoller_poll_once ::
    "epoll_wait \<Rightarrow> timestamp \<Rightarrow> int \<Rightarrow> epoll_poller \<Rightarrow> (nat list \<times> epoll_poller) option" where
  "EPollPoller_poll_once wait now t s = map_option snd (EPollPoller_poll wait now t [] s)"

lemma ep_view_events [simp]: "view (s\<lparr>ep_events := es\<rparr>) = view s" "fresh (s\<lparr>ep_events := es\<rparr>) = fresh s"
  "handlers (s\<lparr>ep_events := es\<rparr>) = handlers s"
  by (simp_all add: view_def fresh_def handlers_def fun_eq_iff)

lemma ep_poll_once:
  assumes inv: "ep_inv s" and wait: "epoll_wait_ok wait"
  shows "\<exists>active s'. EPollPoller_poll_once wait now t s = Some (active, s') \<and> ep_inv s' \<and>
    channels_map s' = channels_map s \<and> view s' = view s \<and> handlers s' = handlers s \<and> (\<forall>d. fresh s d \<longrightarrow> fresh s' d) \<and> distinct active \<and>
    (\<forall>c \<in> set active. \<exists>fd. channels_map s fd = Some c \<and> ep_interest s fd \<noteq> None)"
proof -
  obtain n stored where w: "wait (ep_calls s) (to_int32 (length (ep_events s))) t = (n, stored)" by fastforce
  obtain es where es: "EPollPoller_poll wait now t [] s =
      Some (now, [] @ map ee_ptr stored, (reported stored s)\<lparr>ep_events := es\<rparr>)"
    "ep_inv ((reported stored s)\<lparr>ep_events := es\<rparr>)"
    using EPollPoller_poll_spec [OF inv wait w] by blast
  have "\<exists>fd. channels_map s fd = Some c \<and> ep_interest s fd \<noteq> None" if c: "c \<in> set (map ee_ptr stored)" for c
  proof -
    obtain e where "e \<in> set stored" "c = ee_ptr e" using c by auto
    then show ?thesis using stored_registered(2) [OF inv wait w] by blast
  qed
  then show ?thesis
    using es stored_registered(1) [OF inv wait w]
    by (intro exI [of _ "map ee_ptr stored"] exI [of _ "(reported stored s)\<lparr>ep_events := es\<rparr>"])
      (simp add: EPollPoller_poll_once_def reported_channels)
qed

lemma ep_inv_chans:
  assumes inv: "ep_inv s" and same: "same_watch (chans s) m"
  shows "ep_inv (s\<lparr>chans := m\<rparr>)"
proof (rule ep_invI)
  fix fd c
  assume "channels_map (s\<lparr>chans := m\<rparr>) fd = Some c"
  then obtain ch where ch: "chans s c = Some ch" "ep_entry s fd c ch" using ep_invD(1) [OF inv] by fastforce
  obtain ch' where "m c = Some ch'" "ch_fd ch' = ch_fd ch" "ch_events ch' = ch_events ch" "ch_index ch' = ch_index ch"
    using same ch(1) unfolding same_watch_def by blast
  with ch(2) show "\<exists>ch. chans (s\<lparr>chans := m\<rparr>) c = Some ch \<and> ep_entry (s\<lparr>chans := m\<rparr>) fd c ch"
    by (simp add: ep_entry_def)
qed (use ep_invD(2-4) [OF inv] in simp_all)

interpretation epu: poller_contract
  "\<lambda>s. epoll_ctl_ok ctl \<and> ep_inv s" ep_interest "EPollPoller_updateChannel ctl" "EPollPoller_removeChannel ctl"
  for ctl
proof (unfold_locales, goal_cases)
  case (1 s fd)
  then show ?case using ep_interest_events by blast
next
  case (2 s c fd ev0 ev)
  then have "ep_inv s" "epoll_ctl_ok ctl" by auto
  from ep_update_new [OF this 2(2-8)] 2(1) show ?case by metis
next
  case (3 s c fd ev0 ev)
  then have "ep_inv s" "epoll_ctl_ok ctl" by auto
  from ep_update_old [OF this 3(2-5)] 3(1) show ?case by metis
next
  case (4 s c fd)
  then have "ep_inv s" by auto
  from ep_remove_old [OF this 4(2,3), of ctl] 4(1) show ?case by metis
next
  case (5 s m)
  then show ?case using ep_inv_chans by blast
qed

interpretation ep: polling_contract
  "\<lambda>s. epoll_ctl_ok ctl \<and> epoll_wait_ok wait \<and> ep_inv s" ep_interest
  "EPollPoller_updateChannel ctl" "EPollPoller_removeChannel ctl" "EPollPoller_poll_once wait now t"
  for ctl wait now t
proof (unfold_locales, goal_cases)
  case (1 s fd)
  then show ?case using epu.interest_events by blast
next
  case (2 s c fd ev0 ev)
  then show ?case using epu.update_new [of ctl s c fd ev0 ev] by metis
next
  case (3 s c fd ev0 ev)
  then show ?case using epu.update_old [of ctl s c fd ev0 ev] by metis
next
  case (4 s c fd)
  then show ?case using epu.remove_old [of ctl s c fd] by metis
next
  case (5 s m)
  then show ?case using epu.inv_chans by blast
next
  case (6 s)
  then have "ep_inv s" "epoll_wait_ok wait" by auto
  from ep_poll_once [OF this, of now t] 6(1) show ?case by metis
qed

end
