(* ===== verification/Pollers.thy ===== *)
theory Pollers
  imports PollPoller EPollPoller
begin

text \<open>
  Both pollers against the one specification of \<open>Poller.thy\<close>: from freshly made channels, every
  sequence of legal operations succeeds on both and makes the kernel watch for the same events.
  What a poll reports, and where the two differ: a channel that was removed can be registered
  again with one of them only.
\<close>

definition initial_spec :: "(nat \<rightharpoonup> channel) \<Rightarrow> watch_spec" where
  "initial_spec heap = \<lparr>sp_registered = Map.empty,
     sp_channels = (\<lambda>c. map_option (\<lambda>ch. (ch_fd ch, ch_events ch)) (heap c)),
     sp_fresh = (\<lambda>c. case heap c of None \<Rightarrow> False | Some ch \<Rightarrow> ch_index ch = -1)\<rparr>"

definition no_events :: "(nat \<rightharpoonup> channel) \<Rightarrow> bool" where
  "no_events heap \<longleftrightarrow> (\<forall>c ch. heap c = Some ch \<longrightarrow> ch_events ch = 0)"

lemma pp_refines_initial:
  assumes "no_events heap" and "poll_ok sys_poll"
  shows "pp.refines sys_poll (PollPoller_ctor heap) (initial_spec heap)"
  using assms unfolding pp.refines_def
  by (auto simp: PollPoller_ctor_def initial_spec_def no_events_def view_def fresh_def pp_inv_def
      split: option.splits)

lemma ep_inv_ctor: "EPollPoller_ctor epollfd heap = Some s \<Longrightarrow> ep_inv s"
  by (auto simp: EPollPoller_ctor_def ep_inv_def kInitEventListSize_def int_max_def split: if_splits)

lemma ep_refines_initial:
  assumes "no_events heap" and "epoll_ctl_ok ctl" and "epoll_wait_ok wait"
    and "EPollPoller_ctor epollfd heap = Some s"
  shows "ep.refines ctl wait s (initial_spec heap)"
  using assms ep_inv_ctor [OF assms(4)] unfolding ep.refines_def
  by (auto simp: EPollPoller_ctor_def initial_spec_def no_events_def view_def fresh_def
      split: option.splits if_splits)

text \<open>C5: The two pollers implement the same specification: from channels that were just made, every
  sequence of legal channel operations (enabling and disabling reading and writing, disabling
  all events, removing) succeeds on both without a failed assertion, and afterwards both have
  registered the same channels and have the kernel watch each descriptor for exactly the events
  of its channel.\<close>

theorem pollers_agree:
  assumes "no_events heap" and "ops_legal (initial_spec heap) ops"
    and "epoll_ctl_ok ctl" and "epoll_wait_ok wait" and "poll_ok sys_poll"
    and "EPollPoller_ctor epollfd heap = Some s0"
  shows "\<exists>p e. let a = foldl spec_step (initial_spec heap) ops in
    run_all (channel_step PollPoller_updateChannel PollPoller_removeChannel) ops (PollPoller_ctor heap) = Some p \<and>
    run_all (channel_step (EPollPoller_updateChannel ctl) (EPollPoller_removeChannel ctl)) ops s0 = Some e \<and>
    channels_map p = sp_registered a \<and> channels_map e = sp_registered a \<and>
    pp_interest p = spec_interest a \<and> ep_interest e = spec_interest a"
proof -
  obtain p where p: "run_all (channel_step PollPoller_updateChannel PollPoller_removeChannel) ops (PollPoller_ctor heap)
      = Some p" "pp.refines sys_poll p (foldl spec_step (initial_spec heap) ops)"
    using pp.refines_run [OF pp_refines_initial [OF assms(1,5)] assms(2)] by blast
  obtain e where e: "run_all (channel_step (EPollPoller_updateChannel ctl) (EPollPoller_removeChannel ctl)) ops s0
      = Some e" "ep.refines ctl wait e (foldl spec_step (initial_spec heap) ops)"
    using ep.refines_run [OF ep_refines_initial [OF assms(1,3,4,6)] assms(2)] by blast
  show ?thesis
    using p e pp.refines_interest [OF p(2)] ep.refines_interest [OF e(2)]
    by (auto simp: Let_def pp.refines_def ep.refines_def fun_eq_iff)
qed

text \<open>A poll that reports events gives the loop exactly the channels of the descriptors the kernel
  reported, in the order of the array and each once, and hands each channel the events that
  happened on it; no lookup fails, since every entry of the array belongs to a registered
  channel.\<close>

theorem PollPoller_poll_reports:
  assumes "pp_inv s" and "poll_ok sys_poll" and "pp_pollfds s \<noteq> []"
    and "sys_poll (pp_pollfds s) t = (n, fds)" and "0 < n"
  shows "\<exists>s'. PollPoller_poll sys_poll now t active s = Some (now, active @ active_channels s fds, s') \<and>
    pp_inv s' \<and> distinct (active_channels s fds) \<and> length (active_channels s fds) = nat n \<and>
    (\<forall>p \<in> set fds. happened p \<longrightarrow> (\<exists>c ch. channels_map s (pfd_fd p) = Some c \<and> chans s' c = Some ch \<and>
       ch_fd ch = pfd_fd p \<and> ch_events ch \<noteq> 0 \<and> ch_revents ch = scast (pfd_revents p)))"
proof -
  have "filter happened fds = filter (\<lambda>p. pfd_revents p \<noteq> 0) fds"
    using poll_okD(3) [OF assms(2,4)] sint_zero by (intro filter_cong) (auto simp: order.order_iff_strict)
  then have "length (active_channels s fds) = nat n"
    using poll_okD(4) [OF assms(2,4)] assms(5) by (simp add: active_channels_def)
  then show ?thesis
    using PollPoller_poll_spec [OF assms(1,2,3,4), of now active] assms(5) by auto
qed

text \<open>C37: A poll over \<open>epoll\<close> gives the loop the channels of the events the kernel stored, in that
  order, each once and each registered and watched, and hands each channel its events. The
  array of events doubles when it was filled, so no later poll is limited to it, and the
  channels stay consistent with the interest list.\<close>

theorem EPollPoller_poll_reports:
  assumes "ep_inv s" and "epoll_wait_ok wait"
    and "wait (ep_calls s) (to_int32 (length (ep_events s))) t = (n, stored)"
  shows "\<exists>s'. EPollPoller_poll wait now t active s = Some (now, active @ map ee_ptr stored, s') \<and>
    ep_inv s' \<and> distinct (map ee_ptr stored) \<and>
    (\<forall>e \<in> set stored. \<exists>ch. chans s' (ee_ptr e) = Some ch \<and> ch_revents ch = ee_events e \<and>
       channels_map s' (ch_fd ch) = Some (ee_ptr e) \<and> ep_interest s (ch_fd ch) \<noteq> None) \<and>
    length (ep_events s') = (if 0 < n \<and> nat n = length (ep_events s) then 2 else 1) * length (ep_events s)"
proof -
  obtain es where es: "EPollPoller_poll wait now t active s =
      Some (now, active @ map ee_ptr stored, (reported stored s)\<lparr>ep_events := es\<rparr>)"
    "ep_inv ((reported stored s)\<lparr>ep_events := es\<rparr>)"
    "length es = (if 0 < n \<and> nat n = length (ep_events s) then 2 * length (ep_events s) else length (ep_events s))"
    using EPollPoller_poll_spec [OF assms] by blast
  have dist: "distinct (map ee_ptr stored)" by (rule stored_registered(1) [OF assms])
  have "\<exists>ch. chans (reported stored s) (ee_ptr e) = Some ch \<and> ch_revents ch = ee_events e \<and>
      channels_map s (ch_fd ch) = Some (ee_ptr e) \<and> ep_interest s (ch_fd ch) \<noteq> None" if e: "e \<in> set stored" for e
  proof -
    obtain ch where "chans s (ee_ptr e) = Some ch" "channels_map s (ch_fd ch) = Some (ee_ptr e)"
      "ep_interest s (ch_fd ch) \<noteq> None" using stored_registered(2) [OF assms e] by blast
    moreover have "find (\<lambda>e'. ee_ptr e' = ee_ptr e) stored = Some e" by (rule find_distinct [OF dist e])
    ultimately show ?thesis by (simp add: reported_def)
  qed
  then show ?thesis using es dist
    by (intro exI [of _ "(reported stored s)\<lparr>ep_events := es\<rparr>"]) (simp add: reported_channels)
qed

text \<open>C38: The pollers differ on a channel that was removed. With \<open>epoll\<close> it can be enabled again.
  With \<open>poll\<close> it keeps its old index, so the next attempt to enable it fails an assertion.\<close>

theorem pollers_differ_on_enabling_again:
  assumes "Channel_remove PollPoller_removeChannel c p = Some p'"
    and "ep_inv e" and "epoll_ctl_ok ctl" and "view e c = Some (fd, 0)" and "channels_map e fd = Some c"
  shows "enableReading PollPoller_updateChannel c p' = None \<and>
    (\<exists>e' e''. Channel_remove (EPollPoller_removeChannel ctl) c e = Some e' \<and>
      enableReading (EPollPoller_updateChannel ctl) c e' = Some e'' \<and> ep_interest e'' fd = Some kReadEvent)"
proof -
  obtain ch where ch: "chans p c = Some ch" using assms(1) by (cases "chans p c") (auto simp: Channel_remove_def)
  obtain ch' where ch': "chans p' c = Some ch'" "0 \<le> ch_index ch'" "channels_map p' (ch_fd ch') = None"
    using assms(1) ch
    by (auto simp: Channel_remove_def PollPoller_removeChannel_def set_index_def on_channel_def Let_def
        split: if_splits option.splits elim!: bind_eq_SomeE)
  then have "enableReading PollPoller_updateChannel c p' = None"
    by (simp add: enableReading_eq PollPoller_updateChannel_def with_events_def)
  moreover have "\<exists>e' e''. Channel_remove (EPollPoller_removeChannel ctl) c e = Some e' \<and>
      enableReading (EPollPoller_updateChannel ctl) c e' = Some e'' \<and> ep_interest e'' fd = Some kReadEvent"
  proof -
    obtain eh where eh: "chans e c = Some eh" "ch_events eh = 0" using assms(4) by (auto simp: view_def)
    obtain e' where e': "EPollPoller_removeChannel ctl c (not_added c e) = Some e'" "ep_inv e'"
      "channels_map e' fd = None" "view e' c = Some (fd, 0)" "fresh e' c"
      using ep_remove_old [OF assms(2,4,5), of ctl] assms(4) by auto
    have fd: "0 \<le> fd" "fd < int_max" using ep_invD(1) [OF assms(2,5)] by (auto simp: ep_entry_def)
    have k: "event_ok kReadEvent" "kReadEvent \<noteq> 0" by (simp_all add: event_ok_def kReadEvent_def kWriteEvent_def)
    obtain e'' where e'': "EPollPoller_updateChannel ctl c (with_events c kReadEvent e') = Some e''" "ep_inv e''"
      "channels_map e'' fd = Some c" "view e'' c = Some (fd, kReadEvent)"
      using ep_update_new [OF e'(2) assms(3) e'(4,5,3) fd k] by auto
    obtain ch'' where "chans e' c = Some ch''" "ch_events ch'' = 0" using e'(4) by (auto simp: view_def)
    then have "enableReading (EPollPoller_updateChannel ctl) c e' = Some e''" using e''(1) by (simp add: enableReading_eq)
    moreover have "Channel_remove (EPollPoller_removeChannel ctl) c e = Some e'"
      using e'(1) eh by (simp add: Channel_remove_def isNoneEvent_def kNoneEvent_def not_added_def)
    moreover have "ep_interest e'' fd = Some kReadEvent" using e''(3,4) k(2) by (simp add: ep_interest_events [OF e''(2)])
    ultimately show ?thesis by blast
  qed
  ultimately show ?thesis by blast
qed

subsection \<open>Examples\<close>

text \<open>Two channels, a kernel that answers \<open>epoll_ctl\<close> as documented and reports that the descriptor 5
  is readable.\<close>

definition example_heap :: "nat \<rightharpoonup> channel" where
  "example_heap = [7 \<mapsto> Channel_ctor 1 5, 8 \<mapsto> Channel_ctor 1 6]"

definition example_ctl :: epoll_ctl where
  "example_ctl calls call = (case call of (op, fd, e) \<Rightarrow> (interest_list calls fd = None) = (op = EPOLL_CTL_ADD))"

definition example_wait :: epoll_wait where
  "example_wait calls m t = (if m \<le> 0 then (-1, []) else case interest_list calls 5 of
     Some e \<Rightarrow> (1, [\<lparr>ee_events = POLLIN, ee_ptr = ee_ptr e\<rparr>])
   | None \<Rightarrow> (0, []))"

definition example_sys_poll :: "pollfd list \<Rightarrow> int \<Rightarrow> int \<times> pollfd list" where
  "example_sys_poll fds t = (let fds' = map (\<lambda>p. p\<lparr>pfd_revents := (if pfd_fd p = 5 then 1 else 0)\<rparr>) fds
     in (int (length (filter (\<lambda>p. pfd_revents p \<noteq> 0) fds')), fds'))"

lemma example_ctl_ok: "epoll_ctl_ok example_ctl"
  by (simp add: epoll_ctl_ok_def example_ctl_def)

lemma example_wait_ok: "epoll_wait_ok example_wait"
proof -
  have "\<exists>fds. distinct fds \<and> list_all2 (\<lambda>fd e'. map_option ee_ptr (interest_list calls fd) = Some (ee_ptr e')) fds
      [\<lparr>ee_events = POLLIN, ee_ptr = ee_ptr e\<rparr>]" if "interest_list calls 5 = Some e" for calls e
    using that by (intro exI [of _ "[5]"]) simp
  then show ?thesis by (auto simp: epoll_wait_ok_def example_wait_def split: option.splits if_splits)
qed

lemma example_sys_poll_ok: "poll_ok example_sys_poll"
  by (auto simp: poll_ok_def example_sys_poll_def Let_def comp_def)

definition example_ops :: "channel_op list" where
  "example_ops = [EnableReading 7, EnableWriting 8, EnableReading 8, DisableAll 7, Remove 7]"

lemma example_no_events: "no_events example_heap"
  by (simp add: no_events_def example_heap_def Channel_ctor_def)

lemma example_ops_legal: "ops_legal (initial_spec example_heap) example_ops"
  by (simp add: example_ops_def op_legal_def spec_step_def initial_spec_def example_heap_def Channel_ctor_def
      kReadEvent_def kWriteEvent_def int_max_def)

definition example_epoll :: epoll_poller where
  "example_epoll = \<lparr>chans = example_heap, channels_map = Map.empty, ep_epollfd = 3, ep_calls = [],
     ep_events = replicate kInitEventListSize no_event\<rparr>"

lemma example_epoll_ctor: "EPollPoller_ctor 3 example_heap = Some example_epoll"
  by (simp add: EPollPoller_ctor_def example_epoll_def)

theorem pollers_agree_witness:
  "\<exists>p e. run_all (channel_step PollPoller_updateChannel PollPoller_removeChannel) example_ops
      (PollPoller_ctor example_heap) = Some p \<and>
    run_all (channel_step (EPollPoller_updateChannel example_ctl) (EPollPoller_removeChannel example_ctl))
      example_ops example_epoll = Some e \<and>
    pp_interest p 6 = Some 7 \<and> ep_interest e 6 = Some 7 \<and> pp_interest p 5 = None \<and> ep_interest e 5 = None"
proof -
  define a where "a = foldl spec_step (initial_spec example_heap) example_ops"
  have "spec_interest a 6 = Some 7" "spec_interest a 5 = None"
    by (simp_all add: a_def spec_interest_def example_ops_def spec_step_def initial_spec_def example_heap_def
        Channel_ctor_def kReadEvent_def kWriteEvent_def)
  then show ?thesis
    using pollers_agree [OF example_no_events example_ops_legal example_ctl_ok example_wait_ok example_sys_poll_ok
        example_epoll_ctor] by (auto simp: Let_def a_def)
qed


definition example_poll :: poll_poller where
  "example_poll = \<lparr>chans = [7 \<mapsto> (Channel_ctor 1 5)\<lparr>ch_events := 3, ch_index := 0, ch_addedToLoop := True\<rparr>],
     channels_map = [5 \<mapsto> 7], pp_pollfds = [\<lparr>pfd_fd = 5, pfd_events = 3, pfd_revents = 0\<rparr>]\<rparr>"

lemma example_poll_inv: "pp_inv example_poll"
  by (rule pp_invI)
    (auto simp: example_poll_def Channel_ctor_def entry_of_def pfd_ok_def event_ok_def kReadEvent_def
      kWriteEvent_def int_max_def split: if_splits)

definition example_epoll_added :: epoll_poller where
  "example_epoll_added = \<lparr>chans = [7 \<mapsto> (Channel_ctor 1 5)\<lparr>ch_events := 3, ch_index := kAdded\<rparr>],
     channels_map = [5 \<mapsto> 7], ep_epollfd = 3,
     ep_calls = [(EPOLL_CTL_ADD, 5, \<lparr>ee_events = 3, ee_ptr = 7\<rparr>)], ep_events = [no_event]\<rparr>"

lemma example_epoll_added_inv: "ep_inv example_epoll_added"
  by (rule ep_invI)
    (auto simp: example_epoll_added_def Channel_ctor_def ep_entry_def event_ok_def kReadEvent_def
      kWriteEvent_def int_max_def interest_list_def split: if_splits)

theorem EPollPoller_poll_reports_witness:
  "\<exists>s'. EPollPoller_poll example_wait 100 10000 [] example_epoll_added = Some (100, [7], s') \<and>
    length (ep_events s') = 2"
proof -
  have "to_int32 (length (ep_events example_epoll_added)) = 1"
    by (simp add: example_epoll_added_def to_int32_def)
  then have w: "example_wait (ep_calls example_epoll_added) (to_int32 (length (ep_events example_epoll_added))) 10000
      = (1, [\<lparr>ee_events = POLLIN, ee_ptr = 7\<rparr>])"
    by (simp add: example_wait_def interest_list_def) (simp add: example_epoll_added_def)
  show ?thesis
    using EPollPoller_poll_reports [OF example_epoll_added_inv example_wait_ok w, of 100 "[]"]
    by (auto simp: example_epoll_added_def)
qed

definition example_muted_poll :: poll_poller where
  "example_muted_poll = \<lparr>chans = [7 \<mapsto> (Channel_ctor 1 5)\<lparr>ch_index := 0, ch_addedToLoop := True\<rparr>],
     channels_map = [5 \<mapsto> 7], pp_pollfds = [\<lparr>pfd_fd = -6, pfd_events = 0, pfd_revents = 0\<rparr>]\<rparr>"

definition example_muted_epoll :: epoll_poller where
  "example_muted_epoll = \<lparr>chans = [7 \<mapsto> (Channel_ctor 1 5)\<lparr>ch_index := kDeleted\<rparr>],
     channels_map = [5 \<mapsto> 7], ep_epollfd = 3, ep_calls = [], ep_events = [no_event]\<rparr>"

theorem pollers_differ_on_enabling_again_witness:
  "\<exists>p' e' e''. Channel_remove PollPoller_removeChannel 7 example_muted_poll = Some p' \<and>
    enableReading PollPoller_updateChannel 7 p' = None \<and>
    Channel_remove (EPollPoller_removeChannel example_ctl) 7 example_muted_epoll = Some e' \<and>
    enableReading (EPollPoller_updateChannel example_ctl) 7 e' = Some e''"
proof -
  have p: "\<exists>p'. Channel_remove PollPoller_removeChannel 7 example_muted_poll = Some p'"
    by (simp add: Channel_remove_def PollPoller_removeChannel_def example_muted_poll_def Channel_ctor_def
        isNoneEvent_def kNoneEvent_def to_int32_def)
  have inv: "ep_inv example_muted_epoll"
    by (rule ep_invI)
      (auto simp: example_muted_epoll_def Channel_ctor_def ep_entry_def event_ok_def int_max_def
        split: if_splits)
  have v: "view example_muted_epoll 7 = Some (5, 0)" "channels_map example_muted_epoll 5 = Some 7"
    by (simp_all add: example_muted_epoll_def view_def Channel_ctor_def)
  obtain p' where p': "Channel_remove PollPoller_removeChannel 7 example_muted_poll = Some p'" using p by blast
  show ?thesis
    using p' pollers_differ_on_enabling_again [OF p' inv example_ctl_ok v] by blast
qed

end
