(* ===== verification/TcpConnection.thy ===== *)
theory TcpConnection
  imports Buffer Pollers
begin

text \<open>
  A TCP connection (\<open>src/net/TcpConnection.h\<close>, \<open>src/net/TcpConnection.cc\<close>): its state machine,
  its input and output buffers, and its channel in the loop.

  The record has the members of the class, the state of the loop its channel lives in
  (\<open>tc_loop\<close>, channels and poller), the socket, the functors the connection has queued in the
  loop and the timers it has set. Two fields are a history of the execution: the callbacks
  that ran (\<open>tc_calls\<close>), and the messages the connection took over for sending
  (\<open>tc_accepted\<close>). The calls of the loop's poller are the arguments \<open>update\<close> and \<open>remove\<close>. The
  system call \<open>write\<close> is an argument: from the number of the call, whether the write side is shut
  down and the data it gives the result and \<open>errno\<close>. A callback of the user is the list of what
  it does with the connection, given the state of the connection when it is called.
\<close>

abbreviation EAGAIN :: int where "EAGAIN \<equiv> 11"
abbreviation EPIPE :: int where "EPIPE \<equiv> 32"
abbreviation ECONNRESET :: int where "ECONNRESET \<equiv> 104"

subsection \<open>State\<close>

datatype StateE = kDisconnected | kConnecting | kConnected | kDisconnecting

fun stateToString :: "StateE \<Rightarrow> string" where
  "stateToString kDisconnected = ''kDisconnected''"
| "stateToString kConnecting = ''kConnecting''"
| "stateToString kConnected = ''kConnected''"
| "stateToString kDisconnecting = ''kDisconnecting''"

datatype conn_callback =
    ConnectionCallback | MessageCallback timestamp | WriteCompleteCallback
  | HighWaterMarkCallback nat | CloseCallback

datatype conn_functor =
    SendInLoop string | ShutdownInLoop | ForceCloseInLoop | StartReadInLoop | StopReadInLoop
  | ConnectDestroyed | RunCallback conn_callback

record socket =
  sk_fd :: int
  sk_wire :: "char list"
  sk_writeShut :: bool
  sk_writes :: nat

record 's connection =
  tc_loop :: 's
  tc_name :: string
  tc_state :: StateE
  tc_reading :: bool
  tc_socket :: socket
  tc_channel :: nat
  tc_hasWriteComplete :: bool
  tc_hasHighWaterMark :: bool
  tc_highWaterMark :: nat
  tc_inputBuffer :: buffer
  tc_outputBuffer :: buffer
  tc_pending :: "conn_functor list"
  tc_timers :: "real list"
  tc_calls :: "(conn_callback \<times> StateE) list"
  tc_accepted :: "string list"

type_synonym write_fun = "nat \<Rightarrow> bool \<Rightarrow> char list \<Rightarrow> int \<times> int"
type_synonym 'a conn = "'a channels_scheme connection"

abbreviation (input) handle_read_id :: nat where "handle_read_id \<equiv> 1"
abbreviation (input) handle_write_id :: nat where "handle_write_id \<equiv> 2"
abbreviation (input) handle_close_id :: nat where "handle_close_id \<equiv> 3"
abbreviation (input) handle_error_id :: nat where "handle_error_id \<equiv> 4"

definition TcpConnection_ctor :: "nat \<Rightarrow> 'a channels_scheme \<Rightarrow> string \<Rightarrow> int \<Rightarrow> nat \<Rightarrow> 'a conn option" where
  "TcpConnection_ctor loop s nameArg sockfd channel = do {
     cassert (loop \<noteq> 0);
     cassert (chans s channel = None);
     let s = s\<lparr>chans := (chans s)(channel \<mapsto> Channel_ctor loop sockfd)\<rparr>;
     s \<leftarrow> setReadCallback channel handle_read_id s;
     s \<leftarrow> setWriteCallback channel handle_write_id s;
     s \<leftarrow> setCloseCallback channel handle_close_id s;
     s \<leftarrow> setErrorCallback channel handle_error_id s;
     Some \<lparr>tc_loop = s, tc_name = nameArg, tc_state = kConnecting, tc_reading = True,
       tc_socket = \<lparr>sk_fd = sockfd, sk_wire = [], sk_writeShut = False, sk_writes = 0\<rparr>,
       tc_channel = channel, tc_hasWriteComplete = False, tc_hasHighWaterMark = False,
       tc_highWaterMark = 64 * 1024 * 1024, tc_inputBuffer = Buffer_default, tc_outputBuffer = Buffer_default,
       tc_pending = [], tc_timers = [], tc_calls = [], tc_accepted = []\<rparr> }"

definition TcpConnection_dtor :: "'s connection \<Rightarrow> unit option" where
  "TcpConnection_dtor w = cassert (tc_state w = kDisconnected)"

definition setWriteCompleteCallback :: "'s connection \<Rightarrow> 's connection" where
  "setWriteCompleteCallback w = w\<lparr>tc_hasWriteComplete := True\<rparr>"

definition setHighWaterMarkCallback :: "nat \<Rightarrow> 's connection \<Rightarrow> 's connection" where
  "setHighWaterMarkCallback highWaterMark w =
     w\<lparr>tc_hasHighWaterMark := True, tc_highWaterMark := highWaterMark\<rparr>"

definition setState :: "StateE \<Rightarrow> 's connection \<Rightarrow> 's connection" where
  "setState st w = w\<lparr>tc_state := st\<rparr>"

definition queueInLoop :: "conn_functor \<Rightarrow> 's connection \<Rightarrow> 's connection" where
  "queueInLoop f w = w\<lparr>tc_pending := tc_pending w @ [f]\<rparr>"

definition conn_channel :: "'a conn \<Rightarrow> channel option" where
  "conn_channel w = chans (tc_loop w) (tc_channel w)"

definition on_loop :: "(nat \<Rightarrow> 's \<Rightarrow> 's option) \<Rightarrow> 's connection \<Rightarrow> 's connection option" where
  "on_loop f w = do { s \<leftarrow> f (tc_channel w) (tc_loop w); Some (w\<lparr>tc_loop := s\<rparr>) }"

definition sockets_write :: "write_fun \<Rightarrow> char list \<Rightarrow> 's connection \<Rightarrow> int \<times> int \<times> 's connection" where
  "sockets_write write data w =
     (let sk = tc_socket w; (n, err) = write (sk_writes sk) (sk_writeShut sk) data
      in (n, err, w\<lparr>tc_socket := sk\<lparr>sk_wire := sk_wire sk @ take (nat n) data, sk_writes := sk_writes sk + 1\<rparr>\<rparr>))"

subsection \<open>Sending\<close>

text \<open>The direct write: the bytes written, the bytes that remain, whether the error is fatal.\<close>

definition write_directly :: "write_fun \<Rightarrow> char list \<Rightarrow> 's connection \<Rightarrow> int \<times> int \<times> bool \<times> 's connection" where
  "write_directly write data w =
     (let (nwrote, err, w) = sockets_write write data w
      in if nwrote \<ge> 0 then
           (let remaining = (int (length data) - nwrote) mod 2 ^ 64
            in (nwrote, remaining, False,
                if remaining = 0 \<and> tc_hasWriteComplete w
                then queueInLoop (RunCallback WriteCompleteCallback) w else w))
         else (0, int (length data), err \<noteq> EAGAIN \<and> (err = EPIPE \<or> err = ECONNRESET), w))"

definition append_remaining :: "'a update_fun \<Rightarrow> char list \<Rightarrow> 'a conn \<Rightarrow> 'a conn option" where
  "append_remaining update rest w = do {
     let oldLen = Buffer_readableBytes (tc_outputBuffer w);
     let w = (if oldLen + length rest \<ge> tc_highWaterMark w \<and> oldLen < tc_highWaterMark w \<and> tc_hasHighWaterMark w
              then queueInLoop (RunCallback (HighWaterMarkCallback (oldLen + length rest))) w else w);
     b \<leftarrow> Buffer_append (tc_outputBuffer w) rest;
     let w = w\<lparr>tc_outputBuffer := b\<rparr>;
     ch \<leftarrow> conn_channel w;
     (if \<not> isWriting ch then on_loop (enableWriting update) w else Some w) }"

definition sendInLoop :: "write_fun \<Rightarrow> 'a update_fun \<Rightarrow> char list \<Rightarrow> 'a conn \<Rightarrow> 'a conn option" where
  "sendInLoop write update data w =
     (if tc_state w = kDisconnected then Some w
      else do {
        ch \<leftarrow> conn_channel w;
        let (nwrote, remaining, faultError, w) =
          (if \<not> isWriting ch \<and> Buffer_readableBytes (tc_outputBuffer w) = 0
           then write_directly write data w
           else (0, int (length data), False, w));
        cassert (remaining \<le> int (length data));
        let w = (if faultError then w else w\<lparr>tc_accepted := tc_accepted w @ [data]\<rparr>);
        (if \<not> faultError \<and> remaining > 0 then append_remaining update (drop (nat nwrote) data) w
         else Some w) })"

definition TcpConnection_send :: "write_fun \<Rightarrow> 'a update_fun \<Rightarrow> bool \<Rightarrow> char list \<Rightarrow> 'a conn \<Rightarrow> 'a conn option" where
  "TcpConnection_send write update isInLoopThread message w =
     (if tc_state w = kConnected then
        (if isInLoopThread then sendInLoop write update message w
         else Some (queueInLoop (SendInLoop message) w))
      else Some w)"

text \<open>Sending a buffer empties it. The buffer here is the input buffer of the connection, as in an
  echo server.\<close>

definition TcpConnection_sendBuffer :: "write_fun \<Rightarrow> 'a update_fun \<Rightarrow> bool \<Rightarrow> 'a conn \<Rightarrow> 'a conn option" where
  "TcpConnection_sendBuffer write update isInLoopThread w =
     (if tc_state w = kConnected then
        (if isInLoopThread then do {
           w \<leftarrow> sendInLoop write update (Buffer_content (tc_inputBuffer w)) w;
           Some (w\<lparr>tc_inputBuffer := Buffer_retrieveAll (tc_inputBuffer w)\<rparr>) }
         else do {
           (message, b) \<leftarrow> Buffer_retrieveAllAsString (tc_inputBuffer w);
           Some (queueInLoop (SendInLoop message) (w\<lparr>tc_inputBuffer := b\<rparr>)) })
      else Some w)"

subsection \<open>Closing and reading\<close>

definition shutdownInLoop :: "'a conn \<Rightarrow> 'a conn option" where
  "shutdownInLoop w = do {
     ch \<leftarrow> conn_channel w;
     Some (if \<not> isWriting ch then w\<lparr>tc_socket := (tc_socket w)\<lparr>sk_writeShut := True\<rparr>\<rparr> else w) }"

definition TcpConnection_shutdown :: "bool \<Rightarrow> 'a conn \<Rightarrow> 'a conn option" where
  "TcpConnection_shutdown isInLoopThread w =
     (if tc_state w = kConnected then
        (let w = setState kDisconnecting w
         in if isInLoopThread then shutdownInLoop w else Some (queueInLoop ShutdownInLoop w))
      else Some w)"

definition forceClose :: "'s connection \<Rightarrow> 's connection" where
  "forceClose w =
     (if tc_state w = kConnected \<or> tc_state w = kDisconnecting
      then queueInLoop ForceCloseInLoop (setState kDisconnecting w) else w)"

definition forceCloseWithDelay :: "real \<Rightarrow> 's connection \<Rightarrow> 's connection" where
  "forceCloseWithDelay seconds w =
     (if tc_state w = kConnected \<or> tc_state w = kDisconnecting
      then (setState kDisconnecting w)\<lparr>tc_timers := tc_timers w @ [seconds]\<rparr> else w)"

definition startReadInLoop :: "'a update_fun \<Rightarrow> 'a conn \<Rightarrow> 'a conn option" where
  "startReadInLoop update w = do {
     ch \<leftarrow> conn_channel w;
     (if \<not> tc_reading w \<or> \<not> isReading ch then do {
        w \<leftarrow> on_loop (enableReading update) w;
        Some (w\<lparr>tc_reading := True\<rparr>) }
      else Some w) }"

definition stopReadInLoop :: "'a update_fun \<Rightarrow> 'a conn \<Rightarrow> 'a conn option" where
  "stopReadInLoop update w = do {
     ch \<leftarrow> conn_channel w;
     (if tc_reading w \<or> isReading ch then do {
        w \<leftarrow> on_loop (disableReading update) w;
        Some (w\<lparr>tc_reading := False\<rparr>) }
      else Some w) }"

definition startRead :: "'a update_fun \<Rightarrow> bool \<Rightarrow> 'a conn \<Rightarrow> 'a conn option" where
  "startRead update isInLoopThread w =
     (if isInLoopThread then startReadInLoop update w else Some (queueInLoop StartReadInLoop w))"

definition stopRead :: "'a update_fun \<Rightarrow> bool \<Rightarrow> 'a conn \<Rightarrow> 'a conn option" where
  "stopRead update isInLoopThread w =
     (if isInLoopThread then stopReadInLoop update w else Some (queueInLoop StopReadInLoop w))"

subsection \<open>Callbacks of the user\<close>

text \<open>What a callback or a task can do with the connection. The flag says whether it runs on the
  thread of the loop. \<open>Queue\<close> is \<open>queueInLoop\<close> of a functor of the connection, which is what
  the server's close callback does with \<open>connectDestroyed\<close>.\<close>

datatype conn_action =
    Send bool string | Echo bool | Discard | Shutdown bool | ForceClose | ForceCloseWithDelay real
  | StartRead bool | StopRead bool | Queue conn_functor

fun run_action :: "write_fun \<Rightarrow> 'a update_fun \<Rightarrow> conn_action \<Rightarrow> 'a conn \<Rightarrow> 'a conn option" where
  "run_action write update (Send inLoop message) w = TcpConnection_send write update inLoop message w"
| "run_action write update (Echo inLoop) w = TcpConnection_sendBuffer write update inLoop w"
| "run_action write update Discard w = Some (w\<lparr>tc_inputBuffer := Buffer_retrieveAll (tc_inputBuffer w)\<rparr>)"
| "run_action write update (Shutdown inLoop) w = TcpConnection_shutdown inLoop w"
| "run_action write update ForceClose w = Some (forceClose w)"
| "run_action write update (ForceCloseWithDelay seconds) w = Some (forceCloseWithDelay seconds w)"
| "run_action write update (StartRead inLoop) w = startRead update inLoop w"
| "run_action write update (StopRead inLoop) w = stopRead update inLoop w"
| "run_action write update (Queue f) w = Some (queueInLoop f w)"

type_synonym conn_script = "conn_callback \<Rightarrow> StateE \<Rightarrow> conn_action list"

definition defaultMessageCallback :: "conn_action list" where
  "defaultMessageCallback = [Discard]"

definition run_callback ::
    "write_fun \<Rightarrow> 'a update_fun \<Rightarrow> conn_script \<Rightarrow> conn_callback \<Rightarrow> 'a conn \<Rightarrow> 'a conn option" where
  "run_callback write update script cb w =
     run_all (run_action write update) (script cb (tc_state w))
       (w\<lparr>tc_calls := tc_calls w @ [(cb, tc_state w)]\<rparr>)"

subsection \<open>Handlers\<close>

definition connectEstablished ::
    "write_fun \<Rightarrow> 'a update_fun \<Rightarrow> conn_script \<Rightarrow> nat \<Rightarrow> 'a conn \<Rightarrow> 'a conn option" where
  "connectEstablished write update script self w = do {
     cassert (tc_state w = kConnecting);
     let w = setState kConnected w;
     w \<leftarrow> on_loop (\<lambda>c. Channel_tie c self) w;
     w \<leftarrow> on_loop (enableReading update) w;
     run_callback write update script ConnectionCallback w }"

definition connectDestroyed ::
    "write_fun \<Rightarrow> 'a update_fun \<Rightarrow> 'a update_fun \<Rightarrow> conn_script \<Rightarrow> 'a conn \<Rightarrow> 'a conn option" where
  "connectDestroyed write update remove script w = do {
     w \<leftarrow> (if tc_state w = kConnected then do {
             let w = setState kDisconnected w;
             w \<leftarrow> on_loop (disableAll update) w;
             run_callback write update script ConnectionCallback w }
           else Some w);
     on_loop (Channel_remove remove) w }"

definition handleClose :: "write_fun \<Rightarrow> 'a update_fun \<Rightarrow> conn_script \<Rightarrow> 'a conn \<Rightarrow> 'a conn option" where
  "handleClose write update script w = do {
     cassert (tc_state w = kConnected \<or> tc_state w = kDisconnecting);
     let w = setState kDisconnected w;
     w \<leftarrow> on_loop (disableAll update) w;
     w \<leftarrow> run_callback write update script ConnectionCallback w;
     run_callback write update script CloseCallback w }"

text \<open>\<open>getSocketError\<close> and the log line change nothing here.\<close>

definition handleError :: "'a conn \<Rightarrow> 'a conn option" where
  "handleError w = Some w"

definition handleRead ::
    "write_fun \<Rightarrow> 'a update_fun \<Rightarrow> conn_script \<Rightarrow> readv_fun \<Rightarrow> timestamp \<Rightarrow> 'a conn \<Rightarrow> 'a conn option" where
  "handleRead write update script readv receiveTime w = do {
     (n, savedErrno, b) \<leftarrow> Buffer_readFd readv (tc_inputBuffer w);
     let w = w\<lparr>tc_inputBuffer := b\<rparr>;
     (if n > 0 then run_callback write update script (MessageCallback receiveTime) w
      else if n = 0 then handleClose write update script w
      else handleError w) }"

definition handleWrite :: "write_fun \<Rightarrow> 'a update_fun \<Rightarrow> 'a conn \<Rightarrow> 'a conn option" where
  "handleWrite write update w = do {
     ch \<leftarrow> conn_channel w;
     (if isWriting ch then do {
        let (n, err, w) = sockets_write write (Buffer_content (tc_outputBuffer w)) w;
        (if n > 0 then do {
           b \<leftarrow> Buffer_retrieve (tc_outputBuffer w) (nat n);
           let w = w\<lparr>tc_outputBuffer := b\<rparr>;
           (if Buffer_readableBytes b = 0 then do {
              w \<leftarrow> on_loop (disableWriting update) w;
              let w = (if tc_hasWriteComplete w then queueInLoop (RunCallback WriteCompleteCallback) w else w);
              (if tc_state w = kDisconnecting then shutdownInLoop w else Some w) }
            else Some w) }
         else Some w) }
      else Some w) }"

definition forceCloseInLoop :: "write_fun \<Rightarrow> 'a update_fun \<Rightarrow> conn_script \<Rightarrow> 'a conn \<Rightarrow> 'a conn option" where
  "forceCloseInLoop write update script w =
     (if tc_state w = kConnected \<or> tc_state w = kDisconnecting then handleClose write update script w else Some w)"

subsection \<open>Steps of the loop\<close>

text \<open>The handlers as the callbacks of the channel, a queued functor, and one turn of the loop's
  work for this connection: the server makes the connection known, events happened on its
  channel, a task of the user runs, the first queued functor runs, a timer of
  \<open>forceCloseWithDelay\<close> fires.\<close>

fun conn_closure ::
    "write_fun \<Rightarrow> 'a update_fun \<Rightarrow> conn_script \<Rightarrow> readv_fun \<Rightarrow> closure \<Rightarrow> 'a conn \<Rightarrow> 'a conn option" where
  "conn_closure write update script readv (CallAt f t) w =
     (if f = handle_read_id then handleRead write update script readv t w else None)"
| "conn_closure write update script readv (Call f) w =
     (if f = handle_write_id then handleWrite write update w
      else if f = handle_close_id then handleClose write update script w
      else if f = handle_error_id then handleError w else None)"

fun run_functor ::
    "write_fun \<Rightarrow> 'a update_fun \<Rightarrow> 'a update_fun \<Rightarrow> conn_script \<Rightarrow> conn_functor \<Rightarrow> 'a conn \<Rightarrow> 'a conn option" where
  "run_functor write update remove script (SendInLoop message) w = sendInLoop write update message w"
| "run_functor write update remove script ShutdownInLoop w = shutdownInLoop w"
| "run_functor write update remove script ForceCloseInLoop w = forceCloseInLoop write update script w"
| "run_functor write update remove script StartReadInLoop w = startReadInLoop update w"
| "run_functor write update remove script StopReadInLoop w = stopReadInLoop update w"
| "run_functor write update remove script ConnectDestroyed w = connectDestroyed write update remove script w"
| "run_functor write update remove script (RunCallback cb) w = run_callback write update script cb w"

text \<open>What the kernel has for \<open>readv\<close>: an error, or the bytes that arrived, none at the end of the
  stream; the call takes as many of them as there is room for.\<close>

definition kernel_read :: "int + char list \<Rightarrow> readv_fun" where
  "kernel_read arrived lens = (case arrived of Inl errno \<Rightarrow> Inl errno | Inr data \<Rightarrow> Inr (take (sum_list lens) data))"

datatype conn_step =
  Established | Dispatch events "int + char list" timestamp | Task "conn_action list" | RunPending | TimerFires

fun conn_run_step ::
    "write_fun \<Rightarrow> 'a update_fun \<Rightarrow> 'a update_fun \<Rightarrow> conn_script \<Rightarrow> conn_step \<Rightarrow> 'a conn \<Rightarrow> 'a conn option" where
  "conn_run_step write update remove script Established w = connectEstablished write update script 1 w"
| "conn_run_step write update remove script (Dispatch revents arrived t) w = do {
     ch \<leftarrow> conn_channel w;
     run_all (conn_closure write update script (kernel_read arrived)) (dispatch t (ch\<lparr>ch_revents := revents\<rparr>)) w }"
| "conn_run_step write update remove script (Task as) w = run_all (run_action write update) as w"
| "conn_run_step write update remove script RunPending w =
     (case tc_pending w of
        [] \<Rightarrow> Some w
      | f # fs \<Rightarrow> run_functor write update remove script f (w\<lparr>tc_pending := fs\<rparr>))"
| "conn_run_step write update remove script TimerFires w =
     (case tc_timers w of
        [] \<Rightarrow> Some w
      | _ # ts \<Rightarrow> Some (forceClose (w\<lparr>tc_timers := ts\<rparr>)))"

end
