(* ===== verification/TcpConnection_Inv.thy ===== *)
theory TcpConnection_Inv
  imports TcpConnection
begin

text \<open>
  The invariant of a connection and its preservation by every operation, proved once for every
  poller that satisfies the contract of \<open>Poller.thy\<close>: the events of the channel agree with the
  state of the connection, the channel waits for writability exactly while output is queued,
  and the bytes on the wire followed by the queued output are the accepted messages in order.
\<close>

subsection \<open>Resources and permitted actions\<close>

text \<open>What \<open>write(2)\<close> documents: it fails, or writes no more than it was given; after the write
  side is shut down it fails with \<open>EPIPE\<close>.\<close>

definition write_ok :: "write_fun \<Rightarrow> bool" where
  "write_ok write \<longleftrightarrow> (\<forall>n shut data. let (r, err) = write n shut data in
     -1 \<le> r \<and> r \<le> int (length data) \<and> (shut \<longrightarrow> data \<noteq> [] \<longrightarrow> r = -1 \<and> err = EPIPE))"

lemma write_okD:
  assumes "write_ok write" and "write n shut data = (r, err)"
  shows "-1 \<le> r" and "r \<le> int (length data)" and "shut \<Longrightarrow> data \<noteq> [] \<Longrightarrow> r = -1 \<and> err = EPIPE"
  using assms(1) [unfolded write_ok_def, rule_format, of n shut data] unfolding assms(2) by auto

definition established :: "'s connection \<Rightarrow> bool" where
  "established w \<longleftrightarrow> tc_state w = kConnected \<or> tc_state w = kDisconnecting"

fun functor_bytes :: "conn_functor \<Rightarrow> nat" where
  "functor_bytes (SendInLoop m) = length m"
| "functor_bytes _ = 0"

text \<open>The bytes a connection holds, and the bytes an action adds to them.\<close>

definition volume :: "'s connection \<Rightarrow> nat" where
  "volume w = Buffer_used (tc_outputBuffer w) + Buffer_used (tc_inputBuffer w) +
     sum_list (map functor_bytes (tc_pending w))"

fun action_bytes :: "conn_action \<Rightarrow> nat" where
  "action_bytes (Send _ m) = length m"
| "action_bytes (Queue f) = functor_bytes f"
| "action_bytes _ = kCheapPrepend"

definition script_bytes :: "conn_action list \<Rightarrow> nat" where
  "script_bytes as = sum_list (map action_bytes as)"

text \<open>Reading is started and stopped on the thread of the loop and while the connection is up; only
  the close callback queues the destruction of the connection.\<close>

fun action_ok :: "bool \<Rightarrow> bool \<Rightarrow> conn_action \<Rightarrow> bool" where
  "action_ok up closing (StartRead inLoop) = (up \<and> inLoop)"
| "action_ok up closing (StopRead inLoop) = (up \<and> inLoop)"
| "action_ok up closing (Queue (SendInLoop _)) = True"
| "action_ok up closing (Queue ConnectDestroyed) = closing"
| "action_ok up closing (Queue _) = False"
| "action_ok up closing _ = True"

definition destroy_count :: "'s connection \<Rightarrow> nat" where
  "destroy_count w = count_list (tc_pending w) ConnectDestroyed"

fun functor_ok :: "StateE \<Rightarrow> conn_functor \<Rightarrow> bool" where
  "functor_ok st (SendInLoop _) = True"
| "functor_ok st ShutdownInLoop = (st = kDisconnecting \<or> st = kDisconnected)"
| "functor_ok st ForceCloseInLoop = True"
| "functor_ok st StartReadInLoop = False"
| "functor_ok st StopReadInLoop = False"
| "functor_ok st ConnectDestroyed = (st = kDisconnected)"
| "functor_ok st (RunCallback cb) = (cb = WriteCompleteCallback \<or> (\<exists>n. cb = HighWaterMarkCallback n))"

text \<open>The calls of the connection callback so far: none, up, or up and then down.\<close>

definition connection_calls :: "'s connection \<Rightarrow> StateE list" where
  "connection_calls w = map snd (filter (\<lambda>x. fst x = ConnectionCallback) (tc_calls w))"

fun expected_calls :: "StateE \<Rightarrow> StateE list" where
  "expected_calls kConnecting = []"
| "expected_calls kConnected = [kConnected]"
| "expected_calls kDisconnecting = [kConnected]"
| "expected_calls kDisconnected = [kConnected, kDisconnected]"

definition registered :: "'a poller_scheme connection \<Rightarrow> bool" where
  "registered w \<longleftrightarrow> channels_map (tc_loop w) (sk_fd (tc_socket w)) = Some (tc_channel w)"

lemma Buffer_content_empty: "Buffer_wf b \<Longrightarrow> Buffer_content b = [] \<longleftrightarrow> Buffer_readableBytes b = 0"
  by (metis length_0_conv length_Buffer_content)

subsection \<open>The invariant\<close>

text \<open>The buffers, the functors that wait and the history, apart from the channel.\<close>

definition data_ok :: "'s connection \<Rightarrow> bool" where
  "data_ok w \<longleftrightarrow> Buffer_wf (tc_inputBuffer w) \<and> Buffer_wf (tc_outputBuffer w) \<and>
     sk_wire (tc_socket w) @ Buffer_content (tc_outputBuffer w) = concat (tc_accepted w) \<and>
     list_all (functor_ok (tc_state w)) (tc_pending w) \<and> destroy_count w \<le> 1 \<and>
     connection_calls w = expected_calls (tc_state w) \<and>
     (sk_writeShut (tc_socket w) \<longrightarrow>
        tc_state w = kDisconnected \<or> tc_state w = kDisconnecting \<and> Buffer_content (tc_outputBuffer w) = [])"

definition state_ok :: "'a poller_scheme connection \<Rightarrow> events \<Rightarrow> bool" where
  "state_ok w ev \<longleftrightarrow> (case tc_state w of
     kConnecting \<Rightarrow> ev = 0 \<and> fresh (tc_loop w) (tc_channel w) \<and>
       channels_map (tc_loop w) (sk_fd (tc_socket w)) = None \<and>
       0 \<le> sk_fd (tc_socket w) \<and> sk_fd (tc_socket w) < int_max \<and>
       tc_pending w = [] \<and> tc_timers w = [] \<and> tc_reading w \<and> Buffer_content (tc_outputBuffer w) = []
   | kDisconnected \<Rightarrow> ev = 0 \<and> (destroy_count w > 0 \<longrightarrow> registered w)
   | _ \<Rightarrow> registered w \<and> (ev AND kWriteEvent \<noteq> 0 \<longleftrightarrow> Buffer_content (tc_outputBuffer w) \<noteq> []) \<and>
       (ev AND kReadEvent \<noteq> 0 \<longleftrightarrow> tc_reading w))"

lemma kWriteEvent_exp: "kWriteEvent = 2 ^ 2"
  by (simp add: kWriteEvent_def)

lemma kWriteEvent_or: "(ev :: events) OR kWriteEvent \<noteq> 0"
proof
  assume zero: "ev OR kWriteEvent = 0"
  have "(ev OR kWriteEvent) AND kWriteEvent = 0" unfolding zero by simp
  then show False using event_flags(5) by blast
qed

lemma kReadEvent_or: "(ev :: events) OR kReadEvent \<noteq> 0"
proof
  assume zero: "ev OR kReadEvent = 0"
  have "(ev OR kReadEvent) AND kReadEvent = 0" unfolding zero by simp
  then show False using event_flags(1) by blast
qed

lemma kWriteEvent_absorb: "(ev :: events) AND kWriteEvent \<noteq> 0 \<Longrightarrow> ev OR kWriteEvent = ev"
proof -
  assume "ev AND kWriteEvent \<noteq> 0"
  then have "bit ev 2" using and_exp_eq_0_iff_not_bit [of ev 2] unfolding kWriteEvent_exp by blast
  then show "ev OR kWriteEvent = ev" unfolding kWriteEvent_exp
    by (intro bit_word_eqI) (auto simp only: bit_or_iff bit_exp_iff)
qed

context poller_contract
begin

definition chan_ok :: "'a poller_scheme connection \<Rightarrow> events \<Rightarrow> bool" where
  "chan_ok w ev \<longleftrightarrow> inv (tc_loop w) \<and> event_ok ev \<and>
     view (tc_loop w) (tc_channel w) = Some (sk_fd (tc_socket w), ev) \<and>
     handlers (tc_loop w) (tc_channel w) =
       Some (Some handle_read_id, Some handle_write_id, Some handle_close_id, Some handle_error_id)"

definition tc_inv :: "'a poller_scheme connection \<Rightarrow> bool" where
  "tc_inv w \<longleftrightarrow> data_ok w \<and> (\<exists>ev. chan_ok w ev \<and> state_ok w ev)"

lemma tc_invI: "data_ok w \<Longrightarrow> chan_ok w ev \<Longrightarrow> state_ok w ev \<Longrightarrow> tc_inv w"
  unfolding tc_inv_def by blast

lemma tc_invE:
  assumes "tc_inv w"
  obtains ev where "data_ok w" and "chan_ok w ev" and "state_ok w ev"
  using assms unfolding tc_inv_def by blast

lemma chan_ok_channel:
  assumes "chan_ok w ev"
  obtains ch where "conn_channel w = Some ch" and "ch_events ch = ev"
    and "isWriting ch \<longleftrightarrow> ev AND kWriteEvent \<noteq> 0" and "isReading ch \<longleftrightarrow> ev AND kReadEvent \<noteq> 0"
    and "ch_readCallback ch = Some handle_read_id" and "ch_writeCallback ch = Some handle_write_id"
    and "ch_closeCallback ch = Some handle_close_id" and "ch_errorCallback ch = Some handle_error_id"
  using assms that
  by (auto simp: chan_ok_def view_def handlers_def conn_channel_def isWriting_def isReading_def)

lemma chan_ok_cong:
  assumes "chan_ok w ev" and "tc_loop w' = tc_loop w" and "tc_channel w' = tc_channel w"
    and "sk_fd (tc_socket w') = sk_fd (tc_socket w)"
  shows "chan_ok w' ev"
  using assms by (simp add: chan_ok_def)

text \<open>Changing the events of the channel of a connection that is registered.\<close>

lemma conn_update:
  assumes ok: "chan_ok w ev" and reg: "registered w" and ev': "event_ok ev'" "ev \<noteq> 0 \<or> ev' \<noteq> 0"
  obtains s' where "update (tc_channel w) (with_events (tc_channel w) ev' (tc_loop w)) = Some s'"
    and "chan_ok (w\<lparr>tc_loop := s'\<rparr>) ev'" and "registered (w\<lparr>tc_loop := s'\<rparr>)"
proof -
  let ?s = "tc_loop w" and ?c = "tc_channel w" and ?fd = "sk_fd (tc_socket w)"
  have "inv ?s" "view ?s ?c = Some (?fd, ev)" "channels_map ?s ?fd = Some ?c"
    using ok reg by (auto simp: chan_ok_def registered_def)
  from update_old [OF this ev'] obtain s' where s': "update ?c (with_events ?c ev' ?s) = Some s'" "inv s'"
    "channels_map s' = channels_map ?s" "view s' = (view ?s)(?c \<mapsto> (?fd, ev'))" "handlers s' = handlers ?s"
    by blast
  show ?thesis
  proof (rule that [OF s'(1)])
    show "chan_ok (w\<lparr>tc_loop := s'\<rparr>) ev'" using ok s' ev' by (simp add: chan_ok_def)
    show "registered (w\<lparr>tc_loop := s'\<rparr>)" using reg s'(3) by (simp add: registered_def)
  qed
qed

lemma conn_channel_update:
  assumes ok: "chan_ok w ev" and reg: "registered w" and x: "op_channel x = tc_channel w" "\<not> is_remove x"
    and ev: "ev \<noteq> 0 \<or> op_events x ev \<noteq> 0"
  obtains s' where "on_loop (\<lambda>_. channel_step update remove x) w = Some (w\<lparr>tc_loop := s'\<rparr>)"
    and "chan_ok (w\<lparr>tc_loop := s'\<rparr>) (op_events x ev)" and "registered (w\<lparr>tc_loop := s'\<rparr>)"
proof -
  have ok': "event_ok (op_events x ev)" using ok by (intro event_ok_op) (simp add: chan_ok_def)
  obtain s' where s': "update (tc_channel w) (with_events (tc_channel w) (op_events x ev) (tc_loop w)) = Some s'"
    "chan_ok (w\<lparr>tc_loop := s'\<rparr>) (op_events x ev)" "registered (w\<lparr>tc_loop := s'\<rparr>)"
    by (rule conn_update [OF ok reg ok' ev])
  obtain ch where ch: "conn_channel w = Some ch" "ch_events ch = ev" by (rule chan_ok_channel [OF ok])
  have "channel_step update remove x (tc_loop w) = Some s'"
    using s'(1) ch x by (cases x) (simp_all add: channel_updates conn_channel_def)
  then show ?thesis using that s' by (simp add: on_loop_def)
qed

text \<open>What an operation that does not close the connection keeps.\<close>

definition frame :: "'a poller_scheme connection \<Rightarrow> 'a poller_scheme connection \<Rightarrow> bool" where
  "frame w w' \<longleftrightarrow> tc_channel w' = tc_channel w \<and> sk_fd (tc_socket w') = sk_fd (tc_socket w) \<and>
     established w' = established w \<and> (tc_state w' = kDisconnected \<longleftrightarrow> tc_state w = kDisconnected) \<and>
     registered w' = registered w"

lemma frame_refl: "frame w w"
  by (simp add: frame_def)

lemma frame_trans: "frame w w' \<Longrightarrow> frame w' w'' \<Longrightarrow> frame w w''"
  by (simp add: frame_def)

lemma append_remaining_spec:
  assumes wf: "Buffer_wf (tc_outputBuffer w)" and chan: "chan_ok w ev" and reg: "registered w"
    and room: "Buffer_used (tc_outputBuffer w) + length rest \<le> max_size"
  obtains s' b fs where "append_remaining update rest w =
      Some (w\<lparr>tc_loop := s', tc_outputBuffer := b, tc_pending := tc_pending w @ fs\<rparr>)"
    and "chan_ok (w\<lparr>tc_loop := s'\<rparr>) (ev OR kWriteEvent)" and "registered (w\<lparr>tc_loop := s'\<rparr>)"
    and "Buffer_wf b" and "Buffer_content b = Buffer_content (tc_outputBuffer w) @ rest"
    and "Buffer_used b \<le> Buffer_used (tc_outputBuffer w) + length rest"
    and "fs = (if tc_hasHighWaterMark w \<and> Buffer_readableBytes (tc_outputBuffer w) < tc_highWaterMark w \<and>
        tc_highWaterMark w \<le> Buffer_readableBytes (tc_outputBuffer w) + length rest
      then [RunCallback (HighWaterMarkCallback (Buffer_readableBytes (tc_outputBuffer w) + length rest))] else [])"
proof -
  obtain b where b: "Buffer_append (tc_outputBuffer w) rest = Some b" "Buffer_wf b"
    "Buffer_content b = Buffer_content (tc_outputBuffer w) @ rest"
    "Buffer_used b \<le> Buffer_used (tc_outputBuffer w) + length rest"
    using buf.app_ok [OF wf room] by blast
  define fs where "fs = (if tc_hasHighWaterMark w \<and> Buffer_readableBytes (tc_outputBuffer w) < tc_highWaterMark w \<and>
        tc_highWaterMark w \<le> Buffer_readableBytes (tc_outputBuffer w) + length rest
      then [RunCallback (HighWaterMarkCallback (Buffer_readableBytes (tc_outputBuffer w) + length rest))] else [])"
  define w1 where "w1 = w\<lparr>tc_outputBuffer := b, tc_pending := tc_pending w @ fs\<rparr>"
  have w1: "append_remaining update rest w =
      do { ch \<leftarrow> conn_channel w1; (if \<not> isWriting ch then on_loop (enableWriting update) w1 else Some w1) }"
  proof -
    define w0 where "w0 = (if Buffer_readableBytes (tc_outputBuffer w) + length rest \<ge> tc_highWaterMark w \<and>
        Buffer_readableBytes (tc_outputBuffer w) < tc_highWaterMark w \<and> tc_hasHighWaterMark w
      then queueInLoop (RunCallback (HighWaterMarkCallback
        (Buffer_readableBytes (tc_outputBuffer w) + length rest))) w else w)"
    have "tc_outputBuffer w0 = tc_outputBuffer w" "w0\<lparr>tc_outputBuffer := b\<rparr> = w1"
      by (simp_all add: w0_def w1_def fs_def queueInLoop_def)
    then show ?thesis unfolding append_remaining_def Let_def w0_def [symmetric] using b(1)
      by (simp cong: if_cong)
  qed
  have chan1: "chan_ok w1 ev" by (rule chan_ok_cong [OF chan]) (simp_all add: w1_def)
  have reg1: "registered w1" using reg by (simp add: registered_def w1_def)
  obtain ch where ch: "conn_channel w1 = Some ch" "isWriting ch \<longleftrightarrow> ev AND kWriteEvent \<noteq> 0"
    by (rule chan_ok_channel [OF chan1])
  show ?thesis
  proof (cases "isWriting ch")
    case True
    have "ev OR kWriteEvent = ev" using True ch(2) by (intro kWriteEvent_absorb) simp
    then show ?thesis
      using that [of fs b "tc_loop w"] True w1 ch(1) chan reg b by (simp add: w1_def fs_def)
  next
    case False
    obtain s' where s': "on_loop (\<lambda>_. channel_step update remove (EnableWriting (tc_channel w1))) w1 =
        Some (w1\<lparr>tc_loop := s'\<rparr>)" "chan_ok (w1\<lparr>tc_loop := s'\<rparr>) (ev OR kWriteEvent)"
      "registered (w1\<lparr>tc_loop := s'\<rparr>)"
      by (rule conn_channel_update [OF chan1 reg1, of "EnableWriting (tc_channel w1)"])
        (simp_all add: kWriteEvent_or)
    have "on_loop (enableWriting update) w1 = Some (w1\<lparr>tc_loop := s'\<rparr>)" using s'(1) by (simp add: on_loop_def)
    moreover have "chan_ok (w\<lparr>tc_loop := s'\<rparr>) (ev OR kWriteEvent)" "registered (w\<lparr>tc_loop := s'\<rparr>)"
      using s'(2,3) by (simp_all add: chan_ok_def registered_def w1_def)
    ultimately show ?thesis
      using that [of fs b s'] False w1 ch(1) b by (simp add: w1_def fs_def)
  qed
qed

lemma write_directly_spec:
  assumes wr: "write_ok write" and len: "length data \<le> max_size"
    and eq: "write_directly write data w = (nwrote, remaining, fault, w1)"
  obtains sk fs where "w1 = w\<lparr>tc_socket := sk, tc_pending := tc_pending w @ fs\<rparr>"
    and "0 \<le> nwrote" and "nwrote \<le> int (length data)" and "remaining = int (length data) - nwrote"
    and "sk_wire sk = sk_wire (tc_socket w) @ take (nat nwrote) data"
    and "sk_fd sk = sk_fd (tc_socket w)" and "sk_writeShut sk = sk_writeShut (tc_socket w)"
    and "fs = [] \<or> fs = [RunCallback WriteCompleteCallback]" and "fault \<longrightarrow> nwrote = 0"
    and "sk_writeShut (tc_socket w) \<and> data \<noteq> [] \<longrightarrow> fault"
proof -
  let ?sk = "tc_socket w"
  obtain r err where r: "write (sk_writes ?sk) (sk_writeShut ?sk) data = (r, err)" by fastforce
  note ok = write_okD [OF wr r]
  define sk where "sk = ?sk\<lparr>sk_wire := sk_wire ?sk @ take (nat r) data, sk_writes := sk_writes ?sk + 1\<rparr>"
  have sw: "sockets_write write data w = (r, err, w\<lparr>tc_socket := sk\<rparr>)"
    by (simp add: sockets_write_def r sk_def Let_def)
  show ?thesis
  proof (cases "0 \<le> r")
    case True
    have small: "(int (length data) - r) mod 2 ^ 64 = int (length data) - r"
      using True ok(2) len by (intro mod_pos_pos_trivial) (simp_all add: max_size_def)
    define fs where "fs = (if int (length data) - r = 0 \<and> tc_hasWriteComplete w
      then [RunCallback WriteCompleteCallback] else [])"
    have "nwrote = r" "remaining = int (length data) - r" "\<not> fault"
      "w1 = w\<lparr>tc_socket := sk, tc_pending := tc_pending w @ fs\<rparr>"
      using eq True unfolding write_directly_def sw Let_def prod.case small
      by (auto simp: fs_def queueInLoop_def)
    moreover have "fs = [] \<or> fs = [RunCallback WriteCompleteCallback]" by (simp add: fs_def)
    ultimately show ?thesis
      using that [of fs sk] True ok(2) ok(3) by (auto simp: sk_def)
  next
    case False
    then have "nwrote = 0" "remaining = int (length data)" "w1 = w\<lparr>tc_socket := sk, tc_pending := tc_pending w @ []\<rparr>"
      "fault \<longleftrightarrow> err \<noteq> EAGAIN \<and> (err = EPIPE \<or> err = ECONNRESET)"
      using eq unfolding write_directly_def sw Let_def prod.case by (auto simp: sk_def)
    then show ?thesis using that [of "[]" sk] False ok(3) by (simp add: sk_def)
  qed
qed

text \<open>The first part of \<open>sendInLoop\<close>: after the direct write, if there is one.\<close>

lemma sendInLoop_writes:
  assumes ok: "data_ok w" "chan_ok w ev" and st: "tc_state w \<noteq> kDisconnected" and wr: "write_ok write"
    and wev: "ev AND kWriteEvent \<noteq> 0 \<longleftrightarrow> Buffer_content (tc_outputBuffer w) \<noteq> []"
    and len: "length data \<le> max_size"
  obtains nwrote remaining fault sk fs where "sendInLoop write update data w = do {
      let w2 = (if fault then w\<lparr>tc_socket := sk, tc_pending := tc_pending w @ fs\<rparr>
        else w\<lparr>tc_socket := sk, tc_pending := tc_pending w @ fs, tc_accepted := tc_accepted w @ [data]\<rparr>);
      (if \<not> fault \<and> remaining > 0 then append_remaining update (drop nwrote data) w2 else Some w2) }"
    and "nwrote \<le> length data" and "remaining = length data - nwrote"
    and "sk_wire sk @ Buffer_content (tc_outputBuffer w) = concat (tc_accepted w) @ take nwrote data"
    and "sk_fd sk = sk_fd (tc_socket w)" and "sk_writeShut sk = sk_writeShut (tc_socket w)"
    and "fs = [] \<or> fs = [RunCallback WriteCompleteCallback]" and "fault \<longrightarrow> nwrote = 0"
    and "sk_writeShut (tc_socket w) \<and> data \<noteq> [] \<longrightarrow> fault"
proof -
  obtain ch where ch: "conn_channel w = Some ch" "isWriting ch \<longleftrightarrow> ev AND kWriteEvent \<noteq> 0"
    by (rule chan_ok_channel [OF ok(2)])
  have wf: "Buffer_wf (tc_outputBuffer w)"
    and stream: "sk_wire (tc_socket w) @ Buffer_content (tc_outputBuffer w) = concat (tc_accepted w)"
    and shut: "sk_writeShut (tc_socket w) \<longrightarrow> Buffer_content (tc_outputBuffer w) = []"
    using ok(1) st by (auto simp: data_ok_def)
  then have direct: "\<not> isWriting ch \<and> Buffer_readableBytes (tc_outputBuffer w) = 0 \<longleftrightarrow>
      Buffer_content (tc_outputBuffer w) = []"
    using ch(2) wev Buffer_content_empty [OF wf] by auto
  show ?thesis
  proof (cases "Buffer_content (tc_outputBuffer w) = []")
    case True
    obtain nwrote remaining fault w1 where eq: "write_directly write data w = (nwrote, remaining, fault, w1)"
      by (metis prod_cases4)
    obtain sk fs where w1: "w1 = w\<lparr>tc_socket := sk, tc_pending := tc_pending w @ fs\<rparr>"
      "0 \<le> nwrote" "nwrote \<le> int (length data)" "remaining = int (length data) - nwrote"
      "sk_wire sk = sk_wire (tc_socket w) @ take (nat nwrote) data"
      "sk_fd sk = sk_fd (tc_socket w)" "sk_writeShut sk = sk_writeShut (tc_socket w)"
      "fs = [] \<or> fs = [RunCallback WriteCompleteCallback]" "fault \<longrightarrow> nwrote = 0"
      "sk_writeShut (tc_socket w) \<and> data \<noteq> [] \<longrightarrow> fault"
      by (rule write_directly_spec [OF wr len eq]) blast
    have cmp: "nwrote < int (length data) \<longleftrightarrow> nat nwrote < length data" using w1(2) by linarith
    have "sendInLoop write update data w = do {
      let w2 = (if fault then w\<lparr>tc_socket := sk, tc_pending := tc_pending w @ fs\<rparr>
        else w\<lparr>tc_socket := sk, tc_pending := tc_pending w @ fs, tc_accepted := tc_accepted w @ [data]\<rparr>);
      (if \<not> fault \<and> length data - nat nwrote > 0 then append_remaining update (drop (nat nwrote) data) w2 else Some w2) }"
      using st ch(1) direct True eq w1(1-4) cmp by (auto simp: sendInLoop_def)
    then show ?thesis
    proof (rule that [of fault fs sk "length data - nat nwrote" "nat nwrote"])
      show "nat nwrote \<le> length data" using w1(3) by linarith
      show "sk_wire sk @ Buffer_content (tc_outputBuffer w) = concat (tc_accepted w) @ take (nat nwrote) data"
        using w1(5) stream True by simp
    qed (use w1 in simp_all)
  next
    case False
    have "sendInLoop write update data w = do {
      let w2 = w\<lparr>tc_accepted := tc_accepted w @ [data]\<rparr>;
      (if length data > 0 then append_remaining update data w2 else Some w2) }"
      using st ch(1) direct False by (auto simp: sendInLoop_def Let_def)
    then show ?thesis
      using False stream shut that [of False "[]" "tc_socket w" "length data" 0] by (simp add: Let_def)
  qed
qed

lemma sendInLoop_spec:
  assumes inv: "tc_inv w" and st: "tc_state w \<noteq> kConnecting" and wr: "write_ok write"
    and room: "Buffer_used (tc_outputBuffer w) + length data \<le> max_size"
  obtains w' where "sendInLoop write update data w = Some w'" and "tc_inv w'" and "frame w w'"
    and "tc_state w' = tc_state w" and "tc_inputBuffer w' = tc_inputBuffer w"
    and "volume w' \<le> volume w + length data" and "destroy_count w' = destroy_count w"
proof (cases "tc_state w = kDisconnected")
  case True
  then show ?thesis using that [of w] inv by (simp add: sendInLoop_def frame_refl)
next
  case False
  obtain ev where ok: "data_ok w" "chan_ok w ev" "state_ok w ev" using inv by (rule tc_invE)
  have est: "established w" using st False by (cases "tc_state w") (auto simp: established_def)
  have reg: "registered w" and wev: "ev AND kWriteEvent \<noteq> 0 \<longleftrightarrow> Buffer_content (tc_outputBuffer w) \<noteq> []"
    and rev: "ev AND kReadEvent \<noteq> 0 \<longleftrightarrow> tc_reading w"
    using ok(3) est by (auto simp: state_ok_def established_def split: StateE.splits)
  obtain nwrote remaining fault sk fs where eq: "sendInLoop write update data w = do {
      let w2 = (if fault then w\<lparr>tc_socket := sk, tc_pending := tc_pending w @ fs\<rparr>
        else w\<lparr>tc_socket := sk, tc_pending := tc_pending w @ fs, tc_accepted := tc_accepted w @ [data]\<rparr>);
      (if \<not> fault \<and> remaining > 0 then append_remaining update (drop nwrote data) w2 else Some w2) }"
    and w1: "nwrote \<le> length data" "remaining = length data - nwrote"
    "sk_wire sk @ Buffer_content (tc_outputBuffer w) = concat (tc_accepted w) @ take nwrote data"
    "sk_fd sk = sk_fd (tc_socket w)" "sk_writeShut sk = sk_writeShut (tc_socket w)"
    "fs = [] \<or> fs = [RunCallback WriteCompleteCallback]" "fault \<longrightarrow> nwrote = 0"
    "sk_writeShut (tc_socket w) \<and> data \<noteq> [] \<longrightarrow> fault"
  proof (rule sendInLoop_writes [OF ok(1,2) False wr wev, of data])
    show "length data \<le> max_size" using room by simp
  qed blast
  have fs: "list_all (functor_ok (tc_state w)) fs" "count_list fs ConnectDestroyed = 0"
    "sum_list (map functor_bytes fs) = 0" using w1(6) by auto
  define w2 where "w2 = w\<lparr>tc_socket := sk, tc_pending := tc_pending w @ fs, tc_accepted := tc_accepted w @ [data]\<rparr>"
  show ?thesis
  proof (cases "\<not> fault \<and> remaining > 0")
    case True
    have len: "length (drop nwrote data) \<le> length data" by simp
    have w2: "Buffer_wf (tc_outputBuffer w2)" "chan_ok w2 ev" "registered w2"
      "Buffer_used (tc_outputBuffer w2) + length (drop nwrote data) \<le> max_size"
      using ok reg room w1(4) len by (simp_all add: w2_def chan_ok_def data_ok_def registered_def)
    obtain s' b gs where g: "append_remaining update (drop nwrote data) w2 =
        Some (w2\<lparr>tc_loop := s', tc_outputBuffer := b, tc_pending := tc_pending w2 @ gs\<rparr>)"
      "chan_ok (w2\<lparr>tc_loop := s'\<rparr>) (ev OR kWriteEvent)" "registered (w2\<lparr>tc_loop := s'\<rparr>)"
      "Buffer_wf b" "Buffer_content b = Buffer_content (tc_outputBuffer w2) @ drop nwrote data"
      "Buffer_used b \<le> Buffer_used (tc_outputBuffer w2) + length (drop nwrote data)"
      "gs = [] \<or> (\<exists>n. gs = [RunCallback (HighWaterMarkCallback n)])"
      by (rule append_remaining_spec [OF w2]) (metis that)
    have gs: "list_all (functor_ok (tc_state w)) gs" "count_list gs ConnectDestroyed = 0"
      "sum_list (map functor_bytes gs) = 0" using g(7) by auto
    define w' where "w' = w2\<lparr>tc_loop := s', tc_outputBuffer := b, tc_pending := tc_pending w2 @ gs\<rparr>"
    have "data \<noteq> []" "Buffer_content b \<noteq> []" using True w1(2) g(5) by auto
    then have ne: "Buffer_content b \<noteq> []" "\<not> sk_writeShut (tc_socket w)" using w1(8) True by auto
    have "sk_wire sk @ Buffer_content b = concat (tc_accepted w) @ data"
    proof -
      have "sk_wire sk @ Buffer_content b = (sk_wire sk @ Buffer_content (tc_outputBuffer w)) @ drop nwrote data"
        using g(5) by (simp add: w2_def)
      then show ?thesis unfolding w1(3) by simp
    qed
    then have "data_ok w'"
      using ok(1) w1(5) g(4) fs gs ne
      by (auto simp: data_ok_def w'_def w2_def destroy_count_def connection_calls_def)
    moreover have "chan_ok w' (ev OR kWriteEvent)"
      by (rule chan_ok_cong [OF g(2)]) (simp_all add: w'_def)
    moreover have "state_ok w' (ev OR kWriteEvent)"
      using est g(3) ne rev event_flags(5,7) [of ev]
      by (auto simp: state_ok_def established_def w'_def w2_def registered_def split: StateE.splits)
    ultimately have "tc_inv w'" by (rule tc_invI)
    moreover have "frame w w'" using g(3) reg w1(4)
      by (simp add: frame_def w'_def w2_def established_def registered_def)
    moreover have "volume w' \<le> volume w + length data"
      using g(6,7) w1(6) by (auto simp: volume_def w'_def w2_def)
    moreover have "sendInLoop write update data w = Some w'"
      using True g(1) unfolding eq w2_def w'_def by simp
    ultimately show ?thesis using that [of w'] fs gs by (simp add: w'_def w2_def destroy_count_def)
  next
    case none_left: False
    define w' where "w' = (if fault then w\<lparr>tc_socket := sk, tc_pending := tc_pending w @ fs\<rparr> else w2)"
    have "fault \<or> remaining = 0" using none_left by auto
    then have "\<not> fault \<longrightarrow> take nwrote data = data" using w1(1,2) by auto
    then have "data_ok w'"
      using ok(1) w1(3,5,7) fs
      by (auto simp: data_ok_def w'_def w2_def destroy_count_def connection_calls_def)
    moreover have "chan_ok w' ev" by (rule chan_ok_cong [OF ok(2)]) (simp_all add: w'_def w2_def w1(4))
    moreover have "state_ok w' ev"
      using est reg wev rev w1(4)
      by (auto simp: state_ok_def established_def w'_def w2_def registered_def split: StateE.splits)
    ultimately have "tc_inv w'" by (rule tc_invI)
    moreover have "frame w w'" using reg w1(4)
      by (simp add: frame_def w'_def w2_def established_def registered_def)
    moreover have "volume w' \<le> volume w + length data"
      using w1(6) by (auto simp: volume_def w'_def w2_def)
    moreover have "sendInLoop write update data w = Some w'" using none_left unfolding eq w'_def w2_def by (auto simp: Let_def)
    ultimately show ?thesis using that [of w'] fs by (simp add: w'_def w2_def destroy_count_def)
  qed
qed

end

end
