(* ===== verification/TcpConnection_Run.thy ===== *)
theory TcpConnection_Run
  imports TcpConnection_Inv
begin

text \<open>
  Every operation, handler and step of a connection keeps the invariant of
  \<open>TcpConnection_Inv.thy\<close> and does not fail, for every poller that satisfies the contract, every
  script of the user's callbacks and every behaviour of the kernel that is documented.
\<close>

lemma Buffer_retrieveAll_used: "Buffer_used (Buffer_retrieveAll b) = kCheapPrepend"
  by (simp add: Buffer_used_def Buffer_retrieveAll_def)

lemma Buffer_retrieveAllAsString_eq:
  assumes "Buffer_wf b"
  shows "Buffer_retrieveAllAsString b = Some (Buffer_content b, Buffer_retrieveAll b)"
proof -
  obtain b' where b': "Buffer_retrieveAsString b (Buffer_readableBytes b) =
      Some (take (Buffer_readableBytes b) (Buffer_content b), b')"
      "Buffer_retrieve b (Buffer_readableBytes b) = Some b'"
    by (rule Buffer_retrieveAsString_spec [OF assms order_refl])
  moreover have "b' = Buffer_retrieveAll b" using b'(2) by (simp add: Buffer_retrieve_def)
  ultimately show ?thesis using assms by (simp add: Buffer_retrieveAllAsString_def)
qed

lemma length_content_le_used: "Buffer_wf b \<Longrightarrow> length (Buffer_content b) \<le> Buffer_used b"
  by (auto simp: Buffer_wf_def Buffer_used_def Buffer_readableBytes_def)

fun action_destroys :: "conn_action \<Rightarrow> nat" where
  "action_destroys (Queue ConnectDestroyed) = 1"
| "action_destroys _ = 0"

lemma action_destroys_Queue [simp]: "action_destroys (Queue f) = (if f = ConnectDestroyed then 1 else 0)"
  by (cases f) simp_all

definition script_destroys :: "conn_action list \<Rightarrow> nat" where
  "script_destroys as = sum_list (map action_destroys as)"

text \<open>A script that uses at most \<open>limit\<close> bytes for each callback and queues the destruction of the
  connection at most once, in the close callback.\<close>

definition script_ok :: "nat \<Rightarrow> conn_script \<Rightarrow> bool" where
  "script_ok limit script \<longleftrightarrow> (\<forall>cb st.
     list_all (action_ok (st = kConnected \<or> st = kDisconnecting) (cb = CloseCallback)) (script cb st) \<and>
     script_bytes (script cb st) \<le> limit \<and> script_destroys (script cb st) \<le> 1)"

lemma action_ok_open: "action_ok up False a \<Longrightarrow> action_destroys a = 0"
  by (cases "(up, False, a)" rule: action_ok.cases) simp_all

lemma script_okD:
  assumes "script_ok limit script"
  shows "list_all (action_ok (st = kConnected \<or> st = kDisconnecting) (cb = CloseCallback)) (script cb st)"
    and "script_bytes (script cb st) \<le> limit" and "script_destroys (script cb st) \<le> 1"
    and "cb \<noteq> CloseCallback \<Longrightarrow> script_destroys (script cb st) = 0"
proof -
  note ok = assms [unfolded script_ok_def, rule_format, of st cb]
  show "list_all (action_ok (st = kConnected \<or> st = kDisconnecting) (cb = CloseCallback)) (script cb st)"
    and "script_bytes (script cb st) \<le> limit" and "script_destroys (script cb st) \<le> 1"
    using ok by auto
  assume "cb \<noteq> CloseCallback"
  then have "list_all (\<lambda>a. action_destroys a = 0) (script cb st)"
    using ok action_ok_open by (auto simp: list_all_iff)
  then show "script_destroys (script cb st) = 0" by (simp add: list_all_iff script_destroys_def)
qed

fun arrived_bytes :: "int + char list \<Rightarrow> nat" where
  "arrived_bytes (Inl errno) = 0"
| "arrived_bytes (Inr data) = length data"

lemma readFd_kernel:
  assumes wf: "Buffer_wf b" and room: "Buffer_used b + arrived_bytes arrived \<le> max_size"
  obtains n e b' where "Buffer_readFd (kernel_read arrived) b = Some (n, e, b')" and "Buffer_wf b'"
    and "Buffer_used b' \<le> Buffer_used b + arrived_bytes arrived"
proof (cases arrived)
  case (Inl errno)
  then show ?thesis using that [of "-1" "Some errno" b] wf by (simp add: Buffer_readFd_def kernel_read_def Let_def)
next
  case (Inr data)
  define lens where "lens = (if Buffer_writableBytes b < extrabuf_size
    then [Buffer_writableBytes b, extrabuf_size] else [Buffer_writableBytes b])"
  define d where "d = take (sum_list lens) data"
  have r: "kernel_read arrived lens = Inr d" using Inr by (simp add: kernel_read_def d_def)
  have le: "length d \<le> length data" by (simp add: d_def)
  have "max kCheapPrepend (writerIndex b + min (length d) (Buffer_writableBytes b)) +
      (length d - Buffer_writableBytes b) \<le> Buffer_used b + length d"
    by (auto simp: Buffer_used_def max_def min_def)
  then have "max kCheapPrepend (writerIndex b + min (length d) (Buffer_writableBytes b)) +
      (length d - Buffer_writableBytes b) \<le> max_size" using room Inr le by simp
  from Buffer_readFd_success [of b "kernel_read arrived" d, OF wf r [unfolded lens_def] this] obtain b' where
    "Buffer_readFd (kernel_read arrived) b = Some (int (length d), None, b')" "Buffer_wf b'"
    "Buffer_used b' \<le> Buffer_used b + length d" by blast
  then show ?thesis using that Inr le by fastforce
qed

lemma run_all_fun:
  "run_all run [] = Some"
  "run_all run (f # fs) = (\<lambda>s. Option.bind (run f s) (run_all run fs))"
  by (rule ext; simp)+

text \<open>A kernel that takes at least one byte of every write on an open socket.\<close>

definition write_progress :: "write_fun \<Rightarrow> bool" where
  "write_progress write \<longleftrightarrow> (\<forall>n data. data \<noteq> [] \<longrightarrow> 0 < fst (write n False data))"

text \<open>A hang-up without input, reported together with urgent data or a half close: the channel
  calls the close callback and then the read callback.\<close>

definition close_and_read :: "events \<Rightarrow> bool" where
  "close_and_read revents \<longleftrightarrow> revents AND POLLHUP \<noteq> 0 \<and> \<not> revents AND POLLIN \<noteq> 0 \<and>
     revents AND (POLLIN OR POLLPRI OR POLLRDHUP) \<noteq> 0"

definition watched :: "'a conn \<Rightarrow> bool" where
  "watched w \<longleftrightarrow> (case conn_channel w of None \<Rightarrow> False | Some ch \<Rightarrow> ch_events ch \<noteq> 0)"

text \<open>What the server and the kernel do: a connection is made known once; events happen on channels
  that wait for events; a task works on a connection that is known; a connection that waits for
  no event is not force closed.\<close>

fun step_legal :: "conn_step \<Rightarrow> 'a conn \<Rightarrow> bool" where
  "step_legal Established w = (tc_state w = kConnecting)"
| "step_legal (Dispatch revents arrived t) w = (watched w \<and> \<not> close_and_read revents)"
| "step_legal (Task as) w = (tc_state w \<noteq> kConnecting \<and> list_all (action_ok (established w) False) as)"
| "step_legal RunPending w = (case tc_pending w of
     f # _ \<Rightarrow> f = ForceCloseInLoop \<longrightarrow> established w \<longrightarrow> watched w | [] \<Rightarrow> True)"
| "step_legal TimerFires w = True"

fun steps_legal :: "(conn_step \<Rightarrow> 'a conn \<Rightarrow> 'a conn option) \<Rightarrow> conn_step list \<Rightarrow> 'a conn \<Rightarrow> bool" where
  "steps_legal step [] w = True"
| "steps_legal step (x # xs) w = (step_legal x w \<and>
     (case step x w of None \<Rightarrow> True | Some w' \<Rightarrow> steps_legal step xs w'))"

text \<open>The bytes a step can add, when the script of a callback adds at most \<open>limit\<close>.\<close>

fun step_bytes :: "nat \<Rightarrow> conn_step \<Rightarrow> nat" where
  "step_bytes limit Established = limit"
| "step_bytes limit (Dispatch revents arrived t) = arrived_bytes arrived + 2 * limit"
| "step_bytes limit (Task as) = script_bytes as"
| "step_bytes limit RunPending = 2 * limit"
| "step_bytes limit TimerFires = 0"

context poller_contract
begin

text \<open>The operation keeps the invariant, holds at most \<open>n\<close> bytes more, and queues the destruction
  of the connection \<open>d\<close> times.\<close>

definition keeps :: "'a poller_scheme connection \<Rightarrow> nat \<Rightarrow> nat \<Rightarrow> 'a poller_scheme connection \<Rightarrow> bool" where
  "keeps w n d w' \<longleftrightarrow> tc_inv w' \<and> frame w w' \<and> volume w' \<le> volume w + n \<and> destroy_count w' = destroy_count w + d"

lemma keepsI:
  "tc_inv w' \<Longrightarrow> frame w w' \<Longrightarrow> volume w' \<le> volume w + n \<Longrightarrow> destroy_count w' = destroy_count w + d \<Longrightarrow> keeps w n d w'"
  by (simp add: keeps_def)

lemma keepsD:
  assumes "keeps w n d w'"
  shows "tc_inv w'" and "frame w w'" and "volume w' \<le> volume w + n" and "destroy_count w' = destroy_count w + d"
  using assms by (simp_all add: keeps_def)

lemma keeps_refl: "tc_inv w \<Longrightarrow> keeps w n 0 w"
  by (simp add: keeps_def frame_refl)

lemma keeps_trans: "keeps w n d w' \<Longrightarrow> keeps w' m e w'' \<Longrightarrow> keeps w (n + m) (d + e) w''"
  using frame_trans by (fastforce simp: keeps_def)

lemma frame_state: "frame w w' \<Longrightarrow> tc_state w \<noteq> kConnecting \<Longrightarrow> tc_state w' \<noteq> kConnecting"
  by (cases "tc_state w"; cases "tc_state w'") (auto simp: frame_def established_def)

lemma sendInLoop_keeps:
  assumes "tc_inv w" and "tc_state w \<noteq> kConnecting" and "write_ok write"
    and "Buffer_used (tc_outputBuffer w) + length data \<le> max_size"
  shows "\<exists>w'. sendInLoop write update data w = Some w' \<and> keeps w (length data) 0 w' \<and>
    tc_state w' = tc_state w \<and> tc_inputBuffer w' = tc_inputBuffer w"
  using sendInLoop_spec [OF assms] unfolding keeps_def by (metis add.right_neutral)

lemma queueInLoop_keeps:
  assumes "tc_inv w" and "tc_state w \<noteq> kConnecting" and "functor_ok (tc_state w) f"
    and "f = ConnectDestroyed \<longrightarrow> destroy_count w = 0 \<and> registered w"
  shows "keeps w (functor_bytes f) (if f = ConnectDestroyed then 1 else 0) (queueInLoop f w)"
proof -
  obtain ev where ok: "data_ok w" "chan_ok w ev" "state_ok w ev" using assms(1) by (rule tc_invE)
  have "data_ok (queueInLoop f w)"
    using ok(1) assms(3,4) by (auto simp: data_ok_def queueInLoop_def destroy_count_def connection_calls_def)
  moreover have "chan_ok (queueInLoop f w) ev" by (rule chan_ok_cong [OF ok(2)]) (simp_all add: queueInLoop_def)
  moreover have "state_ok (queueInLoop f w) ev"
    using ok(3) assms(2,4)
    by (auto simp: state_ok_def queueInLoop_def registered_def destroy_count_def split: StateE.splits)
  ultimately have "tc_inv (queueInLoop f w)" by (rule tc_invI)
  then show ?thesis
    by (rule keepsI) (simp_all add: queueInLoop_def frame_def established_def registered_def volume_def destroy_count_def)
qed

lemma disconnecting_keeps:
  assumes "tc_inv w" and "established w"
  shows "keeps w 0 0 (setState kDisconnecting w)"
proof -
  obtain ev where ok: "data_ok w" "chan_ok w ev" "state_ok w ev" using assms(1) by (rule tc_invE)
  have f: "functor_ok kDisconnecting f" if "functor_ok (tc_state w) f" for f
    using that assms(2) by (cases f) (auto simp: established_def)
  have "data_ok (setState kDisconnecting w)"
    using ok(1) assms(2) f
    by (auto simp: data_ok_def setState_def destroy_count_def connection_calls_def established_def list_all_iff)
  moreover have "chan_ok (setState kDisconnecting w) ev" by (rule chan_ok_cong [OF ok(2)]) (simp_all add: setState_def)
  moreover have "state_ok (setState kDisconnecting w) ev"
    using ok(3) assms(2) by (auto simp: state_ok_def setState_def registered_def established_def)
  ultimately have "tc_inv (setState kDisconnecting w)" by (rule tc_invI)
  then show ?thesis
    by (rule keepsI) (use assms(2) in \<open>auto simp: setState_def frame_def established_def registered_def volume_def destroy_count_def\<close>)
qed

lemma shutdownInLoop_keeps:
  assumes "tc_inv w" and st: "tc_state w = kDisconnecting \<or> tc_state w = kDisconnected"
  shows "\<exists>w'. shutdownInLoop w = Some w' \<and> keeps w 0 0 w' \<and> tc_state w' = tc_state w \<and>
    tc_outputBuffer w' = tc_outputBuffer w \<and> tc_accepted w' = tc_accepted w \<and>
    (tc_state w = kDisconnecting \<and> Buffer_content (tc_outputBuffer w) = [] \<longrightarrow> sk_writeShut (tc_socket w'))"
proof -
  obtain ev where ok: "data_ok w" "chan_ok w ev" "state_ok w ev" using assms(1) by (rule tc_invE)
  obtain ch where ch: "conn_channel w = Some ch" "isWriting ch \<longleftrightarrow> ev AND kWriteEvent \<noteq> 0"
    by (rule chan_ok_channel [OF ok(2)])
  show ?thesis
  proof (cases "isWriting ch")
    case True
    then have "tc_state w = kDisconnecting \<longrightarrow> Buffer_content (tc_outputBuffer w) \<noteq> []"
      using ok(3) ch(2) by (auto simp: state_ok_def)
    then show ?thesis using True ch(1) keeps_refl [OF assms(1)] by (auto simp: shutdownInLoop_def)
  next
    case False
    define w' where "w' = w\<lparr>tc_socket := (tc_socket w)\<lparr>sk_writeShut := True\<rparr>\<rparr>"
    have "data_ok w'"
      using ok(1,3) st False ch(2)
      by (auto simp: data_ok_def w'_def destroy_count_def connection_calls_def state_ok_def)
    moreover have "chan_ok w' ev" by (rule chan_ok_cong [OF ok(2)]) (simp_all add: w'_def)
    moreover have "state_ok w' ev"
      using ok(3) st by (auto simp: state_ok_def w'_def registered_def destroy_count_def)
    ultimately have "tc_inv w'" by (rule tc_invI)
    then have "keeps w 0 0 w'"
      by (rule keepsI) (simp_all add: w'_def frame_def established_def registered_def volume_def destroy_count_def)
    moreover have "shutdownInLoop w = Some w'" using ch(1) False by (simp add: shutdownInLoop_def w'_def)
    moreover have "tc_state w' = tc_state w" "tc_outputBuffer w' = tc_outputBuffer w" "tc_accepted w' = tc_accepted w" "sk_writeShut (tc_socket w')"
      by (simp_all add: w'_def)
    ultimately show ?thesis by blast
  qed
qed

text \<open>Reading is switched on or off: the events of the channel follow the flag.\<close>

lemma reading_keeps:
  assumes inv: "tc_inv w" and est: "established w" and ok: "data_ok w" "chan_ok w ev" "state_ok w ev"
    and s': "chan_ok (w\<lparr>tc_loop := s'\<rparr>) ev'" "registered (w\<lparr>tc_loop := s'\<rparr>)"
    and ev': "ev' AND kWriteEvent = ev AND kWriteEvent" "ev' AND kReadEvent \<noteq> 0 \<longleftrightarrow> r"
  shows "keeps w 0 0 (w\<lparr>tc_loop := s', tc_reading := r\<rparr>)"
proof -
  let ?w = "w\<lparr>tc_loop := s', tc_reading := r\<rparr>"
  have "data_ok ?w" using ok(1) by (simp add: data_ok_def destroy_count_def connection_calls_def)
  moreover have "chan_ok ?w ev'" by (rule chan_ok_cong [OF s'(1)]) simp_all
  moreover have "state_ok ?w ev'"
    using ok(3) est s'(2) ev' by (auto simp: state_ok_def established_def registered_def split: StateE.splits)
  ultimately have "tc_inv ?w" by (rule tc_invI)
  then show ?thesis
  proof (rule keepsI)
    have "registered w" using ok(3) est by (auto simp: state_ok_def established_def)
    then show "frame w ?w" using s'(2) by (simp add: frame_def established_def registered_def)
  qed (simp_all add: volume_def destroy_count_def)
qed

lemma startReadInLoop_keeps:
  assumes inv: "tc_inv w" and est: "established w"
  shows "\<exists>w'. startReadInLoop update w = Some w' \<and> keeps w 0 0 w' \<and> tc_state w' = tc_state w"
proof -
  obtain ev where ok: "data_ok w" "chan_ok w ev" "state_ok w ev" using inv by (rule tc_invE)
  obtain ch where ch: "conn_channel w = Some ch" by (rule chan_ok_channel [OF ok(2)])
  have reg: "registered w" using ok(3) est by (auto simp: state_ok_def established_def)
  obtain s' where s': "on_loop (\<lambda>_. channel_step update remove (EnableReading (tc_channel w))) w =
      Some (w\<lparr>tc_loop := s'\<rparr>)" "chan_ok (w\<lparr>tc_loop := s'\<rparr>) (ev OR kReadEvent)" "registered (w\<lparr>tc_loop := s'\<rparr>)"
    by (rule conn_channel_update [OF ok(2) reg, of "EnableReading (tc_channel w)"]) (simp_all add: kReadEvent_or)
  have "on_loop (enableReading update) w = Some (w\<lparr>tc_loop := s'\<rparr>)" using s'(1) by (simp add: on_loop_def)
  moreover have "keeps w 0 0 (w\<lparr>tc_loop := s', tc_reading := True\<rparr>)"
    by (rule reading_keeps [OF inv est ok s'(2,3)]) (simp_all only: event_flags simp_thms not_False_eq_True)
  ultimately show ?thesis using ch keeps_refl [OF inv] by (simp add: startReadInLoop_def)
qed

lemma stopReadInLoop_keeps:
  assumes inv: "tc_inv w" and est: "established w"
  shows "\<exists>w'. stopReadInLoop update w = Some w' \<and> keeps w 0 0 w' \<and> tc_state w' = tc_state w"
proof -
  obtain ev where ok: "data_ok w" "chan_ok w ev" "state_ok w ev" using inv by (rule tc_invE)
  obtain ch where ch: "conn_channel w = Some ch" "isReading ch \<longleftrightarrow> ev AND kReadEvent \<noteq> 0"
    by (rule chan_ok_channel [OF ok(2)])
  have reg: "registered w" and rd: "ev AND kReadEvent \<noteq> 0 \<longleftrightarrow> tc_reading w"
    using ok(3) est by (auto simp: state_ok_def established_def)
  show ?thesis
  proof (cases "tc_reading w")
    case False
    then show ?thesis using ch rd keeps_refl [OF inv] by (simp add: stopReadInLoop_def)
  next
    case True
    then have "ev \<noteq> 0" using rd by auto
    then obtain s' where s': "on_loop (\<lambda>_. channel_step update remove (DisableReading (tc_channel w))) w =
        Some (w\<lparr>tc_loop := s'\<rparr>)" "chan_ok (w\<lparr>tc_loop := s'\<rparr>) (ev AND NOT kReadEvent)"
        "registered (w\<lparr>tc_loop := s'\<rparr>)"
      using conn_channel_update [OF ok(2) reg, of "DisableReading (tc_channel w)"] by (metis channel_op.distinct op_channel.simps(2) op_events.simps(2) is_remove.simps(3))
    have "on_loop (disableReading update) w = Some (w\<lparr>tc_loop := s'\<rparr>)" using s'(1) by (simp add: on_loop_def)
    moreover have "keeps w 0 0 (w\<lparr>tc_loop := s', tc_reading := False\<rparr>)"
      by (rule reading_keeps [OF inv est ok s'(2,3)]) (simp_all add: event_flags)
    ultimately show ?thesis using ch(1) True by (simp add: stopReadInLoop_def)
  qed
qed

lemma input_keeps:
  assumes "tc_inv w" and "Buffer_wf b" and "Buffer_used b \<le> Buffer_used (tc_inputBuffer w) + n"
  shows "keeps w n 0 (w\<lparr>tc_inputBuffer := b\<rparr>)"
proof -
  obtain ev where ok: "data_ok w" "chan_ok w ev" "state_ok w ev" using assms(1) by (rule tc_invE)
  let ?w = "w\<lparr>tc_inputBuffer := b\<rparr>"
  have "data_ok ?w" using ok(1) assms(2) by (simp add: data_ok_def destroy_count_def connection_calls_def)
  moreover have "chan_ok ?w ev" by (rule chan_ok_cong [OF ok(2)]) simp_all
  moreover have "state_ok ?w ev"
    using ok(3) by (auto simp: state_ok_def registered_def destroy_count_def split: StateE.splits)
  ultimately have "tc_inv ?w" by (rule tc_invI)
  then show ?thesis
    by (rule keepsI) (use assms(3) in \<open>simp_all add: frame_def established_def registered_def volume_def destroy_count_def\<close>)
qed

lemma discard_keeps:
  assumes "tc_inv w"
  shows "keeps w kCheapPrepend 0 (w\<lparr>tc_inputBuffer := Buffer_retrieveAll (tc_inputBuffer w)\<rparr>)"
proof (rule input_keeps [OF assms])
  show "Buffer_wf (Buffer_retrieveAll (tc_inputBuffer w))" using assms by (auto simp: tc_inv_def data_ok_def)
qed (simp add: Buffer_retrieveAll_used)

lemma timers_keeps:
  assumes "tc_inv w" and "tc_state w \<noteq> kConnecting"
  shows "keeps w 0 0 (w\<lparr>tc_timers := ts\<rparr>)"
proof -
  obtain ev where ok: "data_ok w" "chan_ok w ev" "state_ok w ev" using assms(1) by (rule tc_invE)
  let ?w = "w\<lparr>tc_timers := ts\<rparr>"
  have "data_ok ?w" using ok(1) by (simp add: data_ok_def destroy_count_def connection_calls_def)
  moreover have "chan_ok ?w ev" by (rule chan_ok_cong [OF ok(2)]) simp_all
  moreover have "state_ok ?w ev"
    using ok(3) assms(2) by (auto simp: state_ok_def registered_def destroy_count_def split: StateE.splits)
  ultimately have "tc_inv ?w" by (rule tc_invI)
  then show ?thesis
    by (rule keepsI) (simp_all add: frame_def established_def registered_def volume_def destroy_count_def)
qed

lemma send_keeps:
  assumes inv: "tc_inv w" and st: "tc_state w \<noteq> kConnecting" and wr: "write_ok write"
    and room: "volume w + length m \<le> max_size"
  shows "\<exists>w'. TcpConnection_send write update inLoop m w = Some w' \<and> keeps w (length m) 0 w'"
proof -
  have "Buffer_used (tc_outputBuffer w) + length m \<le> max_size" using room by (simp add: volume_def)
  from sendInLoop_keeps [OF inv st wr this] queueInLoop_keeps [OF inv st, of "SendInLoop m"] keeps_refl [OF inv]
  show ?thesis by (auto simp: TcpConnection_send_def)
qed

lemma sendBuffer_keeps:
  assumes inv: "tc_inv w" and st: "tc_state w \<noteq> kConnecting" and wr: "write_ok write"
    and room: "volume w \<le> max_size"
  shows "\<exists>w'. TcpConnection_sendBuffer write update inLoop w = Some w' \<and> keeps w kCheapPrepend 0 w'"
proof -
  let ?b = "tc_inputBuffer w"
  let ?w0 = "w\<lparr>tc_inputBuffer := Buffer_retrieveAll ?b\<rparr>"
  have wf: "Buffer_wf ?b" using inv by (auto simp: tc_inv_def data_ok_def)
  have len: "length (Buffer_content ?b) \<le> Buffer_used ?b" by (rule length_content_le_used [OF wf])
  consider (skip) "tc_state w \<noteq> kConnected" | (direct) "tc_state w = kConnected" inLoop
    | (queued) "tc_state w = kConnected" "\<not> inLoop" by blast
  then show ?thesis
  proof cases
    case skip
    then show ?thesis using keeps_refl [OF inv] by (simp add: TcpConnection_sendBuffer_def)
  next
    case direct
    have "Buffer_used (tc_outputBuffer w) + length (Buffer_content ?b) \<le> max_size"
      using room len by (simp add: volume_def)
    from sendInLoop_keeps [OF inv st wr this] obtain w1 where
      w1: "sendInLoop write update (Buffer_content ?b) w = Some w1" "keeps w (length (Buffer_content ?b)) 0 w1"
        "tc_inputBuffer w1 = ?b" by blast
    let ?w' = "w1\<lparr>tc_inputBuffer := Buffer_retrieveAll ?b\<rparr>"
    have k: "keeps w1 kCheapPrepend 0 ?w'" using discard_keeps [OF keepsD(1) [OF w1(2)]] w1(3) by simp
    have "volume w1 = volume ?w' + Buffer_used ?b - kCheapPrepend" "kCheapPrepend \<le> volume ?w'"
      using w1(3) by (simp_all add: volume_def Buffer_retrieveAll_used)
    then have "volume ?w' \<le> volume w + kCheapPrepend" using keepsD(3) [OF w1(2)] len by simp
    then have "keeps w kCheapPrepend 0 ?w'"
      using keepsD(1,2,4) [OF k] keepsD(2,4) [OF w1(2)] frame_trans by (intro keepsI) auto
    moreover have "TcpConnection_sendBuffer write update inLoop w = Some ?w'"
      using w1(1,3) direct by (simp add: TcpConnection_sendBuffer_def)
    ultimately show ?thesis by blast
  next
    case queued
    have k: "keeps w kCheapPrepend 0 ?w0" by (rule discard_keeps [OF inv])
    let ?w' = "queueInLoop (SendInLoop (Buffer_content ?b)) ?w0"
    have k': "keeps ?w0 (length (Buffer_content ?b)) 0 ?w'"
      using queueInLoop_keeps [OF keepsD(1) [OF k], of "SendInLoop (Buffer_content ?b)"] st by simp
    have "volume ?w' + Buffer_used ?b = volume w + kCheapPrepend + length (Buffer_content ?b)"
      by (simp add: volume_def queueInLoop_def Buffer_retrieveAll_used)
    then have "keeps w kCheapPrepend 0 ?w'"
      using keepsD(1,2,4) [OF k'] keepsD(2,4) [OF k] frame_trans len by (intro keepsI) auto
    moreover have "TcpConnection_sendBuffer write update inLoop w = Some ?w'"
      using queued wf by (simp add: TcpConnection_sendBuffer_def Buffer_retrieveAllAsString_eq)
    ultimately show ?thesis by blast
  qed
qed

lemma shutdown_keeps:
  assumes inv: "tc_inv w"
  shows "\<exists>w'. TcpConnection_shutdown inLoop w = Some w' \<and> keeps w 0 0 w'"
proof (cases "tc_state w = kConnected")
  case False
  then show ?thesis using keeps_refl [OF inv] by (simp add: TcpConnection_shutdown_def)
next
  case True
  let ?w = "setState kDisconnecting w"
  have st: "tc_state ?w = kDisconnecting" by (simp add: setState_def)
  have k: "keeps w 0 0 ?w" using True by (intro disconnecting_keeps [OF inv]) (simp add: established_def)
  from shutdownInLoop_keeps [OF keepsD(1) [OF k]] st obtain w' where
    "shutdownInLoop ?w = Some w'" "keeps ?w 0 0 w'" by auto
  moreover have "keeps ?w 0 0 (queueInLoop ShutdownInLoop ?w)"
    using queueInLoop_keeps [OF keepsD(1) [OF k], of ShutdownInLoop] st by simp
  ultimately show ?thesis
    using True keeps_trans [OF k] by (cases inLoop) (fastforce simp: TcpConnection_shutdown_def)+
qed

lemma forceClose_keeps:
  assumes inv: "tc_inv w"
  shows "keeps w 0 0 (forceClose w)"
proof (cases "established w")
  case False
  then show ?thesis using keeps_refl [OF inv] by (simp add: forceClose_def established_def)
next
  case True
  let ?w = "setState kDisconnecting w"
  have k: "keeps w 0 0 ?w" by (rule disconnecting_keeps [OF inv True])
  have "keeps ?w 0 0 (queueInLoop ForceCloseInLoop ?w)"
    using queueInLoop_keeps [OF keepsD(1) [OF k], of ForceCloseInLoop] by (simp add: setState_def)
  from keeps_trans [OF k this] show ?thesis using True by (simp add: forceClose_def established_def)
qed

lemma forceCloseWithDelay_keeps:
  assumes inv: "tc_inv w"
  shows "keeps w 0 0 (forceCloseWithDelay seconds w)"
proof (cases "established w")
  case False
  then show ?thesis using keeps_refl [OF inv] by (simp add: forceCloseWithDelay_def established_def)
next
  case True
  let ?w = "setState kDisconnecting w"
  have k: "keeps w 0 0 ?w" by (rule disconnecting_keeps [OF inv True])
  have "keeps ?w 0 0 (?w\<lparr>tc_timers := tc_timers w @ [seconds]\<rparr>)"
    by (rule timers_keeps [OF keepsD(1) [OF k]]) (simp add: setState_def)
  from keeps_trans [OF k this] show ?thesis using True by (simp add: forceCloseWithDelay_def established_def)
qed

subsection \<open>Callbacks of the user\<close>

lemma run_action_keeps:
  assumes inv: "tc_inv w" and st: "tc_state w \<noteq> kConnecting" and wr: "write_ok write"
    and ok: "action_ok (established w) closing a"
    and closing: "closing \<longrightarrow> tc_state w = kDisconnected \<and> registered w"
    and room: "volume w + action_bytes a \<le> max_size" and once: "destroy_count w + action_destroys a \<le> 1"
  shows "\<exists>w'. run_action write update a w = Some w' \<and> keeps w (action_bytes a) (action_destroys a) w'"
proof (cases a)
  case (Send inLoop m)
  then show ?thesis using send_keeps [OF inv st wr] room by simp
next
  case (Echo inLoop)
  then show ?thesis using sendBuffer_keeps [OF inv st wr] room by simp
next
  case Discard
  then show ?thesis using discard_keeps [OF inv] by simp
next
  case (Shutdown inLoop)
  then show ?thesis using shutdown_keeps [OF inv] by (fastforce simp: keeps_def)
next
  case ForceClose
  then show ?thesis using forceClose_keeps [OF inv] by (auto simp: keeps_def)
next
  case (ForceCloseWithDelay seconds)
  then show ?thesis using forceCloseWithDelay_keeps [OF inv, of seconds] by (auto simp: keeps_def)
next
  case (StartRead inLoop)
  then show ?thesis using startReadInLoop_keeps [OF inv] ok by (fastforce simp: startRead_def keeps_def)
next
  case (StopRead inLoop)
  then show ?thesis using stopReadInLoop_keeps [OF inv] ok by (fastforce simp: stopRead_def keeps_def)
next
  case (Queue f)
  have "functor_ok (tc_state w) f" "f = ConnectDestroyed \<longrightarrow> destroy_count w = 0 \<and> registered w"
    using ok closing once Queue by (cases f; simp)+
  from queueInLoop_keeps [OF inv st this] show ?thesis using Queue by (auto simp: keeps_def)
qed

lemma run_script_keeps:
  assumes "tc_inv w" and "tc_state w \<noteq> kConnecting" and wr: "write_ok write"
    and "list_all (action_ok (established w) closing) as"
    and "closing \<longrightarrow> tc_state w = kDisconnected \<and> registered w"
    and "volume w + script_bytes as \<le> max_size" and "destroy_count w + script_destroys as \<le> 1"
  shows "\<exists>w'. run_all (run_action write update) as w = Some w' \<and>
    keeps w (script_bytes as) (script_destroys as) w'"
  using assms(1,2,4-7)
proof (induction as arbitrary: w)
  case Nil
  then show ?case using keeps_refl by (simp add: script_bytes_def script_destroys_def)
next
  case (Cons a as)
  have room: "volume w + action_bytes a + script_bytes as \<le> max_size"
    and once: "destroy_count w + action_destroys a + script_destroys as \<le> 1"
    using Cons.prems(5,6) by (simp_all add: script_bytes_def script_destroys_def)
  have "\<exists>w'. run_action write update a w = Some w' \<and> keeps w (action_bytes a) (action_destroys a) w'"
    by (rule run_action_keeps [where closing = closing]) (use Cons.prems room once wr in simp_all)
  then obtain w1 where w1: "run_action write update a w = Some w1"
    "keeps w (action_bytes a) (action_destroys a) w1" by blast
  have fr: "established w1 = established w" "registered w1 = registered w"
    "tc_state w1 = kDisconnected \<longleftrightarrow> tc_state w = kDisconnected" "tc_state w1 \<noteq> kConnecting"
    using keepsD(2) [OF w1(2)] frame_state [OF keepsD(2) [OF w1(2)] Cons.prems(2)] by (auto simp: frame_def)
  have "\<exists>w'. run_all (run_action write update) as w1 = Some w' \<and>
      keeps w1 (script_bytes as) (script_destroys as) w'"
    by (rule Cons.IH) (use keepsD [OF w1(2)] fr Cons.prems room once in simp_all)
  then show ?case using w1 keeps_trans [OF w1(2)] by (fastforce simp: script_bytes_def script_destroys_def)
qed

text \<open>The call of a callback goes into the history.\<close>

definition note_call :: "conn_callback \<Rightarrow> 'a poller_scheme connection \<Rightarrow> 'a poller_scheme connection" where
  "note_call cb w = w\<lparr>tc_calls := tc_calls w @ [(cb, tc_state w)]\<rparr>"

lemma run_callback_eq:
  "run_callback write update script cb w =
     run_all (run_action write update) (script cb (tc_state w)) (note_call cb w)"
  by (simp add: run_callback_def note_call_def)

lemma note_call_keeps:
  assumes "tc_inv w" and "cb \<noteq> ConnectionCallback"
  shows "keeps w 0 0 (note_call cb w)"
proof -
  obtain ev where ok: "data_ok w" "chan_ok w ev" "state_ok w ev" using assms(1) by (rule tc_invE)
  have "data_ok (note_call cb w)"
    using ok(1) assms(2) by (simp add: data_ok_def note_call_def destroy_count_def connection_calls_def)
  moreover have "chan_ok (note_call cb w) ev" by (rule chan_ok_cong [OF ok(2)]) (simp_all add: note_call_def)
  moreover have "state_ok (note_call cb w) ev"
    using ok(3) by (auto simp: state_ok_def note_call_def registered_def destroy_count_def split: StateE.splits)
  ultimately have "tc_inv (note_call cb w)" by (rule tc_invI)
  then show ?thesis
    by (rule keepsI) (simp_all add: note_call_def frame_def established_def registered_def volume_def destroy_count_def)
qed

text \<open>The script of a callback other than the close callback.\<close>

lemma run_script_open:
  assumes inv: "tc_inv w" and st: "tc_state w \<noteq> kConnecting" and wr: "write_ok write"
    and ok: "script_ok limit script" and cb: "cb \<noteq> CloseCallback" and room: "volume w + limit \<le> max_size"
  shows "\<exists>w'. run_all (run_action write update) (script cb (tc_state w)) w = Some w' \<and> keeps w limit 0 w'"
proof -
  let ?as = "script cb (tc_state w)"
  have as: "list_all (action_ok (established w) False) ?as" "script_destroys ?as = 0"
    "script_bytes ?as \<le> limit" using script_okD [OF ok, where cb = cb and st = "tc_state w"] cb by (auto simp: established_def)
  have "\<exists>w'. run_all (run_action write update) ?as w = Some w' \<and>
      keeps w (script_bytes ?as) (script_destroys ?as) w'"
    by (rule run_script_keeps [OF inv st wr as(1)])
      (use as room inv in \<open>auto simp: tc_inv_def data_ok_def\<close>)
  then show ?thesis using as unfolding keeps_def by fastforce
qed

lemma run_callback_open:
  assumes inv: "tc_inv w" and st: "tc_state w \<noteq> kConnecting" and wr: "write_ok write"
    and ok: "script_ok limit script" and cb: "cb \<noteq> CloseCallback" "cb \<noteq> ConnectionCallback"
    and room: "volume w + limit \<le> max_size"
  shows "\<exists>w'. run_callback write update script cb w = Some w' \<and> keeps w limit 0 w'"
proof -
  have k: "keeps w 0 0 (note_call cb w)" by (rule note_call_keeps [OF inv cb(2)])
  have eq: "tc_state (note_call cb w) = tc_state w" by (simp add: note_call_def)
  from run_script_open [OF keepsD(1) [OF k] _ wr ok cb(1)] keepsD(3) [OF k] st eq room
  obtain w' where "run_all (run_action write update) (script cb (tc_state w)) (note_call cb w) = Some w'"
    "keeps (note_call cb w) limit 0 w'" by auto
  then show ?thesis using keeps_trans [OF k] by (fastforce simp: run_callback_eq)
qed

subsection \<open>Handlers\<close>

text \<open>The operation keeps the invariant and holds at most \<open>n\<close> bytes more; the connection may have
  been closed.\<close>

definition moves :: "'a poller_scheme connection \<Rightarrow> nat \<Rightarrow> 'a poller_scheme connection \<Rightarrow> bool" where
  "moves w n w' \<longleftrightarrow> tc_inv w' \<and> tc_state w' \<noteq> kConnecting \<and> volume w' \<le> volume w + n"

lemma keeps_moves: "keeps w n d w' \<Longrightarrow> tc_state w \<noteq> kConnecting \<Longrightarrow> moves w n w'"
  using frame_state by (auto simp: moves_def keeps_def)

lemma moves_trans: "moves w n w' \<Longrightarrow> moves w' m w'' \<Longrightarrow> moves w (n + m) w''"
  by (simp add: moves_def)

lemma moves_mono: "moves w n w' \<Longrightarrow> n \<le> m \<Longrightarrow> moves w m w'"
  by (simp add: moves_def)

lemma run_callback_close:
  assumes inv: "tc_inv w" and st: "tc_state w = kDisconnected" "registered w" "destroy_count w = 0"
    and wr: "write_ok write" and ok: "script_ok limit script" and room: "volume w + limit \<le> max_size"
  shows "\<exists>w'. run_callback write update script CloseCallback w = Some w' \<and> moves w limit w'"
proof -
  let ?w = "note_call CloseCallback w" and ?as = "script CloseCallback (tc_state w)"
  have k: "keeps w 0 0 ?w" by (rule note_call_keeps [OF inv]) simp
  have eq: "tc_state ?w = kDisconnected" "registered ?w" "\<not> established ?w" "destroy_count ?w = 0"
    using st by (simp_all add: note_call_def registered_def established_def destroy_count_def)
  have as: "list_all (action_ok (established ?w) True) ?as" "script_bytes ?as \<le> limit" "script_destroys ?as \<le> 1"
    using script_okD(1-3) [OF ok, where cb = CloseCallback and st = "tc_state w"] st(1) eq(3) by auto
  have "\<exists>w'. run_all (run_action write update) ?as ?w = Some w' \<and>
      keeps ?w (script_bytes ?as) (script_destroys ?as) w'"
    by (rule run_script_keeps [OF keepsD(1) [OF k] _ wr as(1)]) (use eq as keepsD(3) [OF k] room in auto)
  then obtain w' where "run_all (run_action write update) ?as ?w = Some w'"
    "keeps ?w (script_bytes ?as) (script_destroys ?as) w'" by blast
  then show ?thesis using keeps_moves [OF keeps_trans [OF k]] st(1) as(2)
    by (auto simp: run_callback_eq intro: moves_mono)
qed

lemma functor_ok_established:
  assumes "functor_ok st f" and "st = kConnected \<or> st = kDisconnecting"
  shows "functor_ok kDisconnected f" and "f \<noteq> ConnectDestroyed"
  using assms by (cases f; auto)+

lemma established_no_destroy: "data_ok w \<Longrightarrow> established w \<Longrightarrow> destroy_count w = 0"
  using functor_ok_established(2)
  by (fastforce simp: data_ok_def destroy_count_def established_def count_list_0_iff list_all_iff)

text \<open>Going down: the channel is disabled and the connection callback is called.\<close>

lemma close_noted:
  assumes ok: "data_ok w" "chan_ok w ev" "state_ok w ev" and est: "established w" and ev: "ev \<noteq> 0"
  obtains s' where "on_loop (disableAll update) (setState kDisconnected w) =
      Some (w\<lparr>tc_state := kDisconnected, tc_loop := s'\<rparr>)"
    and "tc_inv (note_call ConnectionCallback (w\<lparr>tc_state := kDisconnected, tc_loop := s'\<rparr>))"
    and "registered (w\<lparr>tc_loop := s'\<rparr>)"
proof -
  have reg: "registered w" using ok(3) est by (auto simp: state_ok_def established_def)
  obtain s' where s': "on_loop (\<lambda>_. channel_step update remove (DisableAll (tc_channel w))) w =
      Some (w\<lparr>tc_loop := s'\<rparr>)" "chan_ok (w\<lparr>tc_loop := s'\<rparr>) 0" "registered (w\<lparr>tc_loop := s'\<rparr>)"
    using conn_channel_update [OF ok(2) reg, of "DisableAll (tc_channel w)"] ev by auto
  let ?w = "note_call ConnectionCallback (w\<lparr>tc_state := kDisconnected, tc_loop := s'\<rparr>)"
  have "disableAll update (tc_channel w) (tc_loop w) = Some s'"
    using s'(1) by (cases "disableAll update (tc_channel w) (tc_loop w)") (auto simp: on_loop_def dest: arg_cong [of _ _ tc_loop])
  then have eq: "on_loop (disableAll update) (setState kDisconnected w) =
      Some (w\<lparr>tc_state := kDisconnected, tc_loop := s'\<rparr>)" by (simp add: on_loop_def setState_def)
  have "connection_calls w = [kConnected]" using ok(1) est by (auto simp: data_ok_def established_def)
  moreover have "list_all (functor_ok kDisconnected) (tc_pending w)"
    using ok(1) est functor_ok_established(1) unfolding data_ok_def list_all_iff established_def by blast
  ultimately have "data_ok ?w"
    using ok(1) by (auto simp: data_ok_def note_call_def destroy_count_def connection_calls_def)
  moreover have "chan_ok ?w 0" by (rule chan_ok_cong [OF s'(2)]) (simp_all add: note_call_def)
  moreover have "state_ok ?w 0" using s'(3) by (simp add: state_ok_def note_call_def registered_def)
  ultimately show ?thesis using that eq s'(3) tc_invI by blast
qed

lemma handleClose_moves:
  assumes ok: "data_ok w" "chan_ok w ev" "state_ok w ev" and est: "established w" and ev: "ev \<noteq> 0"
    and wr: "write_ok write" and script: "script_ok limit script" and room: "volume w + 2 * limit \<le> max_size"
  shows "\<exists>w'. handleClose write update script w = Some w' \<and> moves w (2 * limit) w'"
proof -
  obtain s' where s': "on_loop (disableAll update) (setState kDisconnected w) =
      Some (w\<lparr>tc_state := kDisconnected, tc_loop := s'\<rparr>)"
    "tc_inv (note_call ConnectionCallback (w\<lparr>tc_state := kDisconnected, tc_loop := s'\<rparr>))"
    "registered (w\<lparr>tc_loop := s'\<rparr>)" by (rule close_noted [OF ok est ev])
  let ?w = "w\<lparr>tc_state := kDisconnected, tc_loop := s'\<rparr>"
  let ?n = "note_call ConnectionCallback ?w"
  have n: "volume ?n = volume w" "destroy_count ?n = 0" "registered ?n" "tc_state ?n = kDisconnected"
    using established_no_destroy [OF ok(1) est] s'(3)
    by (simp_all add: note_call_def volume_def destroy_count_def registered_def)
  have "\<exists>w'. run_all (run_action write update) (script ConnectionCallback (tc_state ?n)) ?n = Some w' \<and>
      keeps ?n limit 0 w'"
    by (rule run_script_open [OF s'(2) _ wr script]) (use n room in simp_all)
  then obtain w1 where w1: "run_callback write update script ConnectionCallback ?w = Some w1" "keeps ?n limit 0 w1"
    unfolding run_callback_eq by (auto simp: note_call_def)
  have "tc_state w1 = kDisconnected" "registered w1" "destroy_count w1 = 0" "volume w1 \<le> volume w + limit"
    using keepsD(2-4) [OF w1(2)] n by (auto simp: frame_def)
  moreover from this have "\<exists>w'. run_callback write update script CloseCallback w1 = Some w' \<and> moves w1 limit w'"
    by (intro run_callback_close [OF keepsD(1) [OF w1(2)] _ _ _ wr script]) (use room in simp_all)
  moreover have "tc_state w = kConnected \<or> tc_state w = kDisconnecting" using est by (simp add: established_def)
  ultimately show ?thesis using s'(1) w1(1) by (auto simp: handleClose_def moves_def)
qed

lemma tied_channel:
  assumes "chan_ok w ev" and "chans (tc_loop w) (tc_channel w) = Some ch"
    and "s = (tc_loop w)\<lparr>chans := (chans (tc_loop w))(tc_channel w \<mapsto> ch\<lparr>ch_tie := p, ch_tied := True\<rparr>)\<rparr>"
  shows "inv s" and "view s = view (tc_loop w)" and "handlers s = handlers (tc_loop w)"
    and "fresh (tc_loop w) c \<Longrightarrow> fresh s c"
proof -
  have "same_watch (chans (tc_loop w)) (chans s)" using assms(2,3) by (auto simp: same_watch_def)
  then show "inv s" using inv_chans [of "tc_loop w"] assms(1,3) by (simp add: chan_ok_def)
  show "view s = view (tc_loop w)" "handlers s = handlers (tc_loop w)" "fresh (tc_loop w) c \<Longrightarrow> fresh s c"
    using assms(2,3) by (auto simp: view_def handlers_def fresh_def)
qed

lemma connectEstablished_up:
  assumes inv: "tc_inv w" and st: "tc_state w = kConnecting" 
  obtains w1 s' where "on_loop (\<lambda>c. Channel_tie c self) (setState kConnected w) = Some w1"
    and "on_loop (enableReading update) w1 = Some (w\<lparr>tc_state := kConnected, tc_loop := s'\<rparr>)"
    and "tc_inv (note_call ConnectionCallback (w\<lparr>tc_state := kConnected, tc_loop := s'\<rparr>))"
proof -
  obtain ev where ok: "data_ok w" "chan_ok w ev" "state_ok w ev" using inv by (rule tc_invE)
  let ?c = "tc_channel w" and ?fd = "sk_fd (tc_socket w)"
  have new: "ev = 0" "fresh (tc_loop w) ?c" "channels_map (tc_loop w) ?fd = None" "0 \<le> ?fd" "?fd < int_max"
    "tc_pending w = []" "tc_reading w" "Buffer_content (tc_outputBuffer w) = []"
    using ok(3) st by (simp_all add: state_ok_def)
  obtain ch where ch: "conn_channel w = Some ch" "ch_events ch = ev" by (rule chan_ok_channel [OF ok(2)])
  then have ch': "chans (tc_loop w) ?c = Some ch" by (simp add: conn_channel_def)
  define s where "s = (tc_loop w)\<lparr>chans := (chans (tc_loop w))(?c \<mapsto> ch\<lparr>ch_tie := self, ch_tied := True\<rparr>)\<rparr>"
  note s = tied_channel [OF ok(2) ch' s_def]
  have "view s ?c = Some (?fd, 0)" using ok(2) s(2) new(1) by (simp add: chan_ok_def)
  moreover have "channels_map s ?fd = None" using new(3) by (simp add: s_def)
  moreover have ev': "event_ok (op_events (EnableReading ?c) 0)" "op_events (EnableReading ?c) 0 \<noteq> 0"
    using event_ok_op [of 0 "EnableReading ?c"] kReadEvent_or [of 0] by simp_all
  ultimately obtain s' where s': "update ?c (with_events ?c (0 OR kReadEvent) s) = Some s'" "inv s'"
    "channels_map s' = (channels_map s)(?fd \<mapsto> ?c)" "view s' = (view s)(?c \<mapsto> (?fd, 0 OR kReadEvent))"
    "handlers s' = handlers s"
    using update_new [OF s(1) _ s(4) [OF new(2)], of ?fd 0 "0 OR kReadEvent"] new(4,5) by auto
  let ?w = "w\<lparr>tc_state := kConnected, tc_loop := s'\<rparr>"
  have "connection_calls w = []" using ok(1) st by (simp add: data_ok_def)
  then have "data_ok (note_call ConnectionCallback ?w)"
    using ok(1) st new(6)
    by (auto simp: data_ok_def note_call_def destroy_count_def connection_calls_def)
  moreover have "chan_ok (note_call ConnectionCallback ?w) (0 OR kReadEvent)"
    using s' s(2,3) ok(2) ev'(1) by (simp add: chan_ok_def note_call_def)
  moreover have "state_ok (note_call ConnectionCallback ?w) (0 OR kReadEvent)"
    using s'(3) new event_flags(1,3) [of 0] by (auto simp: state_ok_def note_call_def registered_def)
  ultimately have "tc_inv (note_call ConnectionCallback ?w)" by (rule tc_invI)
  moreover have "on_loop (\<lambda>c. Channel_tie c self) (setState kConnected w) = Some (w\<lparr>tc_state := kConnected, tc_loop := s\<rparr>)"
    using ch' by (simp add: on_loop_def setState_def Channel_tie_def s_def)
  moreover have "on_loop (enableReading update) (w\<lparr>tc_state := kConnected, tc_loop := s\<rparr>) = Some ?w"
    using s'(1) ch(2) new(1) by (simp add: on_loop_def enableReading_eq s_def)
  ultimately show ?thesis using that by blast
qed

lemma connectEstablished_moves:
  assumes inv: "tc_inv w" and st: "tc_state w = kConnecting" and wr: "write_ok write"
    and script: "script_ok limit script" and room: "volume w + limit \<le> max_size"
  shows "\<exists>w'. connectEstablished write update script self w = Some w' \<and> moves w limit w'"
proof -
  obtain w1 s' where w1: "on_loop (\<lambda>c. Channel_tie c self) (setState kConnected w) = Some w1"
    "on_loop (enableReading update) w1 = Some (w\<lparr>tc_state := kConnected, tc_loop := s'\<rparr>)"
    "tc_inv (note_call ConnectionCallback (w\<lparr>tc_state := kConnected, tc_loop := s'\<rparr>))"
    by (rule connectEstablished_up [OF inv st])
  let ?n = "note_call ConnectionCallback (w\<lparr>tc_state := kConnected, tc_loop := s'\<rparr>)"
  have n: "volume ?n = volume w" "tc_state ?n = kConnected" by (simp_all add: note_call_def volume_def)
  have "\<exists>w'. run_all (run_action write update) (script ConnectionCallback (tc_state ?n)) ?n = Some w' \<and>
      keeps ?n limit 0 w'"
    by (rule run_script_open [OF w1(3) _ wr script]) (use n room in simp_all)
  then obtain w' where "run_callback write update script ConnectionCallback
      (w\<lparr>tc_state := kConnected, tc_loop := s'\<rparr>) = Some w'" "keeps ?n limit 0 w'"
    unfolding run_callback_eq by (auto simp: note_call_def)
  then show ?thesis using keeps_moves [of ?n limit 0 w'] n w1(1,2) st
    by (simp add: connectEstablished_def moves_def)
qed

text \<open>A channel that waits for events belongs to a connection that is up.\<close>

lemma watched_established:
  assumes "tc_inv w" and "watched w"
  obtains ev where "data_ok w" and "chan_ok w ev" and "state_ok w ev" and "established w" and "ev \<noteq> 0"
proof -
  obtain ev where ok: "data_ok w" "chan_ok w ev" "state_ok w ev" using assms(1) by (rule tc_invE)
  obtain ch where "conn_channel w = Some ch" "ch_events ch = ev" by (rule chan_ok_channel [OF ok(2)])
  then have "ev \<noteq> 0" using assms(2) by (simp add: watched_def)
  moreover from this have "established w" using ok(3) by (auto simp: state_ok_def established_def split: StateE.splits)
  ultimately show ?thesis using that ok by blast
qed

lemma established_connecting: "established w \<Longrightarrow> tc_state w \<noteq> kConnecting"
  by (auto simp: established_def)

lemma handleClose_watched:
  assumes "tc_inv w" and "watched w" and "write_ok write" and "script_ok limit script"
    and "volume w + 2 * limit \<le> max_size"
  shows "\<exists>w'. handleClose write update script w = Some w' \<and> moves w (2 * limit) w'"
  using assms handleClose_moves by (auto elim: watched_established)

lemma handleRead_moves:
  assumes inv: "tc_inv w" and up: "watched w" and wr: "write_ok write" and script: "script_ok limit script"
    and room: "volume w + arrived_bytes arrived + 2 * limit \<le> max_size"
  shows "\<exists>w'. handleRead write update script (kernel_read arrived) t w = Some w' \<and>
    moves w (arrived_bytes arrived + 2 * limit) w'"
proof -
  have wf: "Buffer_wf (tc_inputBuffer w)" using inv by (auto simp: tc_inv_def data_ok_def)
  obtain n e b where b: "Buffer_readFd (kernel_read arrived) (tc_inputBuffer w) = Some (n, e, b)" "Buffer_wf b"
    "Buffer_used b \<le> Buffer_used (tc_inputBuffer w) + arrived_bytes arrived"
    by (rule readFd_kernel [OF wf, of arrived]) (use room in \<open>auto simp: volume_def\<close>)
  let ?w = "w\<lparr>tc_inputBuffer := b\<rparr>"
  have k: "keeps w (arrived_bytes arrived) 0 ?w" by (rule input_keeps [OF inv b(2,3)])
  have st: "tc_state w \<noteq> kConnecting" using inv up established_connecting by (blast elim: watched_established)
  have room': "volume ?w + 2 * limit \<le> max_size" using keepsD(3) [OF k] room by simp
  have up': "watched ?w" using up by (simp add: watched_def conn_channel_def)
  have m: "moves w (arrived_bytes arrived) ?w" by (rule keeps_moves [OF k st])
  have eq: "handleRead write update script (kernel_read arrived) t w =
      (if n > 0 then run_callback write update script (MessageCallback t) ?w
       else if n = 0 then handleClose write update script ?w else handleError ?w)"
    using b(1) by (simp add: handleRead_def)
  consider (message) "n > 0" | (eof) "n = 0" | (failed) "n < 0" by linarith
  then show ?thesis
  proof cases
    case message
    have "\<exists>w'. run_callback write update script (MessageCallback t) ?w = Some w' \<and> keeps ?w limit 0 w'"
      by (rule run_callback_open [OF keepsD(1) [OF k] _ wr script]) (use st room' in simp_all)
    then obtain w' where w': "run_callback write update script (MessageCallback t) ?w = Some w'" "keeps ?w limit 0 w'"
      by blast
    have "moves ?w (2 * limit) w'" using keeps_moves [OF w'(2)] st by (auto intro: moves_mono)
    from moves_trans [OF m this] show ?thesis using eq message w'(1) by auto
  next
    case eof
    from handleClose_watched [OF keepsD(1) [OF k] up' wr script room'] obtain w' where
      w': "handleClose write update script ?w = Some w'" "moves ?w (2 * limit) w'" by blast
    from moves_trans [OF m this(2)] show ?thesis using eq eof w'(1) by auto
  next
    case failed
    then show ?thesis using eq m moves_mono by (fastforce simp: handleError_def)
  qed
qed

text \<open>Part of the output was written: the rest stays queued and the channel keeps waiting.\<close>

lemma output_keeps:
  assumes ok: "data_ok w" "chan_ok w ev" "state_ok w ev" and est: "established w"
    and r: "0 \<le> r" "nat r \<le> length (Buffer_content (tc_outputBuffer w))"
    and b: "Buffer_wf b" "Buffer_content b = drop (nat r) (Buffer_content (tc_outputBuffer w))"
      "Buffer_used b \<le> Buffer_used (tc_outputBuffer w)"
    and sk: "sk_wire sk = sk_wire (tc_socket w) @ take (nat r) (Buffer_content (tc_outputBuffer w))"
      "sk_fd sk = sk_fd (tc_socket w)" "sk_writeShut sk = sk_writeShut (tc_socket w)"
    and s': "chan_ok (w\<lparr>tc_loop := s'\<rparr>) ev'" "registered (w\<lparr>tc_loop := s'\<rparr>)"
    and ev': "ev' AND kWriteEvent \<noteq> 0 \<longleftrightarrow> Buffer_content b \<noteq> []" "ev' AND kReadEvent = ev AND kReadEvent"
  shows "keeps w 0 0 (w\<lparr>tc_loop := s', tc_socket := sk, tc_outputBuffer := b\<rparr>)"
proof -
  let ?w = "w\<lparr>tc_loop := s', tc_socket := sk, tc_outputBuffer := b\<rparr>"
  have "sk_wire sk @ Buffer_content b = sk_wire (tc_socket w) @ Buffer_content (tc_outputBuffer w)"
    using sk(1) b(2) by simp
  moreover have "Buffer_content (tc_outputBuffer w) = [] \<longrightarrow> Buffer_content b = []" using b(2) by simp
  ultimately have "data_ok ?w" using ok(1) b(1) sk(3) by (auto simp: data_ok_def destroy_count_def connection_calls_def)
  moreover have "chan_ok ?w ev'" by (rule chan_ok_cong [OF s'(1)]) (simp_all add: sk)
  moreover have "state_ok ?w ev'"
    using ok(3) est s'(2) ev' sk(2) by (auto simp: state_ok_def established_def registered_def split: StateE.splits)
  ultimately have "tc_inv ?w" by (rule tc_invI)
  then show ?thesis
  proof (rule keepsI)
    have "registered w" using ok(3) est by (auto simp: state_ok_def established_def)
    then show "frame w ?w" using s'(2) sk(2) by (simp add: frame_def established_def registered_def)
  qed (use b(3) in \<open>simp_all add: volume_def destroy_count_def\<close>)
qed

text \<open>All output was written: the write complete callback is queued, and a connection that is
  shutting down closes its write side.\<close>

lemma output_done_keeps:
  assumes inv: "tc_inv w" and st: "tc_state w \<noteq> kConnecting"
  shows "\<exists>w'. (let w = (if tc_hasWriteComplete w then queueInLoop (RunCallback WriteCompleteCallback) w else w)
      in if tc_state w = kDisconnecting then shutdownInLoop w else Some w) = Some w' \<and> keeps w 0 0 w' \<and>
    tc_state w' = tc_state w \<and> tc_outputBuffer w' = tc_outputBuffer w \<and> tc_accepted w' = tc_accepted w \<and>
    (tc_state w = kDisconnecting \<and> Buffer_content (tc_outputBuffer w) = [] \<longrightarrow> sk_writeShut (tc_socket w'))"
proof -
  define w1 where "w1 = (if tc_hasWriteComplete w then queueInLoop (RunCallback WriteCompleteCallback) w else w)"
  have k: "keeps w 0 0 w1"
    using queueInLoop_keeps [OF inv st, of "RunCallback WriteCompleteCallback"] keeps_refl [OF inv]
    by (simp add: w1_def)
  have w1: "tc_state w1 = tc_state w" "tc_outputBuffer w1 = tc_outputBuffer w" "tc_accepted w1 = tc_accepted w"
    by (simp_all add: w1_def queueInLoop_def)
  obtain w' where w': "(if tc_state w1 = kDisconnecting then shutdownInLoop w1 else Some w1) = Some w'"
    "keeps w1 0 0 w'" "tc_state w' = tc_state w1" "tc_outputBuffer w' = tc_outputBuffer w1"
    "tc_accepted w' = tc_accepted w1"
    "tc_state w1 = kDisconnecting \<and> Buffer_content (tc_outputBuffer w1) = [] \<longrightarrow> sk_writeShut (tc_socket w')"
    using shutdownInLoop_keeps [OF keepsD(1) [OF k]] keeps_refl [OF keepsD(1) [OF k]]
    by (cases "tc_state w1 = kDisconnecting") auto
  have "keeps w 0 0 w'" using keeps_trans [OF k w'(2)] by simp
  then show ?thesis using w' w1 unfolding w1_def [symmetric] Let_def by auto
qed

lemma handleWrite_writing:
  assumes inv: "tc_inv w" and ch: "conn_channel w = Some ch" "isWriting ch" and wr: "write_ok write"
  shows "\<exists>w'. handleWrite write update w = Some w' \<and> keeps w 0 0 w' \<and> tc_state w' = tc_state w \<and>
    tc_accepted w' = tc_accepted w \<and> Buffer_content (tc_outputBuffer w) \<noteq> [] \<and>
    (write_progress write \<longrightarrow> length (Buffer_content (tc_outputBuffer w')) < length (Buffer_content (tc_outputBuffer w))) \<and>
    (tc_state w = kDisconnecting \<and> Buffer_content (tc_outputBuffer w') = [] \<longrightarrow> sk_writeShut (tc_socket w'))"
proof -
  let ?out = "tc_outputBuffer w" and ?sk = "tc_socket w"
  have "watched w" using ch by (auto simp: watched_def isWriting_def)
  then obtain ev where ok: "data_ok w" "chan_ok w ev" "state_ok w ev" and est: "established w" and ev: "ev \<noteq> 0"
    using inv by (blast elim: watched_established)
  have reg: "registered w" and wev: "ev AND kWriteEvent \<noteq> 0 \<longleftrightarrow> Buffer_content ?out \<noteq> []"
    using ok(3) est by (auto simp: state_ok_def established_def)
  have ne: "Buffer_content ?out \<noteq> []"
    using wev ch ok(2) by (auto simp: chan_ok_def view_def conn_channel_def isWriting_def)
  then have unshut: "\<not> sk_writeShut ?sk" using ok(1) est by (auto simp: data_ok_def established_def)
  obtain r err where r: "write (sk_writes ?sk) (sk_writeShut ?sk) (Buffer_content ?out) = (r, err)" by fastforce
  define sk where "sk = ?sk\<lparr>sk_wire := sk_wire ?sk @ take (nat r) (Buffer_content ?out), sk_writes := sk_writes ?sk + 1\<rparr>"
  have sw: "sockets_write write (Buffer_content ?out) w = (r, err, w\<lparr>tc_socket := sk\<rparr>)"
    by (simp add: sockets_write_def r sk_def Let_def)
  have sk: "sk_wire sk = sk_wire ?sk @ take (nat r) (Buffer_content ?out)" "sk_fd sk = sk_fd ?sk"
    "sk_writeShut sk = sk_writeShut ?sk" by (simp_all add: sk_def)
  have wf: "Buffer_wf ?out" using ok(1) by (simp add: data_ok_def)
  have prog: "write_progress write \<Longrightarrow> 0 < r"
    using r ne unshut by (metis write_progress_def fst_conv)
  have rle: "nat r \<le> length (Buffer_content ?out)" using write_okD(2) [OF wr r] by simp
  obtain b where b: "Buffer_retrieve ?out (nat r) = Some b" "Buffer_wf b"
    "Buffer_content b = drop (nat r) (Buffer_content ?out)" "Buffer_used b \<le> Buffer_used ?out"
    using buf.ret_ok [OF wf rle] by blast
  have self: "chan_ok (w\<lparr>tc_loop := tc_loop w\<rparr>) ev" "registered (w\<lparr>tc_loop := tc_loop w\<rparr>)"
    using ok(2) reg by simp_all
  consider (failed) "r \<le> 0" | (part) "0 < r" "Buffer_content b \<noteq> []" | (empty) "0 < r" "Buffer_content b = []"
    by linarith
  then show ?thesis
  proof cases
    case failed
    have "keeps w 0 0 (w\<lparr>tc_loop := tc_loop w, tc_socket := sk, tc_outputBuffer := ?out\<rparr>)"
      by (rule output_keeps [OF ok est, of 0, OF _ _ wf _ _ _ sk(2,3) self]) (use failed sk wev in simp_all)
    moreover have "handleWrite write update w = Some (w\<lparr>tc_socket := sk\<rparr>)"
      using ch sw failed by (simp add: handleWrite_def)
    ultimately show ?thesis using failed prog ne by auto
  next
    case part
    have "keeps w 0 0 (w\<lparr>tc_loop := tc_loop w, tc_socket := sk, tc_outputBuffer := b\<rparr>)"
      by (rule output_keeps [OF ok est _ rle b(2-4) sk self]) (use part b(3) wev in auto)
    moreover have "handleWrite write update w = Some (w\<lparr>tc_socket := sk, tc_outputBuffer := b\<rparr>)"
      using ch sw part b(1) Buffer_content_empty [OF b(2)] by (simp add: handleWrite_def)
    moreover have "length (Buffer_content b) < length (Buffer_content ?out)" using part(1) b(3) ne by simp
    ultimately show ?thesis using part(2) ne by simp
  next
    case empty
    obtain s' where s': "on_loop (\<lambda>_. channel_step update remove (DisableWriting (tc_channel w))) w =
        Some (w\<lparr>tc_loop := s'\<rparr>)" "chan_ok (w\<lparr>tc_loop := s'\<rparr>) (ev AND NOT kWriteEvent)"
        "registered (w\<lparr>tc_loop := s'\<rparr>)"
      using conn_channel_update [OF ok(2) reg, of "DisableWriting (tc_channel w)"] ev by auto
    let ?w = "w\<lparr>tc_loop := s', tc_socket := sk, tc_outputBuffer := b\<rparr>"
    have k: "keeps w 0 0 ?w"
      by (rule output_keeps [OF ok est _ rle b(2-4) sk s'(2,3)]) (use empty event_flags in simp_all)
    have "disableWriting update (tc_channel w) (tc_loop w) = Some s'"
      using s'(1) by (cases "disableWriting update (tc_channel w) (tc_loop w)")
        (auto simp: on_loop_def dest: arg_cong [of _ _ tc_loop])
    moreover have swap: "w\<lparr>tc_socket := sk, tc_outputBuffer := b, tc_loop := s'\<rparr> = ?w" by (cases w) simp
    ultimately have "handleWrite write update w =
        (let w = (if tc_hasWriteComplete ?w then queueInLoop (RunCallback WriteCompleteCallback) ?w else ?w)
         in if tc_state w = kDisconnecting then shutdownInLoop w else Some w)"
      using ch sw empty b(1) Buffer_content_empty [OF b(2)] by (simp add: handleWrite_def on_loop_def swap)
    moreover have "tc_state ?w \<noteq> kConnecting" using established_connecting [OF est] by simp
    moreover from output_done_keeps [OF keepsD(1) [OF k] this] obtain w' where
      w': "(let w = (if tc_hasWriteComplete ?w then queueInLoop (RunCallback WriteCompleteCallback) ?w else ?w)
         in if tc_state w = kDisconnecting then shutdownInLoop w else Some w) = Some w'"
      "keeps ?w 0 0 w'" "tc_state w' = tc_state ?w" "tc_outputBuffer w' = b" "tc_accepted w' = tc_accepted w"
      "tc_state ?w = kDisconnecting \<and> Buffer_content b = [] \<longrightarrow> sk_writeShut (tc_socket w')" by auto
    moreover have "keeps w 0 0 w'" using keeps_trans [OF k w'(2)] by simp
    ultimately show ?thesis using empty ne by simp
  qed
qed

lemma handleWrite_keeps:
  assumes inv: "tc_inv w" and wr: "write_ok write"
  shows "\<exists>w'. handleWrite write update w = Some w' \<and> keeps w 0 0 w'"
proof -
  obtain ev where ok: "chan_ok w ev" using inv by (blast elim: tc_invE)
  obtain ch where ch: "conn_channel w = Some ch" by (rule chan_ok_channel [OF ok])
  show ?thesis
  proof (cases "isWriting ch")
    case True
    then show ?thesis using handleWrite_writing [OF inv ch _ wr] by blast
  next
    case False
    then show ?thesis using ch keeps_refl [OF inv] by (simp add: handleWrite_def)
  qed
qed

subsection \<open>Steps\<close>

lemma dispatch_moves:
  assumes inv: "tc_inv w" and up: "watched w" and wr: "write_ok write" and script: "script_ok limit script"
    and room: "volume w + arrived_bytes arrived + 2 * limit \<le> max_size"
    and sane: "\<not> close_and_read revents"
  shows "\<exists>w'. conn_run_step write update remove script (Dispatch revents arrived t) w = Some w' \<and>
    moves w (arrived_bytes arrived + 2 * limit) w'"
proof -
  obtain ev where ok: "chan_ok w ev" using inv by (blast elim: tc_invE)
  obtain ch where ch: "conn_channel w = Some ch" "ch_readCallback ch = Some handle_read_id"
    "ch_writeCallback ch = Some handle_write_id" "ch_closeCallback ch = Some handle_close_id"
    "ch_errorCallback ch = Some handle_error_id" by (rule chan_ok_channel [OF ok])
  have st: "tc_state w \<noteq> kConnecting" using inv up established_connecting by (blast elim: watched_established)
  have self: "moves w 0 w" using inv st by (simp add: moves_def)
  define hup where "hup \<longleftrightarrow> revents AND POLLHUP \<noteq> 0 \<and> \<not> revents AND POLLIN \<noteq> 0"
  define rdy_in where "rdy_in \<longleftrightarrow> revents AND (POLLIN OR POLLPRI OR POLLRDHUP) \<noteq> 0"
  define rdy_out where "rdy_out \<longleftrightarrow> revents AND POLLOUT \<noteq> 0"
  have first: "\<exists>w1. Option.bind (if hup then handleClose write update script w else Some w)
      (\<lambda>w. if rdy_in then handleRead write update script (kernel_read arrived) t w else Some w) = Some w1 \<and>
      moves w (arrived_bytes arrived + 2 * limit) w1"
  proof (cases hup)
    case True
    then have "\<not> rdy_in" using sane by (simp add: hup_def rdy_in_def close_and_read_def)
    moreover have "\<exists>w1. handleClose write update script w = Some w1 \<and> moves w (2 * limit) w1"
      by (rule handleClose_watched [OF inv up wr script]) (use room in simp)
    ultimately show ?thesis
      using True moves_mono [of w "2 * limit" _ "arrived_bytes arrived + 2 * limit"] by auto
  next
    case False
    then show ?thesis using handleRead_moves [OF inv up wr script room, of t] moves_mono [OF self] by auto
  qed
  then obtain w1 where w1: "Option.bind (if hup then handleClose write update script w else Some w)
      (\<lambda>w. if rdy_in then handleRead write update script (kernel_read arrived) t w else Some w) = Some w1"
      "moves w (arrived_bytes arrived + 2 * limit) w1" by blast
  have "\<exists>w'. (if rdy_out then handleWrite write update w1 else Some w1) = Some w' \<and> moves w1 0 w'"
    using handleWrite_keeps [of w1 "write"] wr w1(2) keeps_moves [of w1 0 0] by (auto simp: moves_def)
  then obtain w' where w': "(if rdy_out then handleWrite write update w1 else Some w1) = Some w'" "moves w1 0 w'"
    by blast
  have "conn_run_step write update remove script (Dispatch revents arrived t) w =
      Option.bind (Option.bind (if hup then handleClose write update script w else Some w)
        (\<lambda>w. if rdy_in then handleRead write update script (kernel_read arrived) t w else Some w))
        (\<lambda>w. if rdy_out then handleWrite write update w else Some w)"
    using ch by (simp add: dispatch_def run_all_append hupWithoutIn_def hup_def rdy_in_def rdy_out_def
        handleError_def bind_assoc run_all_fun cong: if_cong)
  then have "conn_run_step write update remove script (Dispatch revents arrived t) w = Some w'"
    unfolding w1(1) using w'(1) by simp
  then show ?thesis using moves_trans [OF w1(2) w'(2)] by simp
qed

text \<open>The first functor leaves the queue.\<close>

lemma dequeue_inv:
  assumes inv: "tc_inv w" and q: "tc_pending w = f # fs"
  defines "w0 \<equiv> w\<lparr>tc_pending := fs\<rparr>"
  shows "tc_inv w0" and "tc_state w \<noteq> kConnecting" and "functor_ok (tc_state w) f"
    and "volume w = volume w0 + functor_bytes f" and "watched w0 = watched w"
    and "f = ConnectDestroyed \<Longrightarrow> registered w0 \<and> destroy_count w0 = 0"
proof -
  obtain ev where ok: "data_ok w" "chan_ok w ev" "state_ok w ev" using inv by (rule tc_invE)
  have "data_ok w0"
    using ok(1) q by (auto simp: data_ok_def w0_def destroy_count_def connection_calls_def split: if_splits)
  moreover have "chan_ok w0 ev" by (rule chan_ok_cong [OF ok(2)]) (simp_all add: w0_def)
  moreover have "state_ok w0 ev"
    using ok(3) q by (auto simp: state_ok_def w0_def registered_def destroy_count_def split: StateE.splits if_splits)
  ultimately show "tc_inv w0" by (rule tc_invI)
  show "tc_state w \<noteq> kConnecting" using ok(3) q by (auto simp: state_ok_def)
  show "functor_ok (tc_state w) f" using ok(1) q by (simp add: data_ok_def)
  show "volume w = volume w0 + functor_bytes f" using q by (simp add: volume_def w0_def)
  show "watched w0 = watched w" by (simp add: watched_def conn_channel_def w0_def)
  assume f: "f = ConnectDestroyed"
  then have "tc_state w = kDisconnected" "destroy_count w0 = 0"
    using ok(1) q by (simp_all add: data_ok_def destroy_count_def w0_def)
  moreover have "registered w" using ok(3) q f \<open>tc_state w = kDisconnected\<close>
    by (simp add: state_ok_def destroy_count_def)
  ultimately show "registered w0 \<and> destroy_count w0 = 0" by (simp add: registered_def w0_def)
qed

lemma connectDestroyed_moves:
  assumes inv: "tc_inv w" and st: "tc_state w = kDisconnected" and reg: "registered w" "destroy_count w = 0"
  shows "\<exists>w'. connectDestroyed write update remove script w = Some w' \<and> moves w 0 w' \<and> \<not> registered w'"
proof -
  obtain ev where ok: "data_ok w" "chan_ok w ev" "state_ok w ev" using inv by (rule tc_invE)
  let ?c = "tc_channel w" and ?fd = "sk_fd (tc_socket w)"
  have v: "ev = 0" "view (tc_loop w) ?c = Some (?fd, 0)" "channels_map (tc_loop w) ?fd = Some ?c"
    using ok(2,3) st reg by (auto simp: state_ok_def chan_ok_def registered_def)
  obtain ch where ch: "conn_channel w = Some ch" "ch_events ch = ev" by (rule chan_ok_channel [OF ok(2)])
  obtain s' where s': "remove ?c (not_added ?c (tc_loop w)) = Some s'" "inv s'"
    "channels_map s' = (channels_map (tc_loop w))(?fd := None)" "view s' = view (tc_loop w)"
    "handlers s' = handlers (tc_loop w)"
    using remove_old [OF _ v(2,3)] ok(2) by (auto simp: chan_ok_def)
  let ?w = "w\<lparr>tc_loop := s'\<rparr>"
  have "data_ok ?w" using ok(1) by (simp add: data_ok_def destroy_count_def connection_calls_def)
  moreover have "chan_ok ?w 0" using ok(2) s' v(1) by (simp add: chan_ok_def)
  moreover have "state_ok ?w 0" using st reg(2) by (simp add: state_ok_def destroy_count_def)
  ultimately have "tc_inv ?w" by (rule tc_invI)
  moreover have "connectDestroyed write update remove script w = Some ?w"
    using st ch v(1) s'(1)
    by (simp add: connectDestroyed_def on_loop_def Channel_remove_def conn_channel_def isNoneEvent_def
        kNoneEvent_def not_added_def)
  ultimately show ?thesis using st s'(3) by (simp add: moves_def volume_def registered_def)
qed

lemma run_functor_moves:
  assumes inv: "tc_inv w" and q: "tc_pending w = f # fs" and wr: "write_ok write" and script: "script_ok limit script"
    and force: "f = ForceCloseInLoop \<longrightarrow> established w \<longrightarrow> watched w"
    and room: "volume w + 2 * limit \<le> max_size"
  shows "\<exists>w'. run_functor write update remove script f (w\<lparr>tc_pending := fs\<rparr>) = Some w' \<and> moves w (2 * limit) w'"
proof -
  let ?w = "w\<lparr>tc_pending := fs\<rparr>"
  note d = dequeue_inv [OF inv q]
  have st: "tc_state ?w \<noteq> kConnecting" using d(2) by simp
  have room': "volume ?w + 2 * limit \<le> max_size" using d(4) room by simp
  have self: "moves w (2 * limit) ?w" using d(1,2,4) by (simp add: moves_def)
  have lift: "\<exists>w'. p = Some w' \<and> moves w (2 * limit) w'"
    if p: "\<exists>w'. p = Some w' \<and> moves ?w n w'" "n \<le> functor_bytes f + 2 * limit" for p n
    using p d(4) by (auto simp: moves_def)
  show ?thesis
  proof (cases f)
    case (SendInLoop m)
    have "Buffer_used (tc_outputBuffer ?w) + length m \<le> max_size"
      using d(4) room SendInLoop by (simp add: volume_def)
    from sendInLoop_keeps [OF d(1) st wr this] show ?thesis
      using SendInLoop keeps_moves st by (intro lift [of _ "length m"]) auto
  next
    case ShutdownInLoop
    then have "tc_state ?w = kDisconnecting \<or> tc_state ?w = kDisconnected" using d(3) by simp
    from shutdownInLoop_keeps [OF d(1) this] show ?thesis
      using ShutdownInLoop keeps_moves st by (intro lift [of _ 0]) auto
  next
    case ForceCloseInLoop
    show ?thesis
    proof (cases "established w")
      case True
      have "\<exists>w'. handleClose write update script ?w = Some w' \<and> moves ?w (2 * limit) w'"
        by (rule handleClose_watched [OF d(1) _ wr script room']) (use force True ForceCloseInLoop d(5) in simp)
      then show ?thesis using ForceCloseInLoop True
        by (intro lift [of _ "2 * limit"]) (auto simp: forceCloseInLoop_def established_def)
    next
      case False
      then show ?thesis using ForceCloseInLoop self by (simp add: forceCloseInLoop_def established_def)
    qed
  next
    case ConnectDestroyed
    have "\<exists>w'. connectDestroyed write update remove script ?w = Some w' \<and> moves ?w 0 w' \<and> \<not> registered w'"
      by (rule connectDestroyed_moves [OF d(1)]) (use d(3,6) ConnectDestroyed in simp_all)
    then show ?thesis using ConnectDestroyed by (intro lift [of _ 0]) auto
  next
    case (RunCallback cb)
    then have "cb \<noteq> CloseCallback" "cb \<noteq> ConnectionCallback" using d(3) by auto
    from run_callback_open [OF d(1) st wr script this] room' show ?thesis
      using RunCallback keeps_moves st by (intro lift [of _ limit]) auto
  qed (use d(3) in simp_all)
qed

lemma step_moves:
  assumes inv: "tc_inv w" and wr: "write_ok write" and script: "script_ok limit script"
    and legal: "step_legal x w" and room: "volume w + step_bytes limit x \<le> max_size"
  shows "\<exists>w'. conn_run_step write update remove script x w = Some w' \<and> tc_inv w' \<and>
    volume w' \<le> volume w + step_bytes limit x"
proof (cases x)
  case Established
  then show ?thesis using connectEstablished_moves [OF inv _ wr script] legal room by (auto simp: moves_def)
next
  case (Dispatch revents arrived t)
  have "\<exists>w'. conn_run_step write update remove script (Dispatch revents arrived t) w = Some w' \<and>
      moves w (arrived_bytes arrived + 2 * limit) w'"
    by (rule dispatch_moves [OF inv _ wr script]) (use legal room Dispatch in simp_all)
  then show ?thesis using Dispatch unfolding moves_def by auto
next
  case (Task as)
  have ok: "list_all (action_ok (established w) False) as" "tc_state w \<noteq> kConnecting" using legal Task by simp_all
  have "script_destroys as = 0"
    using ok(1) action_ok_open by (auto simp: script_destroys_def list_all_iff)
  moreover have "destroy_count w \<le> 1" using inv by (auto simp: tc_inv_def data_ok_def)
  ultimately have "\<exists>w'. run_all (run_action write update) as w = Some w' \<and>
      keeps w (script_bytes as) (script_destroys as) w'"
    by (intro run_script_keeps [OF inv ok(2) wr ok(1)]) (use room Task in simp_all)
  then show ?thesis using Task unfolding keeps_def by auto
next
  case RunPending
  show ?thesis
  proof (cases "tc_pending w")
    case Nil
    then show ?thesis using RunPending inv by simp
  next
    case (Cons f fs)
    have "f = ForceCloseInLoop \<longrightarrow> established w \<longrightarrow> watched w" using legal RunPending Cons by simp
    from run_functor_moves [OF inv Cons wr script this] room RunPending show ?thesis
      using Cons by (simp add: moves_def) blast
  qed
next
  case TimerFires
  show ?thesis
  proof (cases "tc_timers w")
    case Nil
    then show ?thesis using TimerFires inv by simp
  next
    case (Cons s ts)
    then have "tc_state w \<noteq> kConnecting" using inv by (auto simp: tc_inv_def state_ok_def)
    then have k: "keeps w 0 0 (w\<lparr>tc_timers := ts\<rparr>)" by (rule timers_keeps [OF inv])
    from keeps_trans [OF k forceClose_keeps [OF keepsD(1) [OF k]]] show ?thesis
      using TimerFires Cons by (simp add: keeps_def)
  qed
qed

theorem run_moves:
  assumes wr: "write_ok write" and script: "script_ok limit script" and inv: "tc_inv w"
    and legal: "steps_legal (conn_run_step write update remove script) xs w"
    and room: "volume w + sum_list (map (step_bytes limit) xs) \<le> max_size"
  shows "\<exists>w'. run_all (conn_run_step write update remove script) xs w = Some w' \<and> tc_inv w'"
  using inv legal room
proof (induction xs arbitrary: w)
  case Nil
  then show ?case by simp
next
  case (Cons x xs)
  obtain w1 where w1: "conn_run_step write update remove script x w = Some w1" "tc_inv w1"
    "volume w1 \<le> volume w + step_bytes limit x"
    using step_moves [OF Cons.prems(1) wr script, of x] Cons.prems(2,3) by auto
  have "\<exists>w'. run_all (conn_run_step write update remove script) xs w1 = Some w' \<and> tc_inv w'"
    by (rule Cons.IH) (use w1 Cons.prems in simp_all)
  then show ?case using w1(1) by simp
qed

subsection \<open>The output drains\<close>

lemma dispatch_writable:
  assumes "tc_inv w"
  shows "conn_run_step write update remove script (Dispatch POLLOUT arrived t) w = handleWrite write update w"
proof -
  obtain ev where ok: "chan_ok w ev" using assms by (blast elim: tc_invE)
  obtain ch where "conn_channel w = Some ch" "ch_writeCallback ch = Some handle_write_id"
    by (rule chan_ok_channel [OF ok])
  then show ?thesis by (simp add: dispatch_def hupWithoutIn_def run_all_fun)
qed

lemma idle_output:
  assumes inv: "tc_inv w" and est: "established w" and none: "Buffer_content (tc_outputBuffer w) = []"
  shows "handleWrite write update w = Some w"
proof -
  obtain ev where ok: "chan_ok w ev" "state_ok w ev" using inv by (blast elim: tc_invE)
  obtain ch where "conn_channel w = Some ch" "isWriting ch \<longleftrightarrow> ev AND kWriteEvent \<noteq> 0"
    by (rule chan_ok_channel [OF ok(1)])
  then show ?thesis using ok(2) est none by (auto simp: handleWrite_def state_ok_def established_def)
qed

lemma busy_output:
  assumes inv: "tc_inv w" and est: "established w" and some: "Buffer_content (tc_outputBuffer w) \<noteq> []"
  obtains ch where "conn_channel w = Some ch" and "isWriting ch"
proof -
  obtain ev where ok: "chan_ok w ev" "state_ok w ev" using inv by (blast elim: tc_invE)
  obtain ch where "conn_channel w = Some ch" "isWriting ch \<longleftrightarrow> ev AND kWriteEvent \<noteq> 0"
    by (rule chan_ok_channel [OF ok(1)])
  then show ?thesis using that ok(2) est some by (auto simp: state_ok_def established_def)
qed

lemma drains:
  assumes inv: "tc_inv w" and est: "established w" and wr: "write_ok write" "write_progress write"
    and n: "length (Buffer_content (tc_outputBuffer w)) \<le> n"
  shows "\<exists>w'. run_all (conn_run_step write update remove script)
      (replicate n (Dispatch POLLOUT arrived t)) w = Some w' \<and> tc_inv w' \<and> tc_state w' = tc_state w \<and>
    tc_accepted w' = tc_accepted w \<and> Buffer_content (tc_outputBuffer w') = [] \<and>
    (tc_state w = kDisconnecting \<longrightarrow> Buffer_content (tc_outputBuffer w) \<noteq> [] \<or> sk_writeShut (tc_socket w) \<longrightarrow>
      sk_writeShut (tc_socket w'))"
  using inv est n
proof (induction n arbitrary: w)
  case 0
  then show ?case by simp
next
  case (Suc n)
  show ?case
  proof (cases "Buffer_content (tc_outputBuffer w) = []")
    case True
    with Suc.IH [OF Suc.prems(1,2)] show ?thesis
      using dispatch_writable [OF Suc.prems(1)] idle_output [OF Suc.prems(1,2) True] by simp
  next
    case False
    obtain ch where "conn_channel w = Some ch" "isWriting ch" by (rule busy_output [OF Suc.prems(1,2) False])
    from handleWrite_writing [OF Suc.prems(1) this wr(1)] wr(2) obtain w1 where
      w1: "handleWrite write update w = Some w1" "keeps w 0 0 w1" "tc_state w1 = tc_state w"
      "tc_accepted w1 = tc_accepted w" "length (Buffer_content (tc_outputBuffer w1)) < length (Buffer_content (tc_outputBuffer w))"
      "tc_state w = kDisconnecting \<and> Buffer_content (tc_outputBuffer w1) = [] \<longrightarrow> sk_writeShut (tc_socket w1)"
      by blast
    have est1: "established w1" using Suc.prems(2) w1(3) by (simp add: established_def)
    have "length (Buffer_content (tc_outputBuffer w1)) \<le> n" using w1(5) Suc.prems(3) by linarith
    from Suc.IH [OF keepsD(1) [OF w1(2)] est1 this] show ?thesis
      using dispatch_writable [OF Suc.prems(1)] w1(1,3,4,6) False by (simp split: if_splits)
  qed
qed

subsection \<open>Construction\<close>

lemma ctor_inv:
  assumes "inv s" and "loop \<noteq> 0" and "chans s c = None" and "channels_map s fd = None"
    and "0 \<le> fd" and "fd < int_max"
  shows "\<exists>w. TcpConnection_ctor loop s name fd c = Some w \<and> tc_inv w \<and> volume w = 2 * kCheapPrepend"
proof -
  define ch where "ch = (Channel_ctor loop fd)\<lparr>ch_readCallback := Some handle_read_id,
    ch_writeCallback := Some handle_write_id, ch_closeCallback := Some handle_close_id,
    ch_errorCallback := Some handle_error_id\<rparr>"
  define s' where "s' = s\<lparr>chans := (chans s)(c \<mapsto> ch)\<rparr>"
  have "same_watch (chans s) ((chans s)(c \<mapsto> ch))" using assms(3) by (auto simp: same_watch_def)
  then have inv': "inv s'" unfolding s'_def by (rule inv_chans [OF assms(1)])
  define w where "w = \<lparr>tc_loop = s', tc_name = name, tc_state = kConnecting, tc_reading = True,
       tc_socket = \<lparr>sk_fd = fd, sk_wire = [], sk_writeShut = False, sk_writes = 0\<rparr>,
       tc_channel = c, tc_hasWriteComplete = False, tc_hasHighWaterMark = False,
       tc_highWaterMark = 64 * 1024 * 1024, tc_inputBuffer = Buffer_default, tc_outputBuffer = Buffer_default,
       tc_pending = [], tc_timers = [], tc_calls = [], tc_accepted = []\<rparr>"
  have "data_ok w" by (simp add: data_ok_def w_def destroy_count_def connection_calls_def)
  moreover have "chan_ok w 0"
    using inv' by (simp add: chan_ok_def w_def s'_def view_def handlers_def ch_def Channel_ctor_def)
  moreover have "state_ok w 0"
    using assms(4-6) by (simp add: state_ok_def w_def s'_def fresh_def ch_def Channel_ctor_def)
  ultimately have "tc_inv w" by (rule tc_invI)
  moreover have "TcpConnection_ctor loop s name fd c = Some w"
    using assms(2,3) by (simp add: TcpConnection_ctor_def setReadCallback_def setWriteCallback_def
        setCloseCallback_def setErrorCallback_def w_def s'_def ch_def)
  moreover have "volume w = 2 * kCheapPrepend" by (simp add: volume_def w_def)
  ultimately show ?thesis by blast
qed

end

end
