(* ===== verification/TcpConnections.thy ===== *)
theory TcpConnections
  imports TcpConnection_Run
begin

text \<open>
  What a connection on an epoll loop promises: the constructor, the poller of
  \<open>EPollPoller.thy\<close> and the lemmas on steps of \<open>TcpConnection_Run.thy\<close> put together.
\<close>

definition epoll_conn_step ::
    "epoll_ctl \<Rightarrow> write_fun \<Rightarrow> conn_script \<Rightarrow> conn_step \<Rightarrow> epoll_poller connection \<Rightarrow> epoll_poller connection option" where
  "epoll_conn_step ctl write = conn_run_step write (EPollPoller_updateChannel ctl) (EPollPoller_removeChannel ctl)"

text \<open>A fresh channel on a descriptor that is not watched, and a run of the connection: the
  constructor and then steps that are legal and stay within the memory there is.\<close>

definition unused :: "epoll_poller \<Rightarrow> int \<Rightarrow> nat \<Rightarrow> bool" where
  "unused s fd c \<longleftrightarrow> ep_inv s \<and> chans s c = None \<and> channels_map s fd = None \<and> 0 \<le> fd \<and> fd < int_max"

definition legal_run :: "epoll_ctl \<Rightarrow> write_fun \<Rightarrow> conn_script \<Rightarrow> nat \<Rightarrow> conn_step list \<Rightarrow> epoll_poller connection \<Rightarrow> bool" where
  "legal_run ctl write script limit xs w \<longleftrightarrow> steps_legal (epoll_conn_step ctl write script) xs w \<and>
     volume w + sum_list (map (step_bytes limit) xs) \<le> max_size"

lemma connection_runs:
  assumes "epoll_ctl_ok ctl" and "write_ok write" and "script_ok limit script" and "unused s fd c"
    and "TcpConnection_ctor loop s name fd c = Some w0" and "legal_run ctl write script limit xs w0"
  obtains w where "run_all (epoll_conn_step ctl write script) xs w0 = Some w" and "epu.tc_inv ctl w"
proof -
  have "loop \<noteq> 0" using assms(5) by (cases "loop = 0") (simp_all add: TcpConnection_ctor_def)
  then have "epu.tc_inv ctl w0"
    using epu.ctor_inv [of ctl s loop c fd name] assms by (auto simp: unused_def)
  then show ?thesis
    using epu.run_moves [OF assms(2,3), of ctl w0 xs] assms(6) that by (auto simp: legal_run_def epoll_conn_step_def)
qed

subsection \<open>An example\<close>

text \<open>A server that echoes, a kernel that takes two bytes at a time, and a connection on which a
  message is sent and the write side shut down.\<close>

definition example_write :: write_fun where
  "example_write n shut data = (if shut \<and> data \<noteq> [] then (-1, EPIPE) else (int (min 2 (length data)), 0))"

definition example_script :: conn_script where
  "example_script cb st = (case cb of
     MessageCallback t \<Rightarrow> if st = kConnected then [Echo True] else [Discard]
   | CloseCallback \<Rightarrow> [Queue ConnectDestroyed] | _ \<Rightarrow> [])"

definition example_steps :: "conn_step list" where
  "example_steps = [Established, Task [Send True ''hello'', Shutdown True]]"

definition example_conn :: "epoll_poller connection" where
  "example_conn = the (TcpConnection_ctor 1 example_epoll ''conn'' 9 20)"

lemmas conn_eval = example_conn_def TcpConnection_ctor_def setReadCallback_def setWriteCallback_def
  setCloseCallback_def setErrorCallback_def example_epoll_def example_heap_def Channel_ctor_def
  epoll_conn_step_def connectEstablished_def setState_def on_loop_def Channel_tie_def enableReading_def
  Channel_update_def EPollPoller_updateChannel_def EPollPoller_update_def set_index_def kNew_def kAdded_def kDeleted_def isNoneEvent_def kNoneEvent_def
  kReadEvent_def kWriteEvent_def example_ctl_def interest_list_def run_callback_def example_script_def
  TcpConnection_send_def sendInLoop_def conn_channel_def isWriting_def write_directly_def sockets_write_def
  example_write_def Buffer_ctor_asserts TcpConnection_shutdown_def shutdownInLoop_def

lemma example_legal: "legal_run example_ctl example_write example_script kCheapPrepend example_steps example_conn"
proof -
  have "steps_legal (epoll_conn_step example_ctl example_write example_script) example_steps example_conn"
    by (simp add: conn_eval example_steps_def established_def Let_def split: option.split)
  moreover have "volume example_conn = 2 * kCheapPrepend"
    by (simp add: conn_eval volume_def)
  ultimately show ?thesis
    by (simp add: legal_run_def example_steps_def script_bytes_def kCheapPrepend_def max_size_def)
qed

lemma example_write_ok: "write_ok example_write"
  by (simp add: write_ok_def example_write_def)

lemma example_script_ok: "script_ok kCheapPrepend example_script"
  by (simp add: script_ok_def example_script_def script_bytes_def script_destroys_def split: conn_callback.split)

lemma example_unused: "unused example_epoll 9 20"
  using ep_inv_ctor [OF example_epoll_ctor]
  by (simp add: unused_def example_epoll_def example_heap_def int_max_def)

lemma example_conn_ctor: "TcpConnection_ctor 1 example_epoll ''conn'' 9 20 = Some example_conn"
  by (simp add: conn_eval)

lemmas example_hyps = example_ctl_ok example_write_ok example_script_ok example_unused example_conn_ctor example_legal

lemma example_run:
  obtains w where "run_all (epoll_conn_step example_ctl example_write example_script) example_steps example_conn = Some w"
    and "tc_state w = kDisconnecting" and "tc_accepted w = [''hello'']" and "sk_wire (tc_socket w) = ''he''"
    and "connection_calls w = [kConnected]" and "Buffer_content (tc_outputBuffer w) = ''llo''" and "tc_reading w"
    and "Buffer_readableBytes (tc_outputBuffer w) = 3"
proof -
  have "Buffer_used Buffer_default + length ''llo'' \<le> max_size" by (simp add: kCheapPrepend_def max_size_def)
  then obtain b where b: "Buffer_append Buffer_default ''llo'' = Some b" "Buffer_wf b" "Buffer_content b = ''llo''"
    using buf.app_ok [OF Buffer_default_wf, of "''llo''"] by auto
  have "Buffer_readableBytes b = 3" using length_Buffer_content [OF b(2)] b(3) by simp
  then show ?thesis
    using b that by (simp add: conn_eval append_remaining_def enableWriting_def
        example_steps_def established_def connection_calls_def Let_def)
qed

subsection \<open>Properties\<close>



text \<open>C1: the bytes on the wire followed by the bytes still queued are exactly the messages the
  connection accepted, in order, and the write side is only shut down when all of them are out
  or the connection is down.\<close>

theorem TcpConnection_stream:
  assumes "epoll_ctl_ok ctl" and "write_ok write" and "script_ok limit script" and "unused s fd c"
    and "TcpConnection_ctor loop s name fd c = Some w0" and "legal_run ctl write script limit xs w0"
  shows "\<exists>w. run_all (epoll_conn_step ctl write script) xs w0 = Some w \<and>
    sk_wire (tc_socket w) @ Buffer_content (tc_outputBuffer w) = concat (tc_accepted w) \<and>
    (sk_writeShut (tc_socket w) \<and> established w \<longrightarrow> sk_wire (tc_socket w) = concat (tc_accepted w))"
proof -
  obtain w where w: "run_all (epoll_conn_step ctl write script) xs w0 = Some w" "epu.tc_inv ctl w"
    by (rule connection_runs [OF assms])
  then have "data_ok w" by (blast elim: epu.tc_invE)
  then show ?thesis using w(1) by (auto simp: data_ok_def established_def)
qed

theorem TcpConnection_stream_witness:
  "legal_run example_ctl example_write example_script kCheapPrepend example_steps example_conn \<and>
   (\<exists>w. run_all (epoll_conn_step example_ctl example_write example_script) example_steps example_conn = Some w \<and>
      Buffer_content (tc_outputBuffer w) = ''llo'' \<and> sk_wire (tc_socket w) @ ''llo'' = ''hello'')"
  by (rule example_run) (use TcpConnection_stream [OF example_hyps] example_legal in \<open>auto simp: established_def\<close>)

text \<open>C17: the connection callback is called once when the connection comes up and once when it goes
  down, in this order.\<close>

theorem TcpConnection_callback_order:
  assumes "epoll_ctl_ok ctl" and "write_ok write" and "script_ok limit script" and "unused s fd c"
    and "TcpConnection_ctor loop s name fd c = Some w0" and "legal_run ctl write script limit xs w0"
  shows "\<exists>w. run_all (epoll_conn_step ctl write script) xs w0 = Some w \<and>
    connection_calls w = expected_calls (tc_state w)"
proof -
  obtain w where w: "run_all (epoll_conn_step ctl write script) xs w0 = Some w" "epu.tc_inv ctl w"
    by (rule connection_runs [OF assms])
  then have "data_ok w" by (blast elim: epu.tc_invE)
  then show ?thesis using w(1) by (simp add: data_ok_def)
qed

theorem TcpConnection_callback_order_witness:
  "legal_run example_ctl example_write example_script kCheapPrepend example_steps example_conn \<and>
   (\<exists>w. run_all (epoll_conn_step example_ctl example_write example_script) example_steps example_conn = Some w \<and>
      tc_state w = kDisconnecting \<and> connection_calls w = [kConnected])"
  by (rule example_run) (use TcpConnection_callback_order [OF example_hyps] example_legal in auto)

text \<open>C18: once the socket takes at least a byte at every write, as many writable events as bytes are
  queued bring every accepted message onto the wire, and a connection that was shutting down
  with output queued then closes its write side.\<close>

theorem TcpConnection_drains:
  assumes "epoll_ctl_ok ctl" and "write_ok write" and "script_ok limit script" and "unused s fd c"
    and "TcpConnection_ctor loop s name fd c = Some w0" and "legal_run ctl write script limit xs w0"
    and "run_all (epoll_conn_step ctl write script) xs w0 = Some w" and "established w"
    and "write_progress write" and "Buffer_readableBytes (tc_outputBuffer w) \<le> n"
  shows "\<exists>w'. run_all (epoll_conn_step ctl write script) (replicate n (Dispatch POLLOUT arrived t)) w = Some w' \<and>
    sk_wire (tc_socket w') = concat (tc_accepted w) \<and> tc_state w' = tc_state w \<and>
    (tc_state w = kDisconnecting \<and> Buffer_readableBytes (tc_outputBuffer w) > 0 \<longrightarrow> sk_writeShut (tc_socket w'))"
proof -
  have inv: "epu.tc_inv ctl w" using connection_runs [OF assms(1-6)] assms(7) by auto
  have len: "length (Buffer_content (tc_outputBuffer w)) = Buffer_readableBytes (tc_outputBuffer w)"
    using inv by (auto simp: data_ok_def elim: epu.tc_invE)
  obtain w' where w': "run_all (epoll_conn_step ctl write script) (replicate n (Dispatch POLLOUT arrived t)) w = Some w'"
    "epu.tc_inv ctl w'" "tc_state w' = tc_state w" "tc_accepted w' = tc_accepted w"
    "Buffer_content (tc_outputBuffer w') = []"
    "tc_state w = kDisconnecting \<longrightarrow> Buffer_content (tc_outputBuffer w) \<noteq> [] \<or> sk_writeShut (tc_socket w) \<longrightarrow>
      sk_writeShut (tc_socket w')"
    using epu.drains [OF inv assms(8,2,9), of n script arrived t] assms(10) len
    by (auto simp: epoll_conn_step_def)
  have "data_ok w'" using w'(2) by (blast elim: epu.tc_invE)
  then show ?thesis using w' len by (auto simp: data_ok_def)
qed

theorem TcpConnection_drains_witness:
  "\<exists>w w'. run_all (epoll_conn_step example_ctl example_write example_script) example_steps example_conn = Some w \<and>
     run_all (epoll_conn_step example_ctl example_write example_script) (replicate 3 (Dispatch POLLOUT (Inl EAGAIN) 0)) w =
       Some w' \<and> sk_wire (tc_socket w') = ''hello'' \<and> sk_writeShut (tc_socket w')"
proof (rule example_run)
  fix w
  assume w: "run_all (epoll_conn_step example_ctl example_write example_script) example_steps example_conn = Some w"
    "tc_state w = kDisconnecting" "tc_accepted w = [''hello'']" "Buffer_readableBytes (tc_outputBuffer w) = 3"
  have "established w" "write_progress example_write" "Buffer_readableBytes (tc_outputBuffer w) \<le> 3"
    using w(2,4) by (simp_all add: established_def write_progress_def example_write_def)
  from TcpConnection_drains [OF example_hyps w(1) this, of "Inl EAGAIN" 0] w show ?thesis by auto
qed

text \<open>C39: destroying a connection that is shutting down, as the destructor of the server does for every
  connection it still has, fails on an assertion of the channel, since the channel of such a
  connection still waits for input.\<close>

theorem connectDestroyed_while_disconnecting_aborts:
  assumes "epoll_ctl_ok ctl" and "write_ok write" and "script_ok limit script" and "unused s fd c"
    and "TcpConnection_ctor loop s name fd c = Some w0" and "legal_run ctl write script limit xs w0"
    and "run_all (epoll_conn_step ctl write script) xs w0 = Some w"
    and "tc_state w = kDisconnecting" and "tc_reading w"
  shows "connectDestroyed write (EPollPoller_updateChannel ctl) (EPollPoller_removeChannel ctl) script w = None"
proof -
  have "epu.tc_inv ctl w" using connection_runs [OF assms(1-6)] assms(7) by auto
  then obtain ev where ok: "epu.chan_ok ctl w ev" "state_ok w ev" by (blast elim: epu.tc_invE)
  obtain ch where ch: "conn_channel w = Some ch" "ch_events ch = ev" by (rule epu.chan_ok_channel [OF ok(1)])
  have "ev \<noteq> 0" using ok(2) assms(8,9) by (auto simp: state_ok_def)
  then show ?thesis using assms(8) ch
    by (simp add: connectDestroyed_def on_loop_def Channel_remove_def conn_channel_def isNoneEvent_def kNoneEvent_def)
qed

theorem connectDestroyed_while_disconnecting_aborts_witness:
  "\<exists>w. run_all (epoll_conn_step example_ctl example_write example_script) example_steps example_conn = Some w \<and>
     connectDestroyed example_write (EPollPoller_updateChannel example_ctl) (EPollPoller_removeChannel example_ctl)
       example_script w = None"
  by (rule example_run)
    (use connectDestroyed_while_disconnecting_aborts [OF example_hyps] in blast)

end
