(* ===== verification/TimerQueue.thy ===== *)
theory TimerQueue
  imports Timestamp Std_Map "HOL-Library.Product_Lexorder"
begin

text \<open>
  Timers and the timer queue of an event loop: \<open>net/Timer.h\<close>, \<open>net/Timer.cc\<close>,
  \<open>net/TimerId.h\<close>, \<open>net/TimerQueue.h\<close> and \<open>net/TimerQueue.cc\<close>. Timers are objects on a
  heap, a map from addresses; the two sets of the queue hold addresses, as in the code, and
  using the address of a deleted timer is undefined and gives \<open>None\<close>. A timer's callback may
  add and cancel timers: what it does is a list of actions, given by an argument.
  \<open>operator new\<close>, the clock and the conversion of seconds to microseconds are arguments too.
  The state of the timer descriptor is what \<open>timerfd_settime\<close> was last given.
  The lemmas show that the sets and the heap stay consistent, so that no assertion fails and
  no deleted timer is used, which timers run, and that the descriptor is always armed for the
  earliest timer.
\<close>

subsection \<open>Timers\<close>

type_synonym addr = nat

record timer =
  t_callback :: nat
  t_expiration :: timestamp
  t_interval :: real
  t_repeat :: bool
  t_sequence :: int

definition Timer_ctor :: "nat \<Rightarrow> timestamp \<Rightarrow> real \<Rightarrow> int \<Rightarrow> timer \<times> int" where
  "Timer_ctor cb when interval numCreated =
     (\<lparr>t_callback = cb, t_expiration = when, t_interval = interval, t_repeat = (interval > 0),
       t_sequence = numCreated + 1\<rparr>, numCreated + 1)"

definition Timer_restart :: "(real \<Rightarrow> int) \<Rightarrow> timer \<Rightarrow> timestamp \<Rightarrow> timer" where
  "Timer_restart to_usec t now =
     (if t_repeat t then t\<lparr>t_expiration := addTime to_usec now (t_interval t)\<rparr>
      else t\<lparr>t_expiration := Timestamp_invalid\<rparr>)"

record TimerId =
  id_timer :: addr
  id_sequence :: int

definition TimerId_ctor :: TimerId where
  "TimerId_ctor = \<lparr>id_timer = 0, id_sequence = 0\<rparr>"

subsection \<open>The timer descriptor\<close>

record timespec =
  tv_sec :: int
  tv_nsec :: int

definition howMuchTimeFromNow :: "timestamp \<Rightarrow> timestamp \<Rightarrow> timespec" where
  "howMuchTimeFromNow now when =
     (let microseconds = when - now;
          microseconds = (if microseconds < 100 then 100 else microseconds)
      in \<lparr>tv_sec = microseconds sdiv kMicroSecondsPerSecond,
          tv_nsec = microseconds smod kMicroSecondsPerSecond * 1000\<rparr>)"

subsection \<open>The queue\<close>

record timer_queue =
  tq_heap :: "addr \<rightharpoonup> timer"
  tq_numCreated :: int
  tq_timers :: "(timestamp \<times> addr) list"
  tq_active :: "(addr \<times> int) list"
  tq_calling :: bool
  tq_canceling :: "(addr \<times> int) list"
  tq_timerfd :: "(timestamp \<times> timespec) option"

definition TimerQueue_ctor :: timer_queue where
  "TimerQueue_ctor = \<lparr>tq_heap = Map.empty, tq_numCreated = 0, tq_timers = [], tq_active = [],
     tq_calling = False, tq_canceling = [], tq_timerfd = None\<rparr>"

text \<open>A successful \<open>timerfd_settime\<close> replaces the earlier setting; a read after an expiration
  leaves the one-shot timer disarmed.\<close>

definition resetTimerfd :: "timestamp \<Rightarrow> timestamp \<Rightarrow> timer_queue \<Rightarrow> timer_queue" where
  "resetTimerfd now expiration q = q\<lparr>tq_timerfd := Some (expiration, howMuchTimeFromNow now expiration)\<rparr>"

definition readTimerfd :: "timer_queue \<Rightarrow> timer_queue" where
  "readTimerfd q = q\<lparr>tq_timerfd := None\<rparr>"

definition assert_sizes :: "timer_queue \<Rightarrow> unit option" where
  "assert_sizes q = cassert (length (tq_timers q) = length (tq_active q))"

definition TimerQueue_insert :: "timer_queue \<Rightarrow> addr \<Rightarrow> (bool \<times> timer_queue) option" where
  "TimerQueue_insert q p = do {
     assert_sizes q;
     t \<leftarrow> tq_heap q p;
     let when = t_expiration t;
     let earliestChanged = (tq_timers q = [] \<or> when < fst (hd (tq_timers q)));
     let (new, ts) = set_insert (when, p) (tq_timers q);
     cassert new;
     let (new, as) = set_insert (p, t_sequence t) (tq_active q);
     cassert new;
     let q = q\<lparr>tq_timers := ts, tq_active := as\<rparr>;
     assert_sizes q;
     Some (earliestChanged, q)
   }"

definition TimerQueue_addTimerInLoop :: "timestamp \<Rightarrow> timer_queue \<Rightarrow> addr \<Rightarrow> timer_queue option" where
  "TimerQueue_addTimerInLoop now q p = do {
     (earliestChanged, q) \<leftarrow> TimerQueue_insert q p;
     t \<leftarrow> tq_heap q p;
     Some (if earliestChanged then resetTimerfd now (t_expiration t) q else q)
   }"

definition TimerQueue_cancelInLoop :: "timer_queue \<Rightarrow> TimerId \<Rightarrow> timer_queue option" where
  "TimerQueue_cancelInLoop q timerId = do {
     assert_sizes q;
     let timer = (id_timer timerId, id_sequence timerId);
     q \<leftarrow>
       (if timer \<in> set (tq_active q)
        then do {
          t \<leftarrow> tq_heap q (fst timer);
          let (n, ts) = set_erase (t_expiration t, fst timer) (tq_timers q);
          cassert (n = 1);
          Some (q\<lparr>tq_timers := ts, tq_heap := (tq_heap q)(fst timer := None),
                  tq_active := removeAll timer (tq_active q)\<rparr>)
        }
        else Some (if tq_calling q
                   then q\<lparr>tq_canceling := snd (set_insert timer (tq_canceling q))\<rparr> else q));
     assert_sizes q;
     Some q
   }"

text \<open>No object lies at the highest address, so an entry is before the sentry pair
  \<open>(now, UINTPTR_MAX)\<close> exactly when its time is not after \<open>now\<close>.\<close>

definition before_sentry :: "timestamp \<Rightarrow> timestamp \<times> addr \<Rightarrow> bool" where
  "before_sentry now e \<longleftrightarrow> fst e \<le> now"

fun erase_active :: "timer_queue \<Rightarrow> (timestamp \<times> addr) list \<Rightarrow> timer_queue option" where
  "erase_active q [] = Some q"
| "erase_active q (e # es) = do {
     t \<leftarrow> tq_heap q (snd e);
     let (n, as) = set_erase (snd e, t_sequence t) (tq_active q);
     cassert (n = 1);
     erase_active (q\<lparr>tq_active := as\<rparr>) es
   }"

definition TimerQueue_getExpired ::
    "timer_queue \<Rightarrow> timestamp \<Rightarrow> ((timestamp \<times> addr) list \<times> timer_queue) option" where
  "TimerQueue_getExpired q now = do {
     assert_sizes q;
     let expired = takeWhile (before_sentry now) (tq_timers q);
     let rest = dropWhile (before_sentry now) (tq_timers q);
     cassert (rest = [] \<or> now < fst (hd rest));
     q \<leftarrow> erase_active (q\<lparr>tq_timers := rest\<rparr>) expired;
     assert_sizes q;
     Some (expired, q)
   }"

fun reset_expired :: "(real \<Rightarrow> int) \<Rightarrow> timestamp \<Rightarrow> timer_queue \<Rightarrow> (timestamp \<times> addr) list \<Rightarrow> timer_queue option" where
  "reset_expired to_usec now q [] = Some q"
| "reset_expired to_usec now q (e # es) = do {
     t \<leftarrow> tq_heap q (snd e);
     q \<leftarrow>
       (if t_repeat t \<and> (snd e, t_sequence t) \<notin> set (tq_canceling q)
        then do {
          let q = q\<lparr>tq_heap := (tq_heap q)(snd e \<mapsto> Timer_restart to_usec t now)\<rparr>;
          (_, q) \<leftarrow> TimerQueue_insert q (snd e);
          Some q
        }
        else Some (q\<lparr>tq_heap := (tq_heap q)(snd e := None)\<rparr>));
     reset_expired to_usec now q es
   }"

definition TimerQueue_reset ::
    "(real \<Rightarrow> int) \<Rightarrow> timestamp \<Rightarrow> timer_queue \<Rightarrow> (timestamp \<times> addr) list \<Rightarrow> timestamp \<Rightarrow> timer_queue option" where
  "TimerQueue_reset to_usec clock q expired now = do {
     q \<leftarrow> reset_expired to_usec now q expired;
     nextExpire \<leftarrow>
       (case tq_timers q of
          [] \<Rightarrow> Some Timestamp_invalid
        | e # _ \<Rightarrow> do { t \<leftarrow> tq_heap q (snd e); Some (t_expiration t) });
     Some (if Timestamp_valid nextExpire then resetTimerfd clock nextExpire q else q)
   }"

definition TimerQueue_dtor :: "timer_queue \<Rightarrow> timer_queue option" where
  "TimerQueue_dtor q =
     (if list_all (\<lambda>e. tq_heap q (snd e) \<noteq> None) (tq_timers q)
      then Some (q\<lparr>tq_heap := fold (\<lambda>e h. h(snd e := None)) (tq_timers q) (tq_heap q)\<rparr>)
      else None)"

text \<open>What a callback does with the queue, in order. A failed allocation is an exception that
  the library does not catch.\<close>

datatype timer_action = Add nat timestamp real | Cancel TimerId

datatype 'a timer_result = BadAlloc | Undefined | Done 'a

definition of_option :: "'a option \<Rightarrow> 'a timer_result" where
  "of_option x = (case x of None \<Rightarrow> Undefined | Some y \<Rightarrow> Done y)"

definition TimerQueue_addTimer ::
    "((addr \<rightharpoonup> timer) \<Rightarrow> addr option) \<Rightarrow> timestamp \<Rightarrow> timer_queue \<Rightarrow> nat \<Rightarrow> timestamp \<Rightarrow> real \<Rightarrow>
     (TimerId \<times> timer_queue) timer_result" where
  "TimerQueue_addTimer alloc clock q cb when interval =
     (case alloc (tq_heap q) of
        None \<Rightarrow> BadAlloc
      | Some p \<Rightarrow>
         (let (timer, n) = Timer_ctor cb when interval (tq_numCreated q);
              q = q\<lparr>tq_heap := (tq_heap q)(p \<mapsto> timer), tq_numCreated := n\<rparr>
          in of_option (do {
               q \<leftarrow> TimerQueue_addTimerInLoop clock q p;
               Some (\<lparr>id_timer = p, id_sequence = t_sequence timer\<rparr>, q) })))"

fun run_actions ::
    "((addr \<rightharpoonup> timer) \<Rightarrow> addr option) \<Rightarrow> timestamp \<Rightarrow> timer_queue \<Rightarrow> timer_action list \<Rightarrow> timer_queue timer_result" where
  "run_actions alloc clock q [] = Done q"
| "run_actions alloc clock q (Add cb when interval # as) =
     (case TimerQueue_addTimer alloc clock q cb when interval of
        Done (_, q) \<Rightarrow> run_actions alloc clock q as | BadAlloc \<Rightarrow> BadAlloc | Undefined \<Rightarrow> Undefined)"
| "run_actions alloc clock q (Cancel i # as) =
     (case TimerQueue_cancelInLoop q i of
        Some q \<Rightarrow> run_actions alloc clock q as | None \<Rightarrow> Undefined)"

fun run_expired ::
    "((addr \<rightharpoonup> timer) \<Rightarrow> addr option) \<Rightarrow> timestamp \<Rightarrow> (nat \<Rightarrow> timer_action list) \<Rightarrow>
     timer_queue \<Rightarrow> (timestamp \<times> addr) list \<Rightarrow> timer_queue timer_result" where
  "run_expired alloc clock callback q [] = Done q"
| "run_expired alloc clock callback q (e # es) =
     (case tq_heap q (snd e) of
        None \<Rightarrow> Undefined
      | Some t \<Rightarrow>
         (case run_actions alloc clock q (callback (t_callback t)) of
            Done q \<Rightarrow> run_expired alloc clock callback q es
          | BadAlloc \<Rightarrow> BadAlloc | Undefined \<Rightarrow> Undefined))"

text \<open>\<open>now\<close> is the time read at the start of the handler, \<open>clock\<close> the later readings of the
  clock, when the descriptor is armed. The result also has the entries that expired.\<close>

definition TimerQueue_handleRead ::
    "((addr \<rightharpoonup> timer) \<Rightarrow> addr option) \<Rightarrow> (real \<Rightarrow> int) \<Rightarrow> timestamp \<Rightarrow> (nat \<Rightarrow> timer_action list) \<Rightarrow>
     timestamp \<Rightarrow> timer_queue \<Rightarrow> ((timestamp \<times> addr) list \<times> timer_queue) timer_result" where
  "TimerQueue_handleRead alloc to_usec clock callback now q =
     (case TimerQueue_getExpired (readTimerfd q) now of
        None \<Rightarrow> Undefined
      | Some (expired, q) \<Rightarrow>
         (case run_expired alloc clock callback (q\<lparr>tq_calling := True, tq_canceling := []\<rparr>) expired of
            Done q \<Rightarrow> of_option (do {
                q \<leftarrow> TimerQueue_reset to_usec clock (q\<lparr>tq_calling := False\<rparr>) expired now;
                Some (expired, q) })
          | BadAlloc \<Rightarrow> BadAlloc | Undefined \<Rightarrow> Undefined))"

subsection \<open>Consistency of the sets and the heap\<close>

text \<open>\<open>E\<close> are the entries taken out of the queue by a running handler.\<close>

definition active_of :: "(addr \<rightharpoonup> timer) \<Rightarrow> timestamp \<times> addr \<Rightarrow> addr \<times> int" where
  "active_of h e = (snd e, t_sequence (the (h (snd e))))"

definition entry_ok :: "(addr \<rightharpoonup> timer) \<Rightarrow> timestamp \<times> addr \<Rightarrow> bool" where
  "entry_ok h e \<longleftrightarrow> (\<exists>t. h (snd e) = Some t \<and> t_expiration t = fst e)"

definition sequences_ok :: "(addr \<rightharpoonup> timer) \<Rightarrow> int \<Rightarrow> bool" where
  "sequences_ok h n \<longleftrightarrow>
     (\<forall>p t. h p = Some t \<longrightarrow> t_sequence t \<le> n \<and> (t_repeat t \<longleftrightarrow> t_interval t > 0)) \<and>
     (\<forall>p p' t t'. h p = Some t \<longrightarrow> h p' = Some t' \<longrightarrow> t_sequence t = t_sequence t' \<longrightarrow> p = p')"

definition tq_inv :: "timer_queue \<Rightarrow> (timestamp \<times> addr) list \<Rightarrow> bool" where
  "tq_inv q E \<longleftrightarrow> set_sorted (tq_timers q) \<and> set_sorted (tq_active q)
     \<and> dom (tq_heap q) = snd ` set (tq_timers q) \<union> snd ` set E
     \<and> (\<forall>e \<in> set (tq_timers q) \<union> set E. entry_ok (tq_heap q) e)
     \<and> snd ` set (tq_timers q) \<inter> snd ` set E = {} \<and> distinct (map snd E)
     \<and> set (tq_active q) = active_of (tq_heap q) ` set (tq_timers q)
     \<and> sequences_ok (tq_heap q) (tq_numCreated q)"

lemma tq_invD:
  assumes "tq_inv q E"
  shows "set_sorted (tq_timers q)" and "set_sorted (tq_active q)"
    and "dom (tq_heap q) = snd ` set (tq_timers q) \<union> snd ` set E"
    and "e \<in> set (tq_timers q) \<Longrightarrow> entry_ok (tq_heap q) e"
    and "e \<in> set E \<Longrightarrow> entry_ok (tq_heap q) e"
    and "e \<in> set (tq_timers q) \<Longrightarrow> snd e \<notin> snd ` set E" and "distinct (map snd E)"
    and "set (tq_active q) = active_of (tq_heap q) ` set (tq_timers q)"
    and "sequences_ok (tq_heap q) (tq_numCreated q)"
  using assms by (auto simp: tq_inv_def)

lemma tq_invI:
  assumes "set_sorted (tq_timers q)" and "set_sorted (tq_active q)"
    and "dom (tq_heap q) = snd ` set (tq_timers q) \<union> snd ` set E"
    and "\<And>e. e \<in> set (tq_timers q) \<Longrightarrow> entry_ok (tq_heap q) e"
    and "\<And>e. e \<in> set E \<Longrightarrow> entry_ok (tq_heap q) e"
    and "\<And>e. e \<in> set (tq_timers q) \<Longrightarrow> snd e \<notin> snd ` set E" and "distinct (map snd E)"
    and "set (tq_active q) = active_of (tq_heap q) ` set (tq_timers q)"
    and "sequences_ok (tq_heap q) (tq_numCreated q)"
  shows "tq_inv q E"
  using assms unfolding tq_inv_def by blast

lemma tq_inv_cong:
  assumes "tq_inv q E" and "tq_timers q' = tq_timers q" and "tq_active q' = tq_active q"
    and "tq_heap q' = tq_heap q" and "tq_numCreated q' = tq_numCreated q"
  shows "tq_inv q' E"
  using assms by (simp add: tq_inv_def)

lemma tq_inv_ctor: "tq_inv TimerQueue_ctor []"
  by (simp add: tq_inv_def TimerQueue_ctor_def sequences_ok_def)

lemma entry_unique:
  "entry_ok h e \<Longrightarrow> entry_ok h e' \<Longrightarrow> snd e = snd e' \<Longrightarrow> e = e'"
  by (auto simp: entry_ok_def prod_eq_iff)

lemma active_inj:
  assumes "tq_inv q E"
  shows "inj_on (active_of (tq_heap q)) (set (tq_timers q))"
proof (rule inj_onI)
  fix e e' assume "e \<in> set (tq_timers q)" "e' \<in> set (tq_timers q)"
    "active_of (tq_heap q) e = active_of (tq_heap q) e'"
  then show "e = e'" using tq_invD(4) [OF assms, of e] tq_invD(4) [OF assms, of e']
    by (auto simp: active_of_def intro: entry_unique)
qed

lemma tq_inv_sizes:
  assumes "tq_inv q E"
  shows "assert_sizes q = Some ()"
proof -
  have "card (set (tq_active q)) = card (set (tq_timers q))"
    using card_image [OF active_inj [OF assms]] tq_invD(8) [OF assms] by simp
  then show ?thesis using tq_invD(1,2) [OF assms] by (simp add: assert_sizes_def set_sorted_card)
qed

lemma active_of_upd: "p \<noteq> snd e \<Longrightarrow> active_of (h(p := x)) e = active_of h e"
  by (simp add: active_of_def)

lemma entry_ok_upd: "p \<noteq> snd e \<Longrightarrow> entry_ok (h(p := x)) e \<longleftrightarrow> entry_ok h e"
  by (simp add: entry_ok_def)

lemma active_image_upd: "p \<notin> snd ` S \<Longrightarrow> active_of (h(p := x)) ` S = active_of h ` S"
  by (intro image_cong refl active_of_upd) auto

lemma entries_upd: "p \<notin> snd ` S \<Longrightarrow> (\<forall>e\<in>S. entry_ok (h(p := x)) e) \<longleftrightarrow> (\<forall>e\<in>S. entry_ok h e)"
  by (intro ball_cong refl entry_ok_upd) auto

lemma TimerQueue_insert_spec:
  assumes inv: "tq_inv q ((w, p) # E)"
  shows "\<exists>t. tq_heap q p = Some t \<and> TimerQueue_insert q p =
      Some (tq_timers q = [] \<or> w < fst (hd (tq_timers q)),
        q\<lparr>tq_timers := insort (w, p) (tq_timers q), tq_active := insort (p, t_sequence t) (tq_active q)\<rparr>) \<and>
    tq_inv (q\<lparr>tq_timers := insort (w, p) (tq_timers q),
      tq_active := insort (p, t_sequence t) (tq_active q)\<rparr>) E"
proof -
  obtain t where t: "tq_heap q p = Some t" "t_expiration t = w"
    using inv by (auto simp: tq_inv_def entry_ok_def)
  have s: "set_sorted (tq_timers q)" "set_sorted (tq_active q)" using inv by (simp_all add: tq_inv_def)
  have new: "(w, p) \<notin> set (tq_timers q)" "(p, t_sequence t) \<notin> set (tq_active q)"
    using inv by (auto simp: tq_inv_def active_of_def image_iff)
  let ?q = "q\<lparr>tq_timers := insort (w, p) (tq_timers q), tq_active := insort (p, t_sequence t) (tq_active q)\<rparr>"
  have inv': "tq_inv ?q E"
    using inv t set_insert_new [OF s(1) new(1)] set_insert_new [OF s(2) new(2)]
    by (auto simp: tq_inv_def set_insort_key active_of_def)
  show ?thesis
    using t tq_inv_sizes [OF inv] tq_inv_sizes [OF inv'] inv' set_insert_new [OF s(1) new(1)]
      set_insert_new [OF s(2) new(2)]
    by (simp add: TimerQueue_insert_def)
qed

definition armed :: "timer_queue \<Rightarrow> bool" where
  "armed q \<longleftrightarrow> (\<exists>e ts. tq_timerfd q = Some (e, ts) \<and> e \<le> fst (hd (tq_timers q)))"

text \<open>Armed for the earliest timer, at least for one that is not after \<open>bnd\<close>.\<close>

fun in_bound :: "timestamp option \<Rightarrow> timestamp \<Rightarrow> bool" where
  "in_bound None w = True"
| "in_bound (Some l) w = (w \<le> l)"

lemma in_bound_mono: "in_bound bnd w' \<Longrightarrow> w \<le> w' \<Longrightarrow> in_bound bnd w"
  by (cases bnd) auto

definition armed_upto :: "timestamp option \<Rightarrow> timer_queue \<Rightarrow> bool" where
  "armed_upto bnd q \<longleftrightarrow> tq_timers q \<noteq> [] \<longrightarrow>
     in_bound bnd (fst (hd (tq_timers q))) \<longrightarrow> armed q"

lemma insort_not_Nil [simp]: "insort x xs \<noteq> []"
  by (cases xs) auto

lemma addTimerInLoop_spec:
  assumes inv: "tq_inv q ((w, p) # E)" and arm: "armed_upto bnd q"
  shows "\<exists>q'. TimerQueue_addTimerInLoop clock q p = Some q' \<and> tq_inv q' E \<and> armed_upto bnd q' \<and>
    tq_timers q' = insort (w, p) (tq_timers q) \<and> tq_heap q' = tq_heap q \<and>
    tq_calling q' = tq_calling q \<and> tq_canceling q' = tq_canceling q"
proof -
  obtain t where t: "tq_heap q p = Some t" "TimerQueue_insert q p =
      Some (tq_timers q = [] \<or> w < fst (hd (tq_timers q)),
        q\<lparr>tq_timers := insort (w, p) (tq_timers q), tq_active := insort (p, t_sequence t) (tq_active q)\<rparr>)"
    "tq_inv (q\<lparr>tq_timers := insort (w, p) (tq_timers q),
      tq_active := insort (p, t_sequence t) (tq_active q)\<rparr>) E"
    using TimerQueue_insert_spec [OF inv] by blast
  have w: "t_expiration t = w" using inv t(1) by (auto simp: tq_inv_def entry_ok_def)
  show ?thesis
  proof (cases "tq_timers q = [] \<or> w < fst (hd (tq_timers q))")
    case True
    then have "hd (insort (w, p) (tq_timers q)) = (w, p)"
      by (auto simp: hd_insort less_eq_prod_def)
    then show ?thesis using t True w
      by (simp add: TimerQueue_addTimerInLoop_def resetTimerfd_def tq_inv_def armed_upto_def armed_def)
  next
    case False
    then have "fst (hd (insort (w, p) (tq_timers q))) = fst (hd (tq_timers q))"
      by (auto simp: hd_insort less_eq_prod_def)
    then show ?thesis using t False arm
      by (auto simp: TimerQueue_addTimerInLoop_def armed_upto_def armed_def)
  qed
qed

definition alloc_ok :: "((addr \<rightharpoonup> timer) \<Rightarrow> addr option) \<Rightarrow> bool" where
  "alloc_ok alloc \<longleftrightarrow> (\<forall>h p. alloc h = Some p \<longrightarrow> h p = None)"

lemma addTimer_spec:
  assumes inv: "tq_inv q E" and arm: "armed_upto bnd q" and alloc: "alloc_ok alloc"
  shows "case TimerQueue_addTimer alloc clock q cb due interval of
      BadAlloc \<Rightarrow> alloc (tq_heap q) = None
    | Undefined \<Rightarrow> False
    | Done (i, q') \<Rightarrow> tq_inv q' E \<and> armed_upto bnd q' \<and> tq_canceling q' = tq_canceling q \<and>
        tq_calling q' = tq_calling q \<and> tq_heap q (id_timer i) = None \<and>
        (id_timer i, id_sequence i) \<in> set (tq_active q') \<and>
        tq_timers q' = insort (due, id_timer i) (tq_timers q) \<and>
        tq_heap q' = (tq_heap q)(id_timer i \<mapsto> \<lparr>t_callback = cb, t_expiration = due,
          t_interval = interval, t_repeat = (interval > 0), t_sequence = id_sequence i\<rparr>)"
proof (cases "alloc (tq_heap q)")
  case None
  then show ?thesis by (simp add: TimerQueue_addTimer_def)
next
  case (Some p)
  then have p: "tq_heap q p = None" using alloc by (simp add: alloc_ok_def)
  define n where "n = tq_numCreated q + 1"
  define t where "t = \<lparr>t_callback = cb, t_expiration = due, t_interval = interval,
    t_repeat = (interval > 0), t_sequence = n\<rparr>"
  define q1 where "q1 = q\<lparr>tq_heap := (tq_heap q)(p \<mapsto> t), tq_numCreated := n\<rparr>"
  have fresh: "p \<notin> snd ` set (tq_timers q)" "p \<notin> snd ` set E"
    using inv domIff [of p "tq_heap q"] p by (simp_all add: tq_inv_def)
  have "sequences_ok ((tq_heap q)(p \<mapsto> t)) n"
    using inv by (fastforce simp: tq_inv_def sequences_ok_def t_def n_def)
  moreover have "active_of ((tq_heap q)(p \<mapsto> t)) ` set (tq_timers q) = active_of (tq_heap q) ` set (tq_timers q)"
    by (rule active_image_upd [OF fresh(1)])
  ultimately have inv1: "tq_inv q1 ((due, p) # E)"
    using inv fresh unfolding tq_inv_def q1_def
    by (auto simp: entry_ok_def t_def)
  have arm1: "armed_upto bnd q1" using arm by (simp add: armed_upto_def armed_def q1_def)
  obtain q' where q': "TimerQueue_addTimerInLoop clock q1 p = Some q'" "tq_inv q' E" "armed_upto bnd q'"
    "tq_timers q' = insort (due, p) (tq_timers q1)" "tq_heap q' = tq_heap q1"
    "tq_calling q' = tq_calling q1" "tq_canceling q' = tq_canceling q1"
    using addTimerInLoop_spec [OF inv1 arm1] by blast
  have "(p, n) \<in> set (tq_active q')"
    using q'(2,4,5) by (auto simp: tq_inv_def set_insort_key active_of_def q1_def t_def)
  then show ?thesis using q' Some p
    by (simp add: TimerQueue_addTimer_def Timer_ctor_def n_def [symmetric] t_def [symmetric]
        q1_def [symmetric] of_option_def) (simp add: q1_def t_def)
qed

lemma armed_upto_later:
  assumes "armed_upto bnd q" and "tq_timerfd q' = tq_timerfd q"
    and "tq_timers q' \<noteq> [] \<Longrightarrow> tq_timers q \<noteq> [] \<and> fst (hd (tq_timers q)) \<le> fst (hd (tq_timers q'))"
  shows "armed_upto bnd q'"
  using assms in_bound_mono unfolding armed_upto_def armed_def by (metis order_trans)

lemma hd_removeAll:
  assumes "set_sorted xs" and "removeAll x xs \<noteq> []"
  shows "xs \<noteq> [] \<and> hd xs \<le> hd (removeAll x xs)"
proof (cases xs)
  case (Cons y ys)
  have "hd (removeAll x xs) \<in> set (removeAll x xs)" using assms(2) by (rule list.set_sel(1))
  then have "hd (removeAll x xs) \<in> set xs" by simp
  then show ?thesis using assms(1) Cons by (auto simp: set_sorted_def)
qed (use assms in simp)

lemma fst_mono: "a \<le> b \<Longrightarrow> fst a \<le> fst (b :: timestamp \<times> addr)"
  by (auto simp: less_eq_prod_def)

lemma cancelInLoop_spec:
  assumes inv: "tq_inv q E" and arm: "armed_upto bnd q"
  shows "\<exists>q'. TimerQueue_cancelInLoop q i = Some q' \<and> tq_inv q' E \<and> armed_upto bnd q' \<and>
    tq_calling q' = tq_calling q \<and> (id_timer i, id_sequence i) \<notin> set (tq_active q') \<and>
    set (tq_canceling q) \<subseteq> set (tq_canceling q') \<and>
    (\<forall>p. p \<in> snd ` set E \<longrightarrow> tq_heap q' p = tq_heap q p) \<and>
    ((id_timer i, id_sequence i) \<notin> set (tq_active q) \<longrightarrow> tq_calling q \<longrightarrow>
      (id_timer i, id_sequence i) \<in> set (tq_canceling q'))"
proof (cases "(id_timer i, id_sequence i) \<in> set (tq_active q)")
  case True
  define p where "p = id_timer i"
  obtain w where w: "(w, p) \<in> set (tq_timers q)" "id_sequence i = t_sequence (the (tq_heap q p))"
    using True unfolding tq_invD(8) [OF inv] p_def by (auto simp: active_of_def)
  obtain t where t: "tq_heap q p = Some t" "t_expiration t = w"
    using tq_invD(4) [OF inv w(1)] by (auto simp: entry_ok_def)
  have i: "(id_timer i, id_sequence i) = (p, t_sequence t)" using w(2) t by (simp add: p_def)
  define q' where "q' = q\<lparr>tq_timers := removeAll (w, p) (tq_timers q),
    tq_heap := (tq_heap q)(p := None), tq_active := removeAll (p, t_sequence t) (tq_active q)\<rparr>"
  have only: "e = (w, p)" if "e \<in> set (tq_timers q)" "snd e = p" for e
    using entry_unique [of "tq_heap q" e "(w, p)"] tq_invD(4) [OF inv] that w(1) by simp
  have notE: "p \<notin> snd ` set E" using tq_invD(6) [OF inv w(1)] by simp
  have notT: "p \<notin> snd ` (set (tq_timers q) - {(w, p)})" using only by auto
  have set': "set (tq_timers q') = set (tq_timers q) - {(w, p)}" by (simp add: q'_def)
  have "tq_inv q' E"
  proof (rule tq_invI)
    show "dom (tq_heap q') = snd ` set (tq_timers q') \<union> snd ` set E"
      using tq_invD(3) [OF inv] notE notT w(1) by (auto simp: q'_def)
    show "entry_ok (tq_heap q') e" if "e \<in> set (tq_timers q')" for e
      using that notT tq_invD(4) [OF inv, of e] unfolding set'
      by (cases "snd e = p") (auto simp: q'_def entry_ok_upd)
    show "entry_ok (tq_heap q') e" if "e \<in> set E" for e
      using that notE tq_invD(5) [OF inv, of e] by (cases "snd e = p") (auto simp: q'_def entry_ok_upd)
    have "set (tq_active q') = active_of (tq_heap q) ` set (tq_timers q) - {active_of (tq_heap q) (w, p)}"
      using tq_invD(8) [OF inv] t by (simp add: q'_def active_of_def)
    also have "\<dots> = active_of (tq_heap q) ` (set (tq_timers q) - {(w, p)})"
      using inj_on_image_set_diff [OF active_inj [OF inv], of "set (tq_timers q)" "{(w, p)}"] w(1)
      by simp
    finally show "set (tq_active q') = active_of (tq_heap q') ` set (tq_timers q')"
      unfolding set' using active_image_upd [OF notT] by (simp add: q'_def)
    show "sequences_ok (tq_heap q') (tq_numCreated q')"
      using tq_invD(9) [OF inv] by (auto simp: q'_def sequences_ok_def)
  qed (use tq_invD [OF inv] in \<open>auto simp: q'_def\<close>)
  moreover have "armed_upto bnd q'"
    by (rule armed_upto_later [OF arm])
      (use tq_invD(1) [OF inv] hd_removeAll [of "tq_timers q" "(w, p)"] in
        \<open>auto simp: q'_def intro: fst_mono\<close>)
  moreover have "TimerQueue_cancelInLoop q i = Some q'"
    using tq_inv_sizes [OF inv] tq_inv_sizes [OF \<open>tq_inv q' E\<close>] True t w(1)
    by (simp add: TimerQueue_cancelInLoop_def i set_erase_def q'_def)
  ultimately show ?thesis using True notE by (auto simp: q'_def i)
next
  case False
  define q' where "q' = (if tq_calling q then q\<lparr>tq_canceling :=
    snd (set_insert (id_timer i, id_sequence i) (tq_canceling q))\<rparr> else q)"
  have inv': "tq_inv q' E" by (rule tq_inv_cong [OF inv]) (simp_all add: q'_def)
  have "TimerQueue_cancelInLoop q i = Some q'"
    using False tq_inv_sizes [OF inv] tq_inv_sizes [OF inv']
    by (simp add: TimerQueue_cancelInLoop_def q'_def)
  moreover have "armed_upto bnd q'" 
    by (rule armed_upto_later [OF arm]) (auto simp: q'_def split: if_splits)
  ultimately show ?thesis using inv' False by (auto simp: q'_def)
qed

lemma run_actions_spec:
  assumes "tq_inv q E" and "armed_upto bnd q" and "alloc_ok alloc"
  shows "case run_actions alloc clock q as of
      BadAlloc \<Rightarrow> True
    | Undefined \<Rightarrow> False
    | Done q' \<Rightarrow> tq_inv q' E \<and> armed_upto bnd q' \<and> tq_calling q' = tq_calling q \<and>
        set (tq_canceling q) \<subseteq> set (tq_canceling q') \<and>
        (\<forall>p. p \<in> snd ` set E \<longrightarrow> tq_heap q' p = tq_heap q p) \<and>
        (\<forall>i. Cancel i \<in> set as \<longrightarrow> tq_calling q \<longrightarrow> id_timer i \<in> snd ` set E \<longrightarrow>
          (id_timer i, id_sequence i) \<in> set (tq_canceling q'))"
  using assms(1,2)
proof (induction as arbitrary: q)
  case Nil
  then show ?case by simp
next
  case (Cons a as)
  show ?case
  proof (cases a)
    case (Add cb w interval)
    show ?thesis
    proof (cases "TimerQueue_addTimer alloc clock q cb w interval")
      case (Done r)
      obtain i q1 where r: "r = (i, q1)" by (cases r)
      have q1: "tq_inv q1 E" "armed_upto bnd q1" "tq_canceling q1 = tq_canceling q"
        "tq_calling q1 = tq_calling q" "tq_heap q (id_timer i) = None"
        "\<And>p. p \<noteq> id_timer i \<Longrightarrow> tq_heap q1 p = tq_heap q p"
        using addTimer_spec [OF Cons.prems assms(3), where clock = clock and cb = cb and due = w and interval = interval] Done r by simp_all
      have "\<forall>p. p \<in> snd ` set E \<longrightarrow> tq_heap q1 p = tq_heap q p"
        using q1(5,6) tq_invD(5) [OF Cons.prems(1)] by (force simp: entry_ok_def)
      then show ?thesis using Cons.IH [OF q1(1,2)] Done r Add q1(3,4)
        by (auto simp del: image_iff split: timer_result.splits)
    qed (use addTimer_spec [OF Cons.prems assms(3), where clock = clock and cb = cb and due = w and interval = interval] Add in auto)
  next
    case (Cancel i)
    obtain q1 where q1: "TimerQueue_cancelInLoop q i = Some q1" "tq_inv q1 E" "armed_upto bnd q1"
      "tq_calling q1 = tq_calling q" "set (tq_canceling q) \<subseteq> set (tq_canceling q1)"
      "\<forall>p. p \<in> snd ` set E \<longrightarrow> tq_heap q1 p = tq_heap q p"
      "(id_timer i, id_sequence i) \<notin> set (tq_active q) \<Longrightarrow> tq_calling q \<Longrightarrow>
        (id_timer i, id_sequence i) \<in> set (tq_canceling q1)"
      using cancelInLoop_spec [OF Cons.prems, of i] by blast
    have "(id_timer i, id_sequence i) \<notin> set (tq_active q)" if "id_timer i \<in> snd ` set E"
    proof
      assume "(id_timer i, id_sequence i) \<in> set (tq_active q)"
      then obtain e where "e \<in> set (tq_timers q)" "snd e = id_timer i"
        unfolding tq_invD(8) [OF Cons.prems(1)] by (auto simp: active_of_def)
      with tq_invD(6) [OF Cons.prems(1), of e] that show False by simp
    qed
    moreover define P where "P = snd ` set E"
    ultimately show ?thesis using Cons.IH [OF q1(2,3)] q1 Cancel
      unfolding P_def [symmetric] by (auto split: timer_result.splits)
  qed
qed

lemma run_expired_spec:
  assumes "tq_inv q E" and "armed_upto bnd q" and "alloc_ok alloc" and "set es \<subseteq> set E"
  shows "case run_expired alloc clock callback q es of
      BadAlloc \<Rightarrow> True
    | Undefined \<Rightarrow> False
    | Done q' \<Rightarrow> tq_inv q' E \<and> armed_upto bnd q' \<and> tq_calling q' = tq_calling q \<and>
        set (tq_canceling q) \<subseteq> set (tq_canceling q') \<and>
        (\<forall>p. p \<in> snd ` set E \<longrightarrow> tq_heap q' p = tq_heap q p) \<and>
        (\<forall>e i. e \<in> set es \<longrightarrow> Cancel i \<in> set (callback (t_callback (the (tq_heap q (snd e))))) \<longrightarrow>
          tq_calling q \<longrightarrow> id_timer i \<in> snd ` set E \<longrightarrow>
          (id_timer i, id_sequence i) \<in> set (tq_canceling q'))"
  using assms(1,2,4)
proof (induction es arbitrary: q)
  case Nil
  then show ?case by simp
next
  case (Cons e es)
  obtain t where t: "tq_heap q (snd e) = Some t"
    using tq_invD(5) [OF Cons.prems(1), of e] Cons.prems(3) by (auto simp: entry_ok_def)
  show ?case
  proof (cases "run_actions alloc clock q (callback (t_callback t))")
    case (Done q1)
    have q1: "tq_inv q1 E" "armed_upto bnd q1" "tq_calling q1 = tq_calling q"
      "set (tq_canceling q) \<subseteq> set (tq_canceling q1)"
      "\<And>p. p \<in> snd ` set E \<Longrightarrow> tq_heap q1 p = tq_heap q p"
      "\<And>i. Cancel i \<in> set (callback (t_callback t)) \<Longrightarrow> tq_calling q \<Longrightarrow> id_timer i \<in> snd ` set E \<Longrightarrow>
          (id_timer i, id_sequence i) \<in> set (tq_canceling q1)"
      using run_actions_spec [OF Cons.prems(1,2) assms(3), where clock = clock and as = "callback (t_callback t)"] Done
      by auto
    have eq: "run_expired alloc clock callback q (e # es) = run_expired alloc clock callback q1 es"
      using t Done by simp
    have es: "tq_heap q1 (snd e') = tq_heap q (snd e')" if "e' \<in> set es" for e'
      using that q1(5) Cons.prems(3) by auto
    define P where "P = snd ` set E"
    show ?thesis
      using Cons.IH [OF q1(1,2)] Cons.prems(3) q1(3-6) t es
      unfolding eq P_def [symmetric] by (auto split: timer_result.splits)
  qed (use run_actions_spec [OF Cons.prems(1,2) assms(3), where clock = clock and as = "callback (t_callback t)"] t in auto)
qed

lemma expired_prefix:
  assumes "set_sorted ts"
  shows "takeWhile (before_sentry now) ts = filter (\<lambda>e. fst e \<le> now) ts"
    and "dropWhile (before_sentry now) ts = filter (\<lambda>e. now < fst e) ts"
  using assms
proof (atomize(full), induction ts)
  case (Cons e ts)
  have s: "set_sorted ts" "\<forall>e'\<in>set ts. e < e'" using Cons.prems by (auto simp: set_sorted_def)
  have "\<forall>e'\<in>set ts. now < fst e'" if "now < fst e"
    using that s(2) by (force simp: less_prod_def)
  then show ?case using Cons.IH s(1)
    by (auto simp: before_sentry_def not_le filter_empty_conv filter_id_conv)
qed simp

lemma erase_active_spec:
  assumes "distinct (map snd es)" and "\<forall>e\<in>set es. tq_heap q (snd e) \<noteq> None"
    and "active_of (tq_heap q) ` set es \<subseteq> set (tq_active q)"
  shows "erase_active q es =
    Some (q\<lparr>tq_active := filter (\<lambda>a. a \<notin> active_of (tq_heap q) ` set es) (tq_active q)\<rparr>)"
  using assms
proof (induction es arbitrary: q)
  case Nil
  then show ?case by simp
next
  case (Cons e es)
  obtain t where t: "tq_heap q (snd e) = Some t" using Cons.prems(2) by auto
  let ?a = "(snd e, t_sequence t)"
  let ?q = "q\<lparr>tq_active := removeAll ?a (tq_active q)\<rparr>"
  have a: "active_of (tq_heap q) e = ?a" using t by (simp add: active_of_def)
  have notin: "?a \<notin> active_of (tq_heap q) ` set es"
    using Cons.prems(1) by (auto simp: active_of_def image_iff)
  have "active_of (tq_heap q) ` set es \<subseteq> set (tq_active q) - {?a}"
    using Cons.prems(3) notin by (simp add: subset_Diff_insert)
  then have "erase_active ?q es = Some (?q\<lparr>tq_active :=
      filter (\<lambda>a. a \<notin> active_of (tq_heap q) ` set es) (removeAll ?a (tq_active q))\<rparr>)"
    using Cons.IH [of ?q] Cons.prems by simp
  moreover have "?a \<in> set (tq_active q)" using Cons.prems(3) a by auto
  ultimately show ?case using t a
    by (simp add: set_erase_def removeAll_filter_not_eq eq_commute [of "(snd e, t_sequence t)"])
qed

lemma getExpired_spec:
  assumes inv: "tq_inv q []"
  shows "\<exists>q'. TimerQueue_getExpired q now = Some (filter (\<lambda>e. fst e \<le> now) (tq_timers q), q') \<and>
    tq_inv q' (filter (\<lambda>e. fst e \<le> now) (tq_timers q)) \<and>
    tq_timers q' = filter (\<lambda>e. now < fst e) (tq_timers q) \<and> tq_heap q' = tq_heap q \<and>
    tq_timerfd q' = tq_timerfd q \<and> tq_calling q' = tq_calling q"
proof -
  let ?E = "filter (\<lambda>e. fst e \<le> now) (tq_timers q)" and ?R = "filter (\<lambda>e. now < fst e) (tq_timers q)"
  let ?h = "tq_heap q"
  note so = tq_invD(1) [OF inv]
  have inj: "inj_on snd (set (tq_timers q))"
    using tq_invD(4) [OF inv] entry_unique unfolding inj_on_def by blast
  have "distinct (tq_timers q)" using so by (simp add: set_sorted_def strict_sorted_iff)
  then have dist: "distinct (map snd ?E)"
    using inj_on_subset [OF inj, of "set ?E"] by (simp add: distinct_map)
  define q' where "q' = q\<lparr>tq_timers := ?R,
    tq_active := filter (\<lambda>a. a \<notin> active_of ?h ` set ?E) (tq_active q)\<rparr>"
  have "\<forall>e\<in>set ?E. ?h (snd e) \<noteq> None"
    using tq_invD(4) [OF inv] unfolding entry_ok_def by fastforce
  moreover have "active_of ?h ` set ?E \<subseteq> set (tq_active q)" using tq_invD(8) [OF inv] by auto
  ultimately have er: "erase_active (q\<lparr>tq_timers := ?R\<rparr>) ?E = Some q'"
    using erase_active_spec [of ?E "q\<lparr>tq_timers := ?R\<rparr>"] dist by (simp add: q'_def)
  have inv': "tq_inv q' ?E"
  proof (rule tq_invI)
    show "set_sorted (tq_timers q')" "set_sorted (tq_active q')"
      using tq_invD(1,2) [OF inv] by (simp_all add: q'_def set_sorted_def sorted_wrt_filter)
    have "set (tq_timers q) = set ?R \<union> set ?E" by auto
    then show "dom (tq_heap q') = snd ` set (tq_timers q') \<union> snd ` set ?E"
      using tq_invD(3) [OF inv] by (simp only: q'_def image_Un) simp
    show "snd e \<notin> snd ` set ?E" if "e \<in> set (tq_timers q')" for e
      using that inj by (auto simp: q'_def inj_on_def)
    have "set (tq_active q') = active_of ?h ` set (tq_timers q) - active_of ?h ` set ?E"
      using tq_invD(8) [OF inv] by (auto simp: q'_def)
    also have "\<dots> = active_of ?h ` (set (tq_timers q) - set ?E)"
      by (rule inj_on_image_set_diff [OF active_inj [OF inv], symmetric]) auto
    also have "set (tq_timers q) - set ?E = set ?R" by auto
    finally show "set (tq_active q') = active_of (tq_heap q') ` set (tq_timers q')"
      by (simp add: q'_def)
  qed (use tq_invD [OF inv] dist in \<open>auto simp: q'_def\<close>)
  have "?R = [] \<or> now < fst (hd ?R)"
    using list.set_sel(1) [of ?R] by fastforce
  then have "TimerQueue_getExpired q now = Some (?E, q')"
    using tq_inv_sizes [OF inv] tq_inv_sizes [OF inv'] er
    by (simp add: TimerQueue_getExpired_def expired_prefix [OF so])
  then show ?thesis using inv' by (auto simp: q'_def)
qed

definition restarts :: "timer_queue \<Rightarrow> addr \<Rightarrow> bool" where
  "restarts q p \<longleftrightarrow> t_repeat (the (tq_heap q p)) \<and>
     (p, t_sequence (the (tq_heap q p))) \<notin> set (tq_canceling q)"

definition restarted :: "(real \<Rightarrow> int) \<Rightarrow> timestamp \<Rightarrow> timer \<Rightarrow> timer" where
  "restarted to_usec now t = t\<lparr>t_expiration := now + to_usec (t_interval t)\<rparr>"

lemma tq_inv_swap_pending:
  assumes inv: "tq_inv q ((w, p) # es)" and t: "tq_heap q p = Some t"
    and t': "t_sequence t' = t_sequence t" "t_repeat t' = t_repeat t" "t_interval t' = t_interval t"
  shows "tq_inv (q\<lparr>tq_heap := (tq_heap q)(p \<mapsto> t')\<rparr>) ((t_expiration t', p) # es)"
proof (rule tq_invI)
  let ?q = "q\<lparr>tq_heap := (tq_heap q)(p \<mapsto> t')\<rparr>"
  have notT: "p \<notin> snd ` set (tq_timers q)" using tq_invD(6) [OF inv] by auto
  have notE: "p \<notin> snd ` set es" using tq_invD(7) [OF inv] by simp
  show "dom (tq_heap ?q) = snd ` set (tq_timers ?q) \<union> snd ` set ((t_expiration t', p) # es)"
    using tq_invD(3) [OF inv] by auto
  show "entry_ok (tq_heap ?q) e" if "e \<in> set (tq_timers ?q)" for e
    using that notT tq_invD(4) [OF inv, of e] by (cases "snd e = p") (auto simp: entry_ok_upd)
  show "entry_ok (tq_heap ?q) e" if "e \<in> set ((t_expiration t', p) # es)" for e
    using that notE tq_invD(5) [OF inv, of e] by (cases e; cases "snd e = p") (auto simp: entry_ok_def)
  show "set (tq_active ?q) = active_of (tq_heap ?q) ` set (tq_timers ?q)"
    using tq_invD(8) [OF inv] active_image_upd [OF notT] by simp
  show "sequences_ok (tq_heap ?q) (tq_numCreated ?q)"
    using tq_invD(9) [OF inv] t t' unfolding sequences_ok_def by (auto split: if_splits)
qed (use tq_invD [OF inv] in auto)

lemma tq_inv_drop_pending:
  assumes inv: "tq_inv q ((w, p) # es)"
  shows "tq_inv (q\<lparr>tq_heap := (tq_heap q)(p := None)\<rparr>) es"
proof (rule tq_invI)
  let ?q = "q\<lparr>tq_heap := (tq_heap q)(p := None)\<rparr>"
  have notT: "p \<notin> snd ` set (tq_timers q)" using tq_invD(6) [OF inv] by auto
  have notE: "p \<notin> snd ` set es" using tq_invD(7) [OF inv] by simp
  show "dom (tq_heap ?q) = snd ` set (tq_timers ?q) \<union> snd ` set es"
    using tq_invD(3) [OF inv] notT notE by auto
  show "entry_ok (tq_heap ?q) e" if "e \<in> set (tq_timers ?q)" for e
    using that notT tq_invD(4) [OF inv, of e] by (cases "snd e = p") (auto simp: entry_ok_upd)
  show "entry_ok (tq_heap ?q) e" if "e \<in> set es" for e
    using that notE tq_invD(5) [OF inv, of e] by (cases "snd e = p") (auto simp: entry_ok_upd)
  show "set (tq_active ?q) = active_of (tq_heap ?q) ` set (tq_timers ?q)"
    using tq_invD(8) [OF inv] active_image_upd [OF notT] by simp
  show "sequences_ok (tq_heap ?q) (tq_numCreated ?q)"
    using tq_invD(9) [OF inv] unfolding sequences_ok_def by (auto split: if_splits)
qed (use tq_invD [OF inv] in auto)

definition usec_ok :: "(real \<Rightarrow> int) \<Rightarrow> bool" where
  "usec_ok to_usec \<longleftrightarrow> (\<forall>r. 0 < r \<longrightarrow> 0 \<le> to_usec r)"

lemma reset_step_spec:
  assumes inv: "tq_inv q (e # es)" and arm: "armed_upto (Some 0) q" and now: "0 < now"
    and usec: "usec_ok to_usec"
  shows "\<exists>q'. reset_expired to_usec now q [e] = Some q' \<and> tq_inv q' es \<and> armed_upto (Some 0) q' \<and>
    tq_canceling q' = tq_canceling q \<and> tq_calling q' = tq_calling q \<and>
    tq_heap q' = (tq_heap q)(snd e := (if restarts q (snd e)
      then Some (restarted to_usec now (the (tq_heap q (snd e)))) else None))"
proof -
  obtain w p where e: "e = (w, p)" by (cases e)
  obtain t where t: "tq_heap q p = Some t"
    using tq_invD(5) [OF inv, of e] e by (auto simp: entry_ok_def)
  show ?thesis
  proof (cases "restarts q p")
    case True
    define t' where "t' = restarted to_usec now t"
    define q1 where "q1 = q\<lparr>tq_heap := (tq_heap q)(p \<mapsto> t')\<rparr>"
    have rep: "t_repeat t" "0 < t_interval t"
      using True t tq_invD(9) [OF inv] by (auto simp: restarts_def sequences_ok_def)
    have "Timer_restart to_usec t now = t'"
      using rep by (simp add: Timer_restart_def t'_def restarted_def addTime_def)
    moreover have "tq_inv q1 ((t_expiration t', p) # es)"
      unfolding q1_def using inv t by (intro tq_inv_swap_pending) (auto simp: e t'_def restarted_def)
    from TimerQueue_insert_spec [OF this]
    obtain b q2 where q2: "TimerQueue_insert q1 p = Some (b, q2)" "tq_inv q2 es"
      "tq_timers q2 = insort (t_expiration t', p) (tq_timers q)" "tq_timerfd q2 = tq_timerfd q"
      "tq_heap q2 = tq_heap q1" "tq_canceling q2 = tq_canceling q" "tq_calling q2 = tq_calling q"
      by (auto simp: q1_def)
    have "0 \<le> to_usec (t_interval t)" using usec rep(2) unfolding usec_ok_def by blast
    then have "0 < t_expiration t'" using now by (simp add: t'_def restarted_def)
    then have "armed_upto (Some 0) q2"
      using arm q2(3,4) by (auto simp: armed_upto_def armed_def hd_insort split: if_splits)
    ultimately show ?thesis using q2 t True
      by (simp add: e q1_def [symmetric] restarts_def) (simp add: q1_def t'_def)
  next
    case False
    have "tq_inv (q\<lparr>tq_heap := (tq_heap q)(p := None)\<rparr>) es"
      using inv unfolding e by (rule tq_inv_drop_pending)
    moreover have "armed_upto (Some 0) (q\<lparr>tq_heap := (tq_heap q)(p := None)\<rparr>)"
      using arm by (simp add: armed_upto_def armed_def)
    ultimately show ?thesis using t False by (auto simp: e restarts_def)
  qed
qed

lemma reset_expired_Cons:
  "reset_expired to_usec now q (e # es) = do { q' \<leftarrow> reset_expired to_usec now q [e]; reset_expired to_usec now q' es }"
  by (cases "tq_heap q (snd e)") (auto simp: Let_def Option.bind_assoc split: prod.splits)

lemma reset_expired_spec:
  assumes "tq_inv q es" and "armed_upto (Some 0) q" and now: "0 < now"
    and usec: "usec_ok to_usec"
  shows "\<exists>q'. reset_expired to_usec now q es = Some q' \<and> tq_inv q' [] \<and> armed_upto (Some 0) q' \<and>
    tq_canceling q' = tq_canceling q \<and> tq_calling q' = tq_calling q \<and>
    (\<forall>p. tq_heap q' p = (if p \<in> snd ` set es
      then (if restarts q p then Some (restarted to_usec now (the (tq_heap q p))) else None)
      else tq_heap q p))"
  using assms(1,2)
proof (induction es arbitrary: q)
  case Nil
  then show ?case by simp
next
  case (Cons e es)
  obtain q1 where q1: "reset_expired to_usec now q [e] = Some q1" "tq_inv q1 es" "armed_upto (Some 0) q1"
    "tq_canceling q1 = tq_canceling q" "tq_calling q1 = tq_calling q"
    "tq_heap q1 = (tq_heap q)(snd e := (if restarts q (snd e)
      then Some (restarted to_usec now (the (tq_heap q (snd e)))) else None))"
    using reset_step_spec [OF Cons.prems now usec] by blast
  obtain q2 where q2: "reset_expired to_usec now q1 es = Some q2" "tq_inv q2 []" "armed_upto (Some 0) q2"
    "tq_canceling q2 = tq_canceling q1" "tq_calling q2 = tq_calling q1"
    "\<forall>p. tq_heap q2 p = (if p \<in> snd ` set es
      then (if restarts q1 p then Some (restarted to_usec now (the (tq_heap q1 p))) else None)
      else tq_heap q1 p)"
    using Cons.IH [OF q1(2,3)] by blast
  have notin: "snd e \<notin> snd ` set es" using tq_invD(7) [OF Cons.prems(1)] by simp
  have r: "restarts q1 p = restarts q p" if "p \<noteq> snd e" for p
    using that q1(4,6) by (simp add: restarts_def)
  have "reset_expired to_usec now q (e # es) = Some q2"
    using q1(1) q2(1) by (subst reset_expired_Cons) simp
  moreover have "tq_heap q2 p = (if p \<in> snd ` set (e # es)
      then (if restarts q p then Some (restarted to_usec now (the (tq_heap q p))) else None)
      else tq_heap q p)" for p
    using q2(6) q1(6) r notin by (cases "p = snd e") auto
  ultimately show ?case using q2 q1(4,5) by auto
qed

lemma TimerQueue_reset_spec:
  assumes inv: "tq_inv q es" and arm: "armed_upto (Some 0) q" and now: "0 < now"
    and usec: "usec_ok to_usec"
  shows "\<exists>q'. TimerQueue_reset to_usec clock q es now = Some q' \<and> tq_inv q' [] \<and> armed_upto None q' \<and>
    tq_calling q' = tq_calling q \<and>
    (\<forall>p. tq_heap q' p = (if p \<in> snd ` set es
      then (if restarts q p then Some (restarted to_usec now (the (tq_heap q p))) else None)
      else tq_heap q p))"
proof -
  obtain q1 where q1: "reset_expired to_usec now q es = Some q1" "tq_inv q1 []" "armed_upto (Some 0) q1"
    "tq_calling q1 = tq_calling q"
    "\<forall>p. tq_heap q1 p = (if p \<in> snd ` set es
      then (if restarts q p then Some (restarted to_usec now (the (tq_heap q p))) else None)
      else tq_heap q p)"
    using reset_expired_spec [OF assms] by blast
  show ?thesis
  proof (cases "tq_timers q1")
    case Nil
    then show ?thesis using q1
      by (auto simp: TimerQueue_reset_def Timestamp_valid_def Timestamp_invalid_def armed_upto_def)
  next
    case (Cons e r)
    obtain t where t: "tq_heap q1 (snd e) = Some t" "t_expiration t = fst e"
      using tq_invD(4) [OF q1(2), of e] Cons by (auto simp: entry_ok_def)
    define q2 where "q2 = (if 0 < fst e then resetTimerfd clock (fst e) q1 else q1)"
    have eq: "tq_timers q2 = tq_timers q1" "tq_heap q2 = tq_heap q1" "tq_active q2 = tq_active q1"
      "tq_numCreated q2 = tq_numCreated q1" "tq_calling q2 = tq_calling q1"
      by (simp_all add: q2_def resetTimerfd_def)
    have "TimerQueue_reset to_usec clock q es now = Some q2"
      using q1(1) t Cons by (simp add: TimerQueue_reset_def Timestamp_valid_def q2_def)
    moreover have "tq_inv q2 []" by (rule tq_inv_cong [OF q1(2)]) (simp_all add: eq)
    moreover have "armed_upto None q2"
      using q1(3) Cons by (auto simp: armed_upto_def armed_def q2_def resetTimerfd_def)
    ultimately show ?thesis using q1(4,5) eq by auto
  qed
qed

definition expired_at :: "timer_queue \<Rightarrow> timestamp \<Rightarrow> (timestamp \<times> addr) list" where
  "expired_at q now = filter (\<lambda>e. fst e \<le> now) (tq_timers q)"

lemma handleRead_spec:
  assumes inv: "tq_inv q []" and now: "0 < now" and usec: "usec_ok to_usec" and alloc: "alloc_ok alloc"
  shows "TimerQueue_handleRead alloc to_usec clock callback now q = BadAlloc \<or>
    (\<exists>q1 q2. TimerQueue_handleRead alloc to_usec clock callback now q = Done (expired_at q now, q2) \<and>
      tq_inv q2 [] \<and> armed_upto None q2 \<and> \<not> tq_calling q2 \<and>
      (\<forall>p. p \<in> snd ` set (expired_at q now) \<longrightarrow> tq_heap q1 p = tq_heap q p) \<and>
      (\<forall>e i. e \<in> set (expired_at q now) \<longrightarrow>
        Cancel i \<in> set (callback (t_callback (the (tq_heap q (snd e))))) \<longrightarrow>
        id_timer i \<in> snd ` set (expired_at q now) \<longrightarrow>
        (id_timer i, id_sequence i) \<in> set (tq_canceling q1)) \<and>
      (\<forall>p. tq_heap q2 p = (if p \<in> snd ` set (expired_at q now)
        then (if restarts q1 p then Some (restarted to_usec now (the (tq_heap q p))) else None)
        else tq_heap q1 p)))"
proof -
  define E where "E = expired_at q now"
  have inv0: "tq_inv (readTimerfd q) []" by (rule tq_inv_cong [OF inv]) (simp_all add: readTimerfd_def)
  obtain q0 where q0: "TimerQueue_getExpired (readTimerfd q) now = Some (E, q0)" "tq_inv q0 E"
    "tq_timers q0 = filter (\<lambda>e. now < fst e) (tq_timers q)" "tq_heap q0 = tq_heap q"
    using getExpired_spec [OF inv0, of now] by (auto simp: readTimerfd_def E_def expired_at_def)
  let ?q0 = "q0\<lparr>tq_calling := True, tq_canceling := []\<rparr>"
  have inv1: "tq_inv ?q0 E" by (rule tq_inv_cong [OF q0(2)]) simp_all
  have arm1: "armed_upto (Some 0) ?q0"
  proof -
    have "\<not> fst (hd (tq_timers q0)) \<le> 0" if "tq_timers q0 \<noteq> []"
      using list.set_sel(1) [OF that] now unfolding q0(3) by auto
    then show ?thesis by (auto simp: armed_upto_def)
  qed
  note run = run_expired_spec [OF inv1 arm1 alloc subset_refl, where clock = clock and callback = callback]
  show ?thesis
  proof (cases "run_expired alloc clock callback ?q0 E")
    case (Done q1)
    define P where "P = snd ` set E"
    have q1: "tq_inv q1 E" "armed_upto (Some 0) q1"
      "\<And>p. p \<in> snd ` set E \<Longrightarrow> tq_heap q1 p = tq_heap q p"
      "\<And>e i. e \<in> set E \<Longrightarrow> Cancel i \<in> set (callback (t_callback (the (tq_heap q (snd e))))) \<Longrightarrow>
          id_timer i \<in> snd ` set E \<Longrightarrow> (id_timer i, id_sequence i) \<in> set (tq_canceling q1)"
      using run q0(4) unfolding Done P_def [symmetric] by auto
    let ?q1 = "q1\<lparr>tq_calling := False\<rparr>"
    have "tq_inv ?q1 E" by (rule tq_inv_cong [OF q1(1)]) simp_all
    moreover have "armed_upto (Some 0) ?q1" using q1(2) by (simp add: armed_upto_def armed_def)
    ultimately obtain q2 where q2: "TimerQueue_reset to_usec clock ?q1 E now = Some q2" "tq_inv q2 []"
      "armed_upto None q2" "tq_calling q2 = tq_calling ?q1"
      "\<forall>p. tq_heap q2 p = (if p \<in> snd ` set E
        then (if restarts ?q1 p then Some (restarted to_usec now (the (tq_heap ?q1 p))) else None)
        else tq_heap ?q1 p)"
      using TimerQueue_reset_spec [OF _ _ now usec] by blast
    have r: "restarts ?q1 p = restarts q1 p" for p by (simp add: restarts_def)
    have "TimerQueue_handleRead alloc to_usec clock callback now q = Done (E, q2)"
      using q0(1) Done q2(1) by (simp add: TimerQueue_handleRead_def of_option_def)
    moreover have "\<forall>p. tq_heap q2 p = (if p \<in> P
        then (if restarts q1 p then Some (restarted to_usec now (the (tq_heap q p))) else None)
        else tq_heap q1 p)"
      using q2(5) q1(3) unfolding r P_def [symmetric] by simp
    moreover have "\<not> tq_calling q2" using q2(4) by simp
    ultimately show ?thesis using q2(2,3) q1(3,4)
      unfolding E_def [symmetric] P_def [symmetric] by blast
  qed (use run q0(1) in \<open>auto simp: TimerQueue_handleRead_def\<close>)
qed

lemma handleRead_done:
  assumes "tq_inv q []" and "0 < now" and "usec_ok to_usec" and "alloc_ok alloc"
    and "TimerQueue_handleRead alloc to_usec clock callback now q = Done (expired, q')"
  obtains q1 where "expired = expired_at q now" and "tq_inv q' []"
    and "\<forall>p. p \<in> snd ` set (expired_at q now) \<longrightarrow> tq_heap q1 p = tq_heap q p"
    and "\<forall>e i. e \<in> set (expired_at q now) \<longrightarrow>
        Cancel i \<in> set (callback (t_callback (the (tq_heap q (snd e))))) \<longrightarrow>
        id_timer i \<in> snd ` set (expired_at q now) \<longrightarrow>
        (id_timer i, id_sequence i) \<in> set (tq_canceling q1)"
    and "\<forall>p. tq_heap q' p = (if p \<in> snd ` set (expired_at q now)
        then (if restarts q1 p then Some (restarted to_usec now (the (tq_heap q p))) else None)
        else tq_heap q1 p)"
  using handleRead_spec [OF assms(1-4), of clock callback]
  unfolding assms(5) timer_result.inject timer_result.simps prod.inject by blast

subsection \<open>Sequences of operations\<close>

text \<open>The loop thread adds or cancels a timer, or handles an expiration of the descriptor.\<close>

datatype timer_op = OpAction timestamp timer_action | OpFire timestamp timestamp

fun TimerQueue_step ::
    "((addr \<rightharpoonup> timer) \<Rightarrow> addr option) \<Rightarrow> (real \<Rightarrow> int) \<Rightarrow> (nat \<Rightarrow> timer_action list) \<Rightarrow>
     timer_queue \<Rightarrow> timer_op \<Rightarrow> timer_queue timer_result" where
  "TimerQueue_step alloc to_usec callback q (OpAction clock a) = run_actions alloc clock q [a]"
| "TimerQueue_step alloc to_usec callback q (OpFire clock now) =
     (case TimerQueue_handleRead alloc to_usec clock callback now q of
        Done (_, q) \<Rightarrow> Done q | BadAlloc \<Rightarrow> BadAlloc | Undefined \<Rightarrow> Undefined)"

fun TimerQueue_run ::
    "((addr \<rightharpoonup> timer) \<Rightarrow> addr option) \<Rightarrow> (real \<Rightarrow> int) \<Rightarrow> (nat \<Rightarrow> timer_action list) \<Rightarrow>
     timer_queue \<Rightarrow> timer_op list \<Rightarrow> timer_queue timer_result" where
  "TimerQueue_run alloc to_usec callback q [] = Done q"
| "TimerQueue_run alloc to_usec callback q (x # xs) =
     (case TimerQueue_step alloc to_usec callback q x of
        Done q \<Rightarrow> TimerQueue_run alloc to_usec callback q xs
      | BadAlloc \<Rightarrow> BadAlloc | Undefined \<Rightarrow> Undefined)"

fun op_time_ok :: "timer_op \<Rightarrow> bool" where
  "op_time_ok (OpFire clock now) \<longleftrightarrow> 0 < now"
| "op_time_ok (OpAction clock a) \<longleftrightarrow> True"

lemma TimerQueue_step_spec:
  assumes "tq_inv q []" and "armed_upto None q" and "alloc_ok alloc" and "usec_ok to_usec"
    and "op_time_ok x"
  shows "TimerQueue_step alloc to_usec callback q x = BadAlloc \<or>
    (\<exists>q'. TimerQueue_step alloc to_usec callback q x = Done q' \<and> tq_inv q' [] \<and> armed_upto None q')"
proof (cases x)
  case (OpAction clock a)
  then show ?thesis
    using run_actions_spec [OF assms(1-3), where clock = clock and as = "[a]"]
    by (auto split: timer_result.splits)
next
  case (OpFire clock now)
  then show ?thesis
    using handleRead_spec [OF assms(1) _ assms(4,3), of now clock callback] assms(5) by auto
qed

lemma TimerQueue_run_spec:
  assumes "tq_inv q []" and "armed_upto None q" and "alloc_ok alloc" and "usec_ok to_usec"
    and "list_all op_time_ok xs"
  shows "TimerQueue_run alloc to_usec callback q xs = BadAlloc \<or>
    (\<exists>q'. TimerQueue_run alloc to_usec callback q xs = Done q' \<and> tq_inv q' [] \<and> armed_upto None q')"
  using assms(1,2,5)
proof (induction xs arbitrary: q)
  case Nil
  then show ?case by simp
next
  case (Cons x xs)
  then show ?case
    using TimerQueue_step_spec [OF Cons.prems(1,2) assms(3,4), of x callback] Cons.IH by fastforce
qed

lemma armed_ctor: "armed_upto bnd TimerQueue_ctor"
  by (simp add: armed_upto_def TimerQueue_ctor_def)

text \<open>C27: Whatever timers are added and cancelled, by the loop or from inside the callbacks of
  expiring timers, no assertion of the queue fails and no deleted timer is used; unless an
  allocation fails, every sequence of operations completes, with the two sets of timers and
  the timer objects consistent: the active set has exactly the address and the number of each
  scheduled timer, and the timers that exist are exactly the scheduled ones.\<close>

theorem TimerQueue_run_consistent:
  assumes "alloc_ok alloc" and "usec_ok to_usec" and "list_all op_time_ok ops"
  shows "TimerQueue_run alloc to_usec callback TimerQueue_ctor ops = BadAlloc \<or>
    (\<exists>q. TimerQueue_run alloc to_usec callback TimerQueue_ctor ops = Done q \<and>
      dom (tq_heap q) = snd ` set (tq_timers q) \<and>
      (\<forall>w p. (w, p) \<in> set (tq_timers q) \<longrightarrow> (\<exists>t. tq_heap q p = Some t \<and> t_expiration t = w)) \<and>
      set (tq_active q) = (\<lambda>e. (snd e, t_sequence (the (tq_heap q (snd e))))) ` set (tq_timers q) \<and>
      length (tq_timers q) = length (tq_active q))"
proof -
  have "dom (tq_heap q) = snd ` set (tq_timers q) \<and>
      (\<forall>w p. (w, p) \<in> set (tq_timers q) \<longrightarrow> (\<exists>t. tq_heap q p = Some t \<and> t_expiration t = w)) \<and>
      set (tq_active q) = (\<lambda>e. (snd e, t_sequence (the (tq_heap q (snd e))))) ` set (tq_timers q) \<and>
      length (tq_timers q) = length (tq_active q)" if inv: "tq_inv q []" for q
    using tq_invD(3,4,8) [OF inv] tq_inv_sizes [OF inv]
    by (auto simp: entry_ok_def active_of_def assert_sizes_def cassert_def split: if_splits)
  then show ?thesis
    using TimerQueue_run_spec [OF tq_inv_ctor armed_ctor assms, of callback] by blast
qed



text \<open>C28: Cancelling a timer from a callback works when the timer is itself among those expiring,
  as a timer that cancels itself is: when a callback that runs cancels a due timer by the
  identifier it was given, the timer does not exist once the expiration is handled, even when
  it repeats.\<close>

theorem TimerQueue_cancel_in_callback:
  assumes "tq_inv q []" and "0 < now" and "usec_ok to_usec" and "alloc_ok alloc"
    and "TimerQueue_handleRead alloc to_usec clock callback now q = Done (expired, q')"
    and "(w, p) \<in> set expired" and "(w', p') \<in> set expired"
    and "Cancel \<lparr>id_timer = p, id_sequence = t_sequence (the (tq_heap q p))\<rparr>
      \<in> set (callback (t_callback (the (tq_heap q p'))))"
  shows "tq_heap q' p = None \<and> p \<notin> snd ` set (tq_timers q')"
proof -
  let ?i = "\<lparr>id_timer = p, id_sequence = t_sequence (the (tq_heap q p))\<rparr>"
  obtain q1 where q': "expired = expired_at q now" "tq_inv q' []"
    "\<forall>p. p \<in> snd ` set (expired_at q now) \<longrightarrow> tq_heap q1 p = tq_heap q p"
    "\<forall>e i. e \<in> set (expired_at q now) \<longrightarrow>
        Cancel i \<in> set (callback (t_callback (the (tq_heap q (snd e))))) \<longrightarrow>
        id_timer i \<in> snd ` set (expired_at q now) \<longrightarrow>
        (id_timer i, id_sequence i) \<in> set (tq_canceling q1)"
    "\<forall>p. tq_heap q' p = (if p \<in> snd ` set (expired_at q now)
        then (if restarts q1 p then Some (restarted to_usec now (the (tq_heap q p))) else None)
        else tq_heap q1 p)"
    by (rule handleRead_done [OF assms(1-5)])
  have p: "p \<in> snd ` set (expired_at q now)" using assms(6) q'(1) by force
  have "(p, t_sequence (the (tq_heap q p))) \<in> set (tq_canceling q1)"
    using q'(4) [rule_format, of "(w', p')" ?i] assms(7,8) q'(1) p by simp
  then have "\<not> restarts q1 p" using q'(3) [rule_format, OF p] by (simp add: restarts_def)
  then have "tq_heap q' p = None" using q'(5) [rule_format, of p] p by simp
  moreover have "p \<notin> snd ` set (tq_timers q')" using calculation tq_invD(3) [OF q'(2)] by auto
  ultimately show ?thesis by simp
qed

text \<open>The relative time the descriptor is armed with is at least 100 microseconds, is exactly
  the time to the expiration when that is longer, and has a nanosecond part the system call
  accepts.\<close>

theorem howMuchTimeFromNow_correct:
  "let ts = howMuchTimeFromNow now when in
     0 \<le> tv_nsec ts \<and> tv_nsec ts < 10 ^ 9 \<and> 0 \<le> tv_sec ts \<and>
     tv_sec ts * 10 ^ 9 + tv_nsec ts = 1000 * max 100 (when - now)"
proof -
  define m where "m = max 100 (when - now)"
  have m: "0 \<le> m" "(if when - now < 100 then 100 else when - now) = m" by (simp_all add: m_def)
  have "howMuchTimeFromNow now when = \<lparr>tv_sec = m div 1000000, tv_nsec = m mod 1000000 * 1000\<rparr>"
    using m by (simp add: howMuchTimeFromNow_def kMicroSecondsPerSecond_def sdiv_nonneg smod_nonneg)
  moreover have "m div 1000000 * 1000000000 + m mod 1000000 * 1000 = 1000 * m"
    using div_mult_mod_eq [of m 1000000] by linarith
  moreover have "0 \<le> m mod 1000000" "m mod 1000000 < 1000000" "0 \<le> m div 1000000" using m(1) by auto
  ultimately show ?thesis unfolding m_def [symmetric] by (simp add: Let_def)
qed

lemma fold_delete: "fold (\<lambda>e h. h(snd e := None)) es h = (\<lambda>p. if p \<in> snd ` set es then None else h p)"
  by (induction es arbitrary: h) (auto simp: fun_eq_iff)

text \<open>No timer leaks: after any sequence of operations that completes, the destructor of the
  queue deletes every timer that exists, each one once.\<close>

theorem TimerQueue_no_leak:
  assumes "alloc_ok alloc" and "usec_ok to_usec" and "list_all op_time_ok ops"
    and "TimerQueue_run alloc to_usec callback TimerQueue_ctor ops = Done q"
  shows "distinct (map snd (tq_timers q)) \<and>
    (\<exists>q'. TimerQueue_dtor q = Some q' \<and> tq_heap q' = Map.empty)"
proof -
  have inv: "tq_inv q []"
    using TimerQueue_run_spec [OF tq_inv_ctor armed_ctor assms(1-3), of callback] assms(4) by auto
  have "inj_on snd (set (tq_timers q))"
    using tq_invD(4) [OF inv] entry_unique by (meson inj_onI)
  then have "distinct (map snd (tq_timers q))"
    using tq_invD(1) [OF inv] by (simp add: distinct_map set_sorted_def strict_sorted_iff)
  moreover have "tq_heap q p \<noteq> None" if "(w, p) \<in> set (tq_timers q)" for w p
    using tq_invD(4) [OF inv that] by (auto simp: entry_ok_def)
  moreover have "tq_heap q p = None" if "p \<notin> snd ` set (tq_timers q)" for p
    using tq_invD(3) [OF inv] that by auto
  ultimately show ?thesis
    by (auto simp: TimerQueue_dtor_def list_all_iff fold_delete fun_eq_iff)
qed

subsection \<open>Examples\<close>

text \<open>A small heap, a conversion of seconds, and callbacks: callback 2 cancels the timer at
  address 1 with number 1.\<close>

definition example_alloc :: "(addr \<rightharpoonup> timer) \<Rightarrow> addr option" where
  "example_alloc h = find (\<lambda>p. h p = None) [1, 2, 3]"

definition example_usec :: "real \<Rightarrow> int" where
  "example_usec r = \<lfloor>r * 1000000\<rfloor>"

definition example_callback :: "nat \<Rightarrow> timer_action list" where
  "example_callback n = (if n = 2 then [Cancel \<lparr>id_timer = 1, id_sequence = 1\<rparr>] else [])"

lemma example_alloc_ok: "alloc_ok example_alloc"
  by (simp add: alloc_ok_def example_alloc_def)

lemma example_usec_ok: "usec_ok example_usec"
  by (simp add: usec_ok_def example_usec_def)

lemmas example_eval = TimerQueue_ctor_def TimerQueue_addTimer_def TimerQueue_addTimerInLoop_def
  TimerQueue_insert_def Timer_ctor_def example_alloc_def assert_sizes_def cassert_def of_option_def
  resetTimerfd_def set_insert_def TimerQueue_handleRead_def readTimerfd_def TimerQueue_getExpired_def
  before_sentry_def TimerQueue_reset_def TimerQueue_cancelInLoop_def
  example_callback_def set_erase_def less_prod_def less_eq_prod_def Let_def

definition example_queue :: timer_queue where
  "example_queue = \<lparr>
     tq_heap = [1 \<mapsto> \<lparr>t_callback = 1, t_expiration = 10, t_interval = 2, t_repeat = True, t_sequence = 1\<rparr>,
                2 \<mapsto> \<lparr>t_callback = 2, t_expiration = 20, t_interval = 0, t_repeat = False, t_sequence = 2\<rparr>],
     tq_numCreated = 2, tq_timers = [(10, 1), (20, 2)], tq_active = [(1, 1), (2, 2)],
     tq_calling = False, tq_canceling = [],
     tq_timerfd = Some (10, howMuchTimeFromNow 0 10)\<rparr>"

lemma example_queue_run:
  "TimerQueue_run example_alloc example_usec example_callback TimerQueue_ctor
     [OpAction 0 (Add 1 10 2), OpAction 0 (Add 2 20 0)] = Done example_queue"
  by (simp add: example_eval example_queue_def fun_eq_iff)

lemma example_queue_inv: "tq_inv example_queue []"
  using TimerQueue_run_spec [OF tq_inv_ctor armed_ctor example_alloc_ok example_usec_ok,
      of "[OpAction 0 (Add 1 10 2), OpAction 0 (Add 2 20 0)]" example_callback]
  unfolding example_queue_run by simp

lemma example_handleRead_runs:
  "\<exists>q'. TimerQueue_handleRead example_alloc example_usec 30 example_callback 15 example_queue = Done ([(10, 1)], q')"
  by (simp add: example_eval example_queue_def Timer_restart_def Timestamp_valid_def example_usec_def)

lemma example_handleRead_cancels:
  "\<exists>q'. TimerQueue_handleRead example_alloc example_usec 30 example_callback 25 example_queue
     = Done ([(10, 1), (20, 2)], q')"
  by (simp add: example_eval example_queue_def)

theorem TimerQueue_run_consistent_witness:
  "\<exists>q. TimerQueue_run example_alloc example_usec example_callback TimerQueue_ctor
      [OpAction 0 (Add 1 10 2), OpAction 0 (Add 2 20 0)] = Done q \<and>
    dom (tq_heap q) = snd ` set (tq_timers q)"
  using TimerQueue_run_consistent [OF example_alloc_ok example_usec_ok,
      of "[OpAction 0 (Add 1 10 2), OpAction 0 (Add 2 20 0)]" example_callback]
  unfolding example_queue_run by simp



theorem TimerQueue_cancel_in_callback_witness:
  "\<exists>q'. TimerQueue_handleRead example_alloc example_usec 30 example_callback 25 example_queue
      = Done ([(10, 1), (20, 2)], q') \<and> tq_heap q' 1 = None"
proof -
  obtain q' where q': "TimerQueue_handleRead example_alloc example_usec 30 example_callback 25 example_queue
      = Done ([(10, 1), (20, 2)], q')" using example_handleRead_cancels by blast
  from TimerQueue_cancel_in_callback [OF example_queue_inv _ example_usec_ok example_alloc_ok q', of 10 1 20 2]
  show ?thesis using q' by (auto simp: example_queue_def example_callback_def)
qed

end
