(* ===== verification/EventLoop.thy ===== *)
theory EventLoop
  imports Poller TimerQueue
begin

text \<open>
  The event loop (\<open>src/net/EventLoop.h\<close>, \<open>src/net/EventLoop.cc\<close>).

  The record has the members of the class and the counter of the eventfd that wakes the loop; two
  more fields are a history: the functors that were queued and the functors that ran. A functor
  is a number; what a functor or the handler of a channel does to the loop is an argument. The
  first part translates the operations as they run on one thread. The second part is a step
  relation in which the thread of the loop is interleaved with calls from other threads: the
  critical section of \<open>queueInLoop\<close>, the store of \<open>quit\<close> and the write to the eventfd are
  steps of their own.
\<close>

subsection \<open>State\<close>

record 's event_loop =
  el_looping :: bool
  el_quit :: bool
  el_eventHandling :: bool
  el_callingPendingFunctors :: bool
  el_iteration :: "64 word"
  el_poller :: 's
  el_pollReturnTime :: timestamp
  el_wakeupChannel :: nat
  el_activeChannels :: "nat list"
  el_currentActiveChannel :: "nat option"
  el_pendingFunctors :: "nat list"
  el_eventfd :: nat
  el_queued :: "nat list"
  el_ran :: "nat list"

text \<open>The constructor fails when the thread has a loop already. \<open>update\<close> is the poller's
  \<open>updateChannel\<close>; the functor 0 stands for \<open>handleRead\<close>.\<close>

definition EventLoop_ctor ::
    "'a update_fun \<Rightarrow> nat option \<Rightarrow> nat \<Rightarrow> 'a channels_scheme \<Rightarrow> nat \<Rightarrow> int \<Rightarrow> 'a channels_scheme event_loop option" where
  "EventLoop_ctor update loopInThisThread this s wakeupChannel wakeupFd = do {
     cassert (0 \<le> wakeupFd);
     cassert (chans s wakeupChannel = None);
     let s = s\<lparr>chans := (chans s)(wakeupChannel \<mapsto> Channel_ctor this wakeupFd)\<rparr>;
     cassert (loopInThisThread = None);
     s \<leftarrow> setReadCallback wakeupChannel 0 s;
     s \<leftarrow> enableReading update wakeupChannel s;
     Some \<lparr>el_looping = False, el_quit = False, el_eventHandling = False, el_callingPendingFunctors = False,
       el_iteration = 0, el_poller = s, el_pollReturnTime = 0, el_wakeupChannel = wakeupChannel,
       el_activeChannels = [], el_currentActiveChannel = None, el_pendingFunctors = [],
       el_eventfd = 0, el_queued = [], el_ran = []\<rparr> }"

definition EventLoop_dtor ::
    "'a update_fun \<Rightarrow> 'a update_fun \<Rightarrow> 'a channels_scheme event_loop \<Rightarrow> 'a channels_scheme option" where
  "EventLoop_dtor update remove l = do {
     s \<leftarrow> disableAll update (el_wakeupChannel l) (el_poller l);
     Channel_remove remove (el_wakeupChannel l) s }"

subsection \<open>Waking up and queueing\<close>

definition EventLoop_wakeup :: "'s event_loop \<Rightarrow> 's event_loop" where
  "EventLoop_wakeup l = l\<lparr>el_eventfd := el_eventfd l + 1\<rparr>"

definition EventLoop_handleRead :: "'s event_loop \<Rightarrow> 's event_loop" where
  "EventLoop_handleRead l = l\<lparr>el_eventfd := 0\<rparr>"

definition EventLoop_quit :: "bool \<Rightarrow> 's event_loop \<Rightarrow> 's event_loop" where
  "EventLoop_quit isInLoopThread l =
     (let l = l\<lparr>el_quit := True\<rparr> in if \<not> isInLoopThread then EventLoop_wakeup l else l)"

text \<open>The critical section of \<open>queueInLoop\<close>.\<close>

definition push_functor :: "nat \<Rightarrow> 's event_loop \<Rightarrow> 's event_loop" where
  "push_functor cb l = l\<lparr>el_pendingFunctors := el_pendingFunctors l @ [cb], el_queued := el_queued l @ [cb]\<rparr>"

definition EventLoop_queueInLoop :: "bool \<Rightarrow> nat \<Rightarrow> 's event_loop \<Rightarrow> 's event_loop" where
  "EventLoop_queueInLoop isInLoopThread cb l =
     (let l = push_functor cb l
      in if \<not> isInLoopThread \<or> el_callingPendingFunctors l then EventLoop_wakeup l else l)"

definition EventLoop_runInLoop ::
    "(nat \<Rightarrow> 's event_loop \<Rightarrow> 's event_loop option) \<Rightarrow> bool \<Rightarrow> nat \<Rightarrow> 's event_loop \<Rightarrow> 's event_loop option" where
  "EventLoop_runInLoop run isInLoopThread cb l =
     (if isInLoopThread then run cb l else Some (EventLoop_queueInLoop False cb l))"

definition EventLoop_queueSize :: "'s event_loop \<Rightarrow> nat" where
  "EventLoop_queueSize l = length (el_pendingFunctors l)"

subsection \<open>Channels\<close>

text \<open>\<open>this\<close> identifies the loop.\<close>

definition EventLoop_updateChannel ::
    "'a update_fun \<Rightarrow> nat \<Rightarrow> bool \<Rightarrow> nat \<Rightarrow> 'a channels_scheme event_loop \<Rightarrow> 'a channels_scheme event_loop option" where
  "EventLoop_updateChannel update this isInLoopThread c l = do {
     ch \<leftarrow> chans (el_poller l) c;
     cassert (ch_loop ch = this);
     cassert isInLoopThread;
     s \<leftarrow> update c (el_poller l);
     Some (l\<lparr>el_poller := s\<rparr>) }"

definition EventLoop_removeChannel ::
    "'a update_fun \<Rightarrow> nat \<Rightarrow> bool \<Rightarrow> nat \<Rightarrow> 'a channels_scheme event_loop \<Rightarrow> 'a channels_scheme event_loop option" where
  "EventLoop_removeChannel remove this isInLoopThread c l = do {
     ch \<leftarrow> chans (el_poller l) c;
     cassert (ch_loop ch = this);
     cassert isInLoopThread;
     cassert (el_eventHandling l \<longrightarrow>
       el_currentActiveChannel l = Some c \<or> c \<notin> set (el_activeChannels l));
     s \<leftarrow> remove c (el_poller l);
     Some (l\<lparr>el_poller := s\<rparr>) }"

definition EventLoop_hasChannel ::
    "nat \<Rightarrow> bool \<Rightarrow> nat \<Rightarrow> 'a poller_scheme event_loop \<Rightarrow> bool option" where
  "EventLoop_hasChannel this isInLoopThread c l = do {
     ch \<leftarrow> chans (el_poller l) c;
     cassert (ch_loop ch = this);
     cassert isInLoopThread;
     Some (hasChannel c (el_poller l)) }"

subsection \<open>The loop\<close>

fun run_functors ::
    "(nat \<Rightarrow> 's event_loop \<Rightarrow> 's event_loop option) \<Rightarrow> nat list \<Rightarrow> 's event_loop \<Rightarrow> 's event_loop option" where
  "run_functors run [] l = Some l"
| "run_functors run (f # fs) l = do {
     l \<leftarrow> run f (l\<lparr>el_ran := el_ran l @ [f]\<rparr>);
     run_functors run fs l }"

definition swap_functors :: "'s event_loop \<Rightarrow> 's event_loop" where
  "swap_functors l = l\<lparr>el_pendingFunctors := []\<rparr>"

definition doPendingFunctors ::
    "(nat \<Rightarrow> 's event_loop \<Rightarrow> 's event_loop option) \<Rightarrow> 's event_loop \<Rightarrow> 's event_loop option" where
  "doPendingFunctors run l = do {
     let l = l\<lparr>el_callingPendingFunctors := True\<rparr>;
     let functors = el_pendingFunctors l;
     let l = swap_functors l;
     l \<leftarrow> run_functors run functors l;
     Some (l\<lparr>el_callingPendingFunctors := False\<rparr>) }"

fun handle_channels ::
    "(nat \<Rightarrow> 's event_loop \<Rightarrow> 's event_loop option) \<Rightarrow> nat list \<Rightarrow> 's event_loop \<Rightarrow> 's event_loop option" where
  "handle_channels handle [] l = Some l"
| "handle_channels handle (c # cs) l = do {
     l \<leftarrow> handle c (l\<lparr>el_currentActiveChannel := Some c\<rparr>);
     handle_channels handle cs l }"

text \<open>The body of the \<open>while\<close> loop. \<open>poll\<close> gives the time and the active channels; its result also
  has what other threads did to the loop meanwhile.\<close>

type_synonym 's poll_fun = "'s event_loop \<Rightarrow> (timestamp \<times> nat list \<times> 's event_loop) option"

definition loop_body ::
    "'s poll_fun \<Rightarrow> (timestamp \<Rightarrow> nat \<Rightarrow> 's event_loop \<Rightarrow> 's event_loop option) \<Rightarrow>
     (nat \<Rightarrow> 's event_loop \<Rightarrow> 's event_loop option) \<Rightarrow> 's event_loop \<Rightarrow> 's event_loop option" where
  "loop_body poll handle run l = do {
     let l = l\<lparr>el_activeChannels := []\<rparr>;
     (now, active, l) \<leftarrow> poll l;
     let l = l\<lparr>el_pollReturnTime := now, el_activeChannels := active, el_iteration := el_iteration l + 1,
               el_eventHandling := True\<rparr>;
     l \<leftarrow> handle_channels (handle now) active l;
     let l = l\<lparr>el_currentActiveChannel := None, el_eventHandling := False\<rparr>;
     doPendingFunctors run l }"

partial_function (option) loop_while ::
    "('s event_loop \<Rightarrow> 's event_loop option) \<Rightarrow> 's event_loop \<Rightarrow> 's event_loop option" where
  "loop_while body l = (if el_quit l then Some l else do { l \<leftarrow> body l; loop_while body l })"

definition EventLoop_loop ::
    "'s poll_fun \<Rightarrow> (timestamp \<Rightarrow> nat \<Rightarrow> 's event_loop \<Rightarrow> 's event_loop option) \<Rightarrow>
     (nat \<Rightarrow> 's event_loop \<Rightarrow> 's event_loop option) \<Rightarrow> bool \<Rightarrow> 's event_loop \<Rightarrow> 's event_loop option" where
  "EventLoop_loop poll handle run isInLoopThread l = do {
     cassert (\<not> el_looping l);
     cassert isInLoopThread;
     let l = l\<lparr>el_looping := True, el_quit := False\<rparr>;
     l \<leftarrow> loop_while (loop_body poll handle run) l;
     Some (l\<lparr>el_looping := False\<rparr>) }"

subsection \<open>Timers\<close>

definition EventLoop_runAt ::
    "((addr \<rightharpoonup> timer) \<Rightarrow> addr option) \<Rightarrow> timestamp \<Rightarrow> timer_queue \<Rightarrow> timestamp \<Rightarrow> nat \<Rightarrow> (TimerId \<times> timer_queue) timer_result" where
  "EventLoop_runAt alloc clock q time cb = TimerQueue_addTimer alloc clock q cb time 0"

definition EventLoop_runAfter ::
    "((addr \<rightharpoonup> timer) \<Rightarrow> addr option) \<Rightarrow> (real \<Rightarrow> int) \<Rightarrow> timestamp \<Rightarrow> timestamp \<Rightarrow> timer_queue \<Rightarrow> real \<Rightarrow> nat \<Rightarrow>
     (TimerId \<times> timer_queue) timer_result" where
  "EventLoop_runAfter alloc to_usec now clock q delay cb = EventLoop_runAt alloc clock q (addTime to_usec now delay) cb"

definition EventLoop_runEvery ::
    "((addr \<rightharpoonup> timer) \<Rightarrow> addr option) \<Rightarrow> (real \<Rightarrow> int) \<Rightarrow> timestamp \<Rightarrow> timestamp \<Rightarrow> timer_queue \<Rightarrow> real \<Rightarrow> nat \<Rightarrow>
     (TimerId \<times> timer_queue) timer_result" where
  "EventLoop_runEvery alloc to_usec now clock q interval cb =
     TimerQueue_addTimer alloc clock q cb (addTime to_usec now interval) interval"

subsection \<open>The loop among other threads\<close>

text \<open>What a functor or the handler of a channel calls on the loop, and the steps of those calls on the
  thread of the loop.\<close>

datatype loop_call = QueueInLoop nat | QuitLoop

datatype micro = Push nat | WakeCheck | StoreQuit

fun micros :: "loop_call \<Rightarrow> micro list" where
  "micros (QueueInLoop f) = [Push f, WakeCheck]"
| "micros QuitLoop = [StoreQuit]"

fun run_micro :: "micro \<Rightarrow> 's event_loop \<Rightarrow> 's event_loop" where
  "run_micro (Push f) l = push_functor f l"
| "run_micro WakeCheck l = (if el_callingPendingFunctors l then EventLoop_wakeup l else l)"
| "run_micro StoreQuit l = l\<lparr>el_quit := True\<rparr>"

text \<open>Where the thread of the loop is: outside \<open>loop\<close>, at the condition of the \<open>while\<close>, in \<open>poll\<close>, in
  the \<open>for\<close> over the active channels with the rest of a handler and the channels that are left,
  before the swap, in the \<open>for\<close> over the functors.\<close>

datatype loop_pc =
  Outside "micro list" | Condition | InPoll | Handling "micro list" "nat list" | BeforeSwap | Running "micro list" "nat list"

text \<open>\<open>sy_waking\<close> are the calls of other threads that have stored their effect and have not yet
  written to the eventfd.\<close>

record 's loop_system =
  sy_loop :: "'s event_loop"
  sy_pc :: loop_pc
  sy_waking :: nat

definition at_pc :: "loop_pc \<Rightarrow> 's event_loop \<Rightarrow> 's loop_system \<Rightarrow> 's loop_system" where
  "at_pc pc l s = s\<lparr>sy_loop := l, sy_pc := pc\<rparr>"

text \<open>The arguments: whether the thread of the loop queues functors before it calls \<open>loop\<close>, and what the
  handlers of the channels and the functors call.\<close>

inductive loop_step ::
    "bool \<Rightarrow> (nat \<Rightarrow> loop_call list) \<Rightarrow> (nat \<Rightarrow> loop_call list) \<Rightarrow> 's loop_system \<Rightarrow> 's loop_system \<Rightarrow> bool"
  for early :: bool and handler :: "nat \<Rightarrow> loop_call list" and body :: "nat \<Rightarrow> loop_call list" where
  Call_outside: "sy_pc s = Outside [] \<Longrightarrow> early \<Longrightarrow> loop_step early handler body s (s\<lparr>sy_pc := Outside (micros x)\<rparr>)"
| Micro_outside: "sy_pc s = Outside (m # ms) \<Longrightarrow>
    loop_step early handler body s (at_pc (Outside ms) (run_micro m (sy_loop s)) s)"
| Enter: "sy_pc s = Outside [] \<Longrightarrow> \<not> el_looping (sy_loop s) \<Longrightarrow>
    loop_step early handler body s (at_pc Condition ((sy_loop s)\<lparr>el_looping := True, el_quit := False\<rparr>) s)"
| Leave: "sy_pc s = Condition \<Longrightarrow> el_quit (sy_loop s) \<Longrightarrow>
    loop_step early handler body s (at_pc (Outside []) ((sy_loop s)\<lparr>el_looping := False\<rparr>) s)"
| Continue: "sy_pc s = Condition \<Longrightarrow> \<not> el_quit (sy_loop s) \<Longrightarrow>
    loop_step early handler body s (at_pc InPoll ((sy_loop s)\<lparr>el_activeChannels := []\<rparr>) s)"
| Poll: "sy_pc s = InPoll \<Longrightarrow> distinct active \<Longrightarrow>
    el_wakeupChannel (sy_loop s) \<in> set active \<longleftrightarrow> el_eventfd (sy_loop s) > 0 \<Longrightarrow>
    loop_step early handler body s (at_pc (Handling [] active) ((sy_loop s)\<lparr>el_pollReturnTime := now,
      el_activeChannels := active, el_iteration := el_iteration (sy_loop s) + 1, el_eventHandling := True\<rparr>) s)"
| Handle_wakeup: "sy_pc s = Handling [] (c # cs) \<Longrightarrow> c = el_wakeupChannel (sy_loop s) \<Longrightarrow>
    loop_step early handler body s (at_pc (Handling [] cs)
      (EventLoop_handleRead ((sy_loop s)\<lparr>el_currentActiveChannel := Some c\<rparr>)) s)"
| Handle: "sy_pc s = Handling [] (c # cs) \<Longrightarrow> c \<noteq> el_wakeupChannel (sy_loop s) \<Longrightarrow>
    loop_step early handler body s (at_pc (Handling (concat (map micros (handler c))) cs)
      ((sy_loop s)\<lparr>el_currentActiveChannel := Some c\<rparr>) s)"
| Micro_handling: "sy_pc s = Handling (m # ms) cs \<Longrightarrow>
    loop_step early handler body s (at_pc (Handling ms cs) (run_micro m (sy_loop s)) s)"
| Handled: "sy_pc s = Handling [] [] \<Longrightarrow>
    loop_step early handler body s (at_pc BeforeSwap ((sy_loop s)\<lparr>el_currentActiveChannel := None,
      el_eventHandling := False, el_callingPendingFunctors := True\<rparr>) s)"
| Swap: "sy_pc s = BeforeSwap \<Longrightarrow>
    loop_step early handler body s (at_pc (Running [] (el_pendingFunctors (sy_loop s))) (swap_functors (sy_loop s)) s)"
| Run: "sy_pc s = Running [] (f # fs) \<Longrightarrow>
    loop_step early handler body s (at_pc (Running (concat (map micros (body f))) fs)
      ((sy_loop s)\<lparr>el_ran := el_ran (sy_loop s) @ [f]\<rparr>) s)"
| Micro_running: "sy_pc s = Running (m # ms) fs \<Longrightarrow>
    loop_step early handler body s (at_pc (Running ms fs) (run_micro m (sy_loop s)) s)"
| Ran: "sy_pc s = Running [] [] \<Longrightarrow>
    loop_step early handler body s (at_pc Condition ((sy_loop s)\<lparr>el_callingPendingFunctors := False\<rparr>) s)"
| Other_queue: "loop_step early handler body s
    (s\<lparr>sy_loop := push_functor f (sy_loop s), sy_waking := sy_waking s + 1\<rparr>)"
| Other_quit: "loop_step early handler body s
    (s\<lparr>sy_loop := (sy_loop s)\<lparr>el_quit := True\<rparr>, sy_waking := sy_waking s + 1\<rparr>)"
| Other_wakeup: "sy_waking s > 0 \<Longrightarrow> loop_step early handler body s
    (s\<lparr>sy_loop := EventLoop_wakeup (sy_loop s), sy_waking := sy_waking s - 1\<rparr>)"



subsection \<open>No wake-up is lost\<close>

definition start_system :: "'s event_loop \<Rightarrow> 's loop_system" where
  "start_system l = \<lparr>sy_loop = l, sy_pc = Outside [], sy_waking = 0\<rparr>"

text \<open>The poll of the loop returns at once, or a thread is about to make it return.\<close>

definition awake :: "'s loop_system \<Rightarrow> bool" where
  "awake s \<longleftrightarrow> el_eventfd (sy_loop s) > 0 \<or> sy_waking s > 0"

text \<open>Every push is followed by the check whether to wake the loop.\<close>

fun checked :: "micro list \<Rightarrow> bool" where
  "checked [] = True"
| "checked (Push f # WakeCheck # ms) = checked ms"
| "checked (Push f # ms) = False"
| "checked (m # ms) = checked ms"

lemma checked_append: "checked ms \<Longrightarrow> checked ms' \<Longrightarrow> checked (ms @ ms')"
  by (induction ms rule: checked.induct) simp_all

lemma checked_micros: "checked (concat (map micros cs))"
proof (induction cs)
  case (Cons c cs)
  then show ?case by (cases c) simp_all
qed simp

definition wake_inv :: "'s loop_system \<Rightarrow> bool" where
  "wake_inv s \<longleftrightarrow> (let l = sy_loop s; calm = (el_pendingFunctors l \<noteq> [] \<longrightarrow> awake s) in case sy_pc s of
     Outside ms \<Rightarrow> ms = [] \<and> calm
   | Condition \<Rightarrow> calm
   | InPoll \<Rightarrow> calm \<and> (el_quit l \<longrightarrow> awake s)
   | Running ms fs \<Rightarrow> el_callingPendingFunctors l \<and> checked ms \<and> (calm \<or> (\<exists>ms'. ms = WakeCheck # ms'))
   | BeforeSwap \<Rightarrow> el_callingPendingFunctors l
   | Handling ms cs \<Rightarrow> True)"

lemmas wake_simps = wake_inv_def at_pc_def awake_def Let_def push_functor_def EventLoop_wakeup_def
  EventLoop_handleRead_def swap_functors_def

lemma wake_inv_micro:
  assumes "wake_inv s" and "sy_pc s = Running (m # ms) fs"
  shows "wake_inv (at_pc (Running ms fs) (run_micro m (sy_loop s)) s)"
proof (cases m)
  case (Push f)
  then have "\<exists>ms'. ms = WakeCheck # ms' \<and> checked ms'"
    using assms by (cases "m # ms" rule: checked.cases) (auto simp: wake_inv_def Let_def)
  then show ?thesis using assms Push by (auto simp: wake_simps)
qed (use assms in \<open>auto simp: wake_simps\<close>)

lemma wake_inv_step:
  assumes "loop_step False handler body s s'" and "wake_inv s"
  shows "wake_inv s'"
  using assms
proof (cases rule: loop_step.cases)
  case Micro_running
  then show ?thesis using wake_inv_micro [OF assms(2)] by simp
next
  case (Run f fs)
  then show ?thesis using assms(2) by (auto simp: wake_simps checked_micros)
next
  case (Other_queue f)
  then show ?thesis using assms(2) by (auto simp: wake_simps split: loop_pc.splits)
next
  case Other_quit
  then show ?thesis using assms(2) by (auto simp: wake_simps split: loop_pc.splits)
next
  case Other_wakeup
  then show ?thesis using assms(2) by (auto simp: wake_simps split: loop_pc.splits)
qed (auto simp: wake_simps)

lemma wake_inv_reachable:
  assumes "(loop_step False handler body)\<^sup>*\<^sup>* s s'" and "wake_inv s"
  shows "wake_inv s'"
  using assms by (induction rule: rtranclp_induct) (auto intro: wake_inv_step)

subsection \<open>Functors run in the order they were queued\<close>

definition unfinished :: "'s loop_system \<Rightarrow> nat list" where
  "unfinished s = (case sy_pc s of Running ms fs \<Rightarrow> fs | _ \<Rightarrow> [])"

definition order_inv :: "'s loop_system \<Rightarrow> bool" where
  "order_inv s \<longleftrightarrow> el_ran (sy_loop s) @ unfinished s @ el_pendingFunctors (sy_loop s) = el_queued (sy_loop s)"

lemma run_micro_order:
  "el_ran l @ fs @ el_pendingFunctors l = el_queued l \<Longrightarrow>
   el_ran (run_micro m l) @ fs @ el_pendingFunctors (run_micro m l) = el_queued (run_micro m l)"
  by (cases m) (auto simp: push_functor_def EventLoop_wakeup_def)

lemma order_inv_step:
  assumes "loop_step early handler body s s'" and "order_inv s"
  shows "order_inv s'"
  using assms
  by (cases rule: loop_step.cases)
    (use run_micro_order run_micro_order [of _ "[]"] in \<open>auto simp: order_inv_def unfinished_def at_pc_def push_functor_def EventLoop_wakeup_def
      EventLoop_handleRead_def swap_functors_def split: loop_pc.splits\<close>)

lemma order_inv_reachable:
  assumes "(loop_step early handler body)\<^sup>*\<^sup>* s s'" and "order_inv s"
  shows "order_inv s'"
  using assms by (induction rule: rtranclp_induct) (auto intro: order_inv_step)

subsection \<open>One turn of the loop\<close>

text \<open>The calls as they run on the thread of the loop without interruption.\<close>

fun do_call :: "loop_call \<Rightarrow> 's event_loop \<Rightarrow> 's event_loop" where
  "do_call (QueueInLoop f) l = EventLoop_queueInLoop True f l"
| "do_call QuitLoop l = EventLoop_quit True l"

definition run_body :: "(nat \<Rightarrow> loop_call list) \<Rightarrow> nat \<Rightarrow> 's event_loop \<Rightarrow> 's event_loop option" where
  "run_body body f l = Some (fold do_call (body f) l)"

definition handle_body :: "(nat \<Rightarrow> loop_call list) \<Rightarrow> nat \<Rightarrow> 's event_loop \<Rightarrow> 's event_loop option" where
  "handle_body handler c l =
     Some (if c = el_wakeupChannel l then EventLoop_handleRead l else fold do_call (handler c) l)"

lemma do_call_micros: "do_call c l = fold run_micro (micros c) l"
  by (cases c) (simp_all add: EventLoop_queueInLoop_def EventLoop_quit_def Let_def)

lemma do_calls_micros: "fold do_call cs l = fold run_micro (concat (map micros cs)) l"
  by (induction cs arbitrary: l) (simp_all add: do_call_micros)

lemma run_micro_wakeupChannel [simp]: "el_wakeupChannel (run_micro m l) = el_wakeupChannel l"
  by (cases m) (simp_all add: push_functor_def EventLoop_wakeup_def)

lemma run_micros_wakeupChannel [simp]: "el_wakeupChannel (fold run_micro ms l) = el_wakeupChannel l"
  by (induction ms arbitrary: l) simp_all

fun queued_by :: "loop_call list \<Rightarrow> nat list" where
  "queued_by [] = []"
| "queued_by (QueueInLoop f # cs) = f # queued_by cs"
| "queued_by (QuitLoop # cs) = queued_by cs"

lemma do_calls_calling:
  fixes cs :: "loop_call list"
  assumes "el_callingPendingFunctors l"
  defines "l' \<equiv> fold do_call cs l"
  shows "el_callingPendingFunctors l'" and "el_ran l' = el_ran l"
    and "el_pendingFunctors l' = el_pendingFunctors l @ queued_by cs"
    and "el_eventfd l' = el_eventfd l + length (queued_by cs)"
  using assms(1) unfolding l'_def
  by (induction cs arbitrary: l rule: queued_by.induct)
    (auto simp: EventLoop_queueInLoop_def EventLoop_quit_def push_functor_def EventLoop_wakeup_def Let_def)

lemma run_functors_body:
  assumes "el_callingPendingFunctors l"
  shows "\<exists>l'. run_functors (run_body body) fs l = Some l' \<and> el_callingPendingFunctors l' \<and>
    el_ran l' = el_ran l @ fs \<and>
    el_pendingFunctors l' = el_pendingFunctors l @ concat (map (queued_by \<circ> body) fs) \<and>
    el_eventfd l' = el_eventfd l + length (concat (map (queued_by \<circ> body) fs))"
  using assms
proof (induction fs arbitrary: l)
  case (Cons f fs)
  let ?l = "fold do_call (body f) (l\<lparr>el_ran := el_ran l @ [f]\<rparr>)"
  have "el_callingPendingFunctors (l\<lparr>el_ran := el_ran l @ [f]\<rparr>)" using Cons.prems by simp
  note d = do_calls_calling [OF this, of "body f"]
  show ?case using Cons.IH [OF d(1)] d(2-4) by (auto simp: run_body_def)
qed simp

subsection \<open>A turn of the loop is a run of the step relation\<close>

abbreviation loop_steps where "loop_steps early handler body \<equiv> (loop_step early handler body)\<^sup>*\<^sup>*"

lemma at_pc_simps [simp]:
  "sy_loop (at_pc pc l s) = l" "sy_pc (at_pc pc l s) = pc" "at_pc pc l (at_pc pc' l' s) = at_pc pc l s"
  by (simp_all add: at_pc_def)

lemma at_pc_self: "sy_pc s = pc \<Longrightarrow> at_pc pc (sy_loop s) s = s"
  by (cases s) (simp add: at_pc_def)

lemma loop_steps_first:
  "loop_step early handler body s s1 \<Longrightarrow> loop_steps early handler body s1 s2 \<Longrightarrow> loop_steps early handler body s s2"
  by (rule converse_rtranclp_into_rtranclp)

lemma steps_micros_handling:
  "sy_pc s = Handling ms cs \<Longrightarrow>
   loop_steps early handler body s (at_pc (Handling [] cs) (fold run_micro ms (sy_loop s)) s)"
proof (induction ms arbitrary: s)
  case (Cons m ms)
  show ?case
    by (rule loop_steps_first [OF Micro_handling [OF Cons.prems]])
      (use Cons.IH [of "at_pc (Handling ms cs) (run_micro m (sy_loop s)) s"] in simp)
qed (simp add: at_pc_self)

lemma steps_micros_running:
  "sy_pc s = Running ms fs \<Longrightarrow>
   loop_steps early handler body s (at_pc (Running [] fs) (fold run_micro ms (sy_loop s)) s)"
proof (induction ms arbitrary: s)
  case (Cons m ms)
  show ?case
    by (rule loop_steps_first [OF Micro_running [OF Cons.prems]])
      (use Cons.IH [of "at_pc (Running ms fs) (run_micro m (sy_loop s)) s"] in simp)
qed (simp add: at_pc_self)

lemma steps_running:
  assumes "sy_pc s = Running [] fs" and "run_functors (run_body body) fs (sy_loop s) = Some l'"
  shows "loop_steps early handler body s (at_pc (Running [] []) l' s)"
  using assms
proof (induction fs arbitrary: s)
  case Nil
  then show ?case using at_pc_self [of s] by auto
next
  case (Cons f fs)
  let ?s1 = "at_pc (Running (concat (map micros (body f))) fs) ((sy_loop s)\<lparr>el_ran := el_ran (sy_loop s) @ [f]\<rparr>) s"
  let ?s2 = "at_pc (Running [] fs) (fold do_call (body f) (sy_loop ?s1)) s"
  have "loop_step early handler body s ?s1" by (rule Run [OF Cons.prems(1)])
  moreover have "loop_steps early handler body ?s1 ?s2"
    using steps_micros_running [of ?s1] by (simp add: do_calls_micros)
  moreover have "loop_steps early handler body ?s2 (at_pc (Running [] []) l' s)"
    using Cons.IH [of ?s2] Cons.prems(2) by (simp add: run_body_def)
  ultimately show ?case by (meson loop_steps_first rtranclp_trans)
qed

lemma steps_handling:
  assumes "sy_pc s = Handling [] cs" and "handle_channels (handle_body handler) cs (sy_loop s) = Some l'"
  shows "loop_steps early handler body s (at_pc (Handling [] []) l' s)"
  using assms
proof (induction cs arbitrary: s)
  case Nil
  then show ?case using at_pc_self [of s] by auto
next
  case (Cons c cs)
  let ?l = "(sy_loop s)\<lparr>el_currentActiveChannel := Some c\<rparr>"
  show ?case
  proof (cases "c = el_wakeupChannel (sy_loop s)")
    case True
    let ?s1 = "at_pc (Handling [] cs) (EventLoop_handleRead ?l) s"
    have "loop_step early handler body s ?s1" by (rule Handle_wakeup [OF Cons.prems(1) True])
    moreover have "loop_steps early handler body ?s1 (at_pc (Handling [] []) l' s)"
      using Cons.IH [of ?s1] Cons.prems(2) True by (simp add: handle_body_def)
    ultimately show ?thesis by (rule loop_steps_first)
  next
    case False
    let ?s1 = "at_pc (Handling (concat (map micros (handler c))) cs) ?l s"
    let ?s2 = "at_pc (Handling [] cs) (fold do_call (handler c) ?l) s"
    have "loop_step early handler body s ?s1" by (rule Handle [OF Cons.prems(1) False])
    moreover have "loop_steps early handler body ?s1 ?s2"
      using steps_micros_handling [of ?s1] by (simp add: do_calls_micros)
    moreover have "loop_steps early handler body ?s2 (at_pc (Handling [] []) l' s)"
      using Cons.IH [of ?s2] Cons.prems(2) False by (simp add: handle_body_def)
    ultimately show ?thesis by (meson loop_steps_first rtranclp_trans)
  qed
qed

subsection \<open>Properties\<close>

definition example_loop :: "unit event_loop" where
  "example_loop = \<lparr>el_looping = False, el_quit = False, el_eventHandling = False, el_callingPendingFunctors = False,
     el_iteration = 0, el_poller = (), el_pollReturnTime = 0, el_wakeupChannel = 0,
     el_activeChannels = [], el_currentActiveChannel = None, el_pendingFunctors = [],
     el_eventfd = 0, el_queued = [], el_ran = []\<rparr>"

text \<open>C3: no wake-up is lost: whenever the loop sits in \<open>poll\<close> while functors are pending or \<open>quit\<close> was
  called, the eventfd is readable, so that \<open>poll\<close> returns at once, or the thread that queued or
  called \<open>quit\<close> is just about to write to it. This holds for every interleaving with other
  threads, whatever handlers and functors queue, provided the thread of the loop does not
  queue functors before it calls \<open>loop\<close>.\<close>

theorem EventLoop_no_lost_wakeup:
  assumes "loop_steps False handler body (start_system l) s" and "el_pendingFunctors l = []"
    and "sy_pc s = InPoll" and "el_pendingFunctors (sy_loop s) \<noteq> [] \<or> el_quit (sy_loop s)"
  shows "el_eventfd (sy_loop s) > 0 \<or> sy_waking s > 0"
proof -
  have "wake_inv (start_system l)" using assms(2) by (simp add: wake_inv_def start_system_def)
  from wake_inv_reachable [OF assms(1) this] show ?thesis
    using assms(3,4) by (auto simp: wake_inv_def awake_def Let_def)
qed

lemma example_other_queues:
  "\<exists>s. loop_steps False (\<lambda>_. []) (\<lambda>_. []) (start_system example_loop) s \<and> sy_pc s = InPoll \<and>
     el_pendingFunctors (sy_loop s) = [7] \<and> sy_waking s = 1"
proof -
  let ?s0 = "start_system example_loop"
  let ?s1 = "at_pc Condition (example_loop\<lparr>el_looping := True, el_quit := False\<rparr>) ?s0"
  let ?s2 = "at_pc InPoll ((sy_loop ?s1)\<lparr>el_activeChannels := []\<rparr>) ?s1"
  let ?s3 = "?s2\<lparr>sy_loop := push_functor 7 (sy_loop ?s2), sy_waking := sy_waking ?s2 + 1\<rparr>"
  have "loop_step False (\<lambda>_. []) (\<lambda>_. []) ?s0 ?s1"
    using Enter [of ?s0 False] by (simp add: start_system_def example_loop_def)
  moreover have "loop_step False (\<lambda>_. []) (\<lambda>_. []) ?s1 ?s2"
    using Continue [of ?s1 False] by (simp add: example_loop_def)
  moreover have "loop_step False (\<lambda>_. []) (\<lambda>_. []) ?s2 ?s3" by (rule Other_queue)
  ultimately have "loop_steps False (\<lambda>_. []) (\<lambda>_. []) ?s0 ?s3" by (meson loop_steps_first rtranclp.rtrancl_refl)
  then show ?thesis
    by (intro exI [of _ ?s3]) (simp add: push_functor_def example_loop_def start_system_def at_pc_def)
qed

theorem EventLoop_no_lost_wakeup_witness:
  "\<exists>s. loop_steps False (\<lambda>_. []) (\<lambda>_. []) (start_system example_loop) s \<and> sy_pc s = InPoll \<and>
     el_pendingFunctors (sy_loop s) = [7] \<and> (el_eventfd (sy_loop s) > 0 \<or> sy_waking s > 0)"
proof -
  obtain s where s: "loop_steps False (\<lambda>_. []) (\<lambda>_. []) (start_system example_loop) s" "sy_pc s = InPoll"
    "el_pendingFunctors (sy_loop s) = [7]" using example_other_queues by blast
  have "el_pendingFunctors example_loop = []" by (simp add: example_loop_def)
  from EventLoop_no_lost_wakeup [OF s(1) this s(2)] s show ?thesis by auto
qed

text \<open>C16: functors run in the order in which they were queued, by whatever thread, and each of them
  once: what ran, what the loop has taken over and what is pending is what was queued.\<close>

theorem EventLoop_runs_in_order:
  assumes "loop_steps early handler body (start_system l) s"
    and "el_pendingFunctors l = []" and "el_queued l = []" and "el_ran l = []"
  shows "el_ran (sy_loop s) @ unfinished s @ el_pendingFunctors (sy_loop s) = el_queued (sy_loop s)"
proof -
  have "order_inv (start_system l)" using assms(2-4) by (simp add: order_inv_def start_system_def unfinished_def)
  from order_inv_reachable [OF assms(1) this] show ?thesis by (simp add: order_inv_def)
qed

theorem EventLoop_runs_in_order_witness:
  "\<exists>s. loop_steps False (\<lambda>_. []) (\<lambda>_. []) (start_system example_loop) s \<and> el_queued (sy_loop s) =
     el_ran (sy_loop s) @ unfinished s @ [7]"
proof -
  obtain s where s: "loop_steps False (\<lambda>_. []) (\<lambda>_. []) (start_system example_loop) s"
    "el_pendingFunctors (sy_loop s) = [7]" using example_other_queues by blast
  then show ?thesis using EventLoop_runs_in_order [OF s(1)] by (auto simp: example_loop_def)
qed

text \<open>\<open>doPendingFunctors\<close> runs exactly the functors that were pending when it was called, in order;
  functors they queue stay pending for the next turn, even if a functor queues itself, and
  then the loop is awake.\<close>

theorem doPendingFunctors_runs_pending:
  "\<exists>l'. doPendingFunctors (run_body body) l = Some l' \<and>
     el_ran l' = el_ran l @ el_pendingFunctors l \<and>
     el_pendingFunctors l' = concat (map (queued_by \<circ> body) (el_pendingFunctors l)) \<and>
     (el_pendingFunctors l' \<noteq> [] \<longrightarrow> el_eventfd l' > 0) \<and> \<not> el_callingPendingFunctors l'"
proof -
  have "el_callingPendingFunctors (swap_functors (l\<lparr>el_callingPendingFunctors := True\<rparr>))"
    by (simp add: swap_functors_def)
  from run_functors_body [OF this, of body "el_pendingFunctors l"] show ?thesis
    by (auto simp: doPendingFunctors_def swap_functors_def Let_def)
qed

text \<open>C15: a turn of the loop as the code writes it, from the condition of the \<open>while\<close> back to it, is an
  execution of the interleaved system in which no other thread steps.\<close>

theorem loop_body_refines_steps:
  assumes pc: "sy_pc s = Condition" "\<not> el_quit (sy_loop s)" and active: "distinct active"
    "el_wakeupChannel (sy_loop s) \<in> set active \<longleftrightarrow> el_eventfd (sy_loop s) > 0"
    and body: "loop_body (\<lambda>l. Some (now, active, l)) (\<lambda>_. handle_body handler) (run_body body) (sy_loop s) = Some l'"
  shows "loop_steps early handler body s (at_pc Condition l' s)"
proof -
  let ?l1 = "(sy_loop s)\<lparr>el_activeChannels := []\<rparr>"
  let ?l2 = "?l1\<lparr>el_pollReturnTime := now, el_activeChannels := active, el_iteration := el_iteration ?l1 + 1,
    el_eventHandling := True\<rparr>"
  obtain l3 where l3: "handle_channels (handle_body handler) active ?l2 = Some l3"
    using body by (auto simp: loop_body_def elim: bind_eq_SomeE)
  let ?l4 = "l3\<lparr>el_currentActiveChannel := None, el_eventHandling := False, el_callingPendingFunctors := True\<rparr>"
  obtain l5 where l5: "run_functors (run_body body) (el_pendingFunctors ?l4) (swap_functors ?l4) = Some l5"
    "l' = l5\<lparr>el_callingPendingFunctors := False\<rparr>"
    using body l3 by (auto simp: loop_body_def doPendingFunctors_def elim: bind_eq_SomeE)
  have "loop_step early handler body s (at_pc InPoll ?l1 s)" by (rule Continue [OF pc])
  moreover have "loop_step early handler body (at_pc InPoll ?l1 s) (at_pc (Handling [] active) ?l2 s)"
    using Poll [of "at_pc InPoll ?l1 s" active early handler body now] active by simp
  moreover have "loop_steps early handler body (at_pc (Handling [] active) ?l2 s) (at_pc (Handling [] []) l3 s)"
    using steps_handling [of "at_pc (Handling [] active) ?l2 s"] l3 by simp
  moreover have "loop_step early handler body (at_pc (Handling [] []) l3 s) (at_pc BeforeSwap ?l4 s)"
    using Handled [of "at_pc (Handling [] []) l3 s"] by simp
  moreover have "loop_step early handler body (at_pc BeforeSwap ?l4 s)
      (at_pc (Running [] (el_pendingFunctors ?l4)) (swap_functors ?l4) s)"
    using Swap [of "at_pc BeforeSwap ?l4 s"] by simp
  moreover have "loop_steps early handler body (at_pc (Running [] (el_pendingFunctors ?l4)) (swap_functors ?l4) s)
      (at_pc (Running [] []) l5 s)"
    using steps_running [of "at_pc (Running [] (el_pendingFunctors ?l4)) (swap_functors ?l4) s"] l5(1) by simp
  moreover have "loop_step early handler body (at_pc (Running [] []) l5 s) (at_pc Condition l' s)"
    using Ran [of "at_pc (Running [] []) l5 s"] l5(2) by simp
  ultimately show ?thesis by (meson loop_steps_first rtranclp_trans r_into_rtranclp)
qed

theorem loop_body_refines_steps_witness:
  "\<exists>l'. loop_steps False (\<lambda>_. [QueueInLoop 8]) (\<lambda>_. []) (at_pc Condition example_loop (start_system example_loop))
      (at_pc Condition l' (start_system example_loop)) \<and> el_ran l' = [8] \<and> el_iteration l' = 1"
proof -
  let ?s = "at_pc Condition example_loop (start_system example_loop)"
  obtain l' where l': "loop_body (\<lambda>l. Some (0, [5], l)) (\<lambda>_. handle_body (\<lambda>_. [QueueInLoop 8])) (run_body (\<lambda>_. []))
      example_loop = Some l'" "el_ran l' = [8]" "el_iteration l' = 1"
    by (simp add: loop_body_def example_loop_def handle_body_def doPendingFunctors_def run_body_def
        EventLoop_queueInLoop_def push_functor_def swap_functors_def Let_def)
  have "loop_steps False (\<lambda>_. [QueueInLoop 8]) (\<lambda>_. []) ?s (at_pc Condition l' ?s)"
    by (rule loop_body_refines_steps [where active = "[5]" and now = 0]) (use l'(1) in \<open>simp_all add: example_loop_def\<close>)
  then show ?thesis using l'(2,3) by auto
qed

subsection \<open>The end of the loop\<close>

text \<open>The first \<open>n\<close> turns of the loop, stopping when \<open>quit\<close> was called.\<close>

fun turns :: "('s event_loop \<Rightarrow> 's event_loop option) \<Rightarrow> nat \<Rightarrow> 's event_loop \<Rightarrow> 's event_loop option" where
  "turns body 0 l = Some l"
| "turns body (Suc n) l = (if el_quit l then Some l else do { l \<leftarrow> body l; turns body n l })"

lemma loop_while_turns: "turns body n l = Some l' \<Longrightarrow> el_quit l' \<Longrightarrow> loop_while body l = Some l'"
proof (induction n arbitrary: l)
  case 0
  then show ?case by (simp add: loop_while.simps [of body l'])
next
  case (Suc n)
  show ?case
  proof (cases "el_quit l")
    case True
    then show ?thesis using Suc.prems by (simp add: loop_while.simps [of body l'])
  next
    case False
    with Suc.prems(1) obtain l1 where "body l = Some l1" "turns body n l1 = Some l'" by (auto elim: bind_eq_SomeE)
    then show ?thesis using Suc.IH Suc.prems(2) False by (simp add: loop_while.simps [of body l])
  qed
qed

text \<open>\<open>loop\<close> returns: if \<open>quit\<close> has been called by the end of some turn, the loop finishes that turn,
  leaves the \<open>while\<close> and can be entered again.\<close>

theorem EventLoop_loop_returns:
  assumes "\<not> el_looping l"
    and "turns (loop_body poll handle run) n (l\<lparr>el_looping := True, el_quit := False\<rparr>) = Some l'"
    and "el_quit l'"
  shows "EventLoop_loop poll handle run True l = Some (l'\<lparr>el_looping := False\<rparr>)"
  using loop_while_turns [OF assms(2,3)] assms(1) by (simp add: EventLoop_loop_def)

text \<open>A call of \<open>quit\<close> before \<open>loop\<close> has no effect.\<close>

lemma quit_before_loop_is_lost:
  "EventLoop_loop poll handle run t (EventLoop_quit True l) = EventLoop_loop poll handle run t l"
  by (simp add: EventLoop_loop_def EventLoop_quit_def Let_def)

text \<open>A functor that the thread of the loop queues before it calls \<open>loop\<close> does not wake the loop: the loop
  can sit in \<open>poll\<close> with the functor pending and nobody about to wake it.\<close>

lemma early_functor_waits:
  "\<exists>s. loop_steps True (\<lambda>_. []) (\<lambda>_. []) (start_system example_loop) s \<and> sy_pc s = InPoll \<and>
     el_pendingFunctors (sy_loop s) = [7] \<and> \<not> awake s"
proof -
  let ?s0 = "start_system example_loop"
  let ?step = "loop_step True (\<lambda>_. []) (\<lambda>_. [])"
  let ?s1 = "?s0\<lparr>sy_pc := Outside (micros (QueueInLoop 7))\<rparr>"
  let ?s2 = "at_pc (Outside [WakeCheck]) (push_functor 7 example_loop) ?s1"
  let ?s3 = "at_pc (Outside []) (push_functor 7 example_loop) ?s2"
  let ?s4 = "at_pc Condition ((sy_loop ?s3)\<lparr>el_looping := True, el_quit := False\<rparr>) ?s3"
  let ?s5 = "at_pc InPoll ((sy_loop ?s4)\<lparr>el_activeChannels := []\<rparr>) ?s4"
  have "?step ?s0 ?s1" by (rule Call_outside) (simp_all add: start_system_def)
  moreover have "?step ?s1 ?s2"
    using Micro_outside [of ?s1 "Push 7" "[WakeCheck]" True] by (simp add: start_system_def)
  moreover have "?step ?s2 ?s3"
    using Micro_outside [of ?s2 WakeCheck "[]" True] by (simp add: push_functor_def example_loop_def)
  moreover have "?step ?s3 ?s4" using Enter [of ?s3 True] by (simp add: push_functor_def example_loop_def)
  moreover have "?step ?s4 ?s5" using Continue [of ?s4 True] by simp
  ultimately have "loop_steps True (\<lambda>_. []) (\<lambda>_. []) ?s0 ?s5"
    by (meson loop_steps_first rtranclp.rtrancl_refl)
  then show ?thesis
    by (intro exI [of _ ?s5])
      (simp add: push_functor_def example_loop_def start_system_def awake_def at_pc_def)
qed

end
