(* ===== verification/Connector.thy ===== *)
theory Connector
  imports Pollers "HOL-Library.Multiset"
begin

text \<open>
  The connector of a TCP client (\<open>src/net/Connector.h\<close>, \<open>src/net/Connector.cc\<close>): it makes a
  non-blocking socket, waits until the connection is made, and tries again with a growing delay.

  The record has the members of the class, the channels and the poller of the loop, the functors
  the connector has queued in the loop and the delays of the timers it has set. Three fields are
  a history of the sockets: the sockets it opened, closed, and handed to the callback. What
  the system calls give, a new descriptor, the error of \<open>connect\<close>, the error of the socket and
  whether the socket is connected to itself, is an argument of the step, as is the address of a
  new channel. \<open>update\<close> and \<open>remove\<close> are the calls of the poller.
\<close>

datatype States = kDisconnected | kConnecting | kConnected

abbreviation kMaxRetryDelayMs :: int where "kMaxRetryDelayMs \<equiv> 30 * 1000"
abbreviation kInitRetryDelayMs :: int where "kInitRetryDelayMs \<equiv> 500"

datatype cn_functor = StartInLoop | StopInLoop | ResetChannel

record 's connector =
  cn_loop :: 's
  cn_connect :: bool
  cn_state :: States
  cn_channel :: "nat option"
  cn_retryDelayMs :: int
  cn_pending :: "cn_functor list"
  cn_timers :: "int list"
  cn_opened :: "int list"
  cn_closed :: "int list"
  cn_handed :: "int list"

text \<open>What \<open>socket\<close> and \<open>connect\<close> return, and the address of a new channel.\<close>

record attempt =
  at_sockfd :: int
  at_errno :: int
  at_channel :: nat

abbreviation (input) cn_write_id :: nat where "cn_write_id \<equiv> 1"
abbreviation (input) cn_error_id :: nat where "cn_error_id \<equiv> 2"

definition Connector_ctor :: "'s \<Rightarrow> 's connector" where
  "Connector_ctor s = \<lparr>cn_loop = s, cn_connect = False, cn_state = kDisconnected, cn_channel = None,
     cn_retryDelayMs = kInitRetryDelayMs, cn_pending = [], cn_timers = [], cn_opened = [], cn_closed = [],
     cn_handed = []\<rparr>"

definition Connector_dtor :: "'s connector \<Rightarrow> unit option" where
  "Connector_dtor w = cassert (cn_channel w = None)"

definition Connector_queueInLoop :: "cn_functor \<Rightarrow> 's connector \<Rightarrow> 's connector" where
  "Connector_queueInLoop f w = w\<lparr>cn_pending := cn_pending w @ [f]\<rparr>"

definition close_socket :: "int \<Rightarrow> 's connector \<Rightarrow> 's connector" where
  "close_socket sockfd w = w\<lparr>cn_closed := cn_closed w @ [sockfd]\<rparr>"

definition Connector_retry :: "int \<Rightarrow> 's connector \<Rightarrow> 's connector" where
  "Connector_retry sockfd w =
     (let w = (close_socket sockfd w)\<lparr>cn_state := kDisconnected\<rparr>
      in if cn_connect w
         then w\<lparr>cn_timers := cn_timers w @ [cn_retryDelayMs w],
                cn_retryDelayMs := min (cn_retryDelayMs w * 2) kMaxRetryDelayMs\<rparr>
         else w)"

definition Connector_connecting ::
    "'a update_fun \<Rightarrow> nat \<Rightarrow> int \<Rightarrow> nat \<Rightarrow> 'a channels_scheme connector \<Rightarrow> 'a channels_scheme connector option" where
  "Connector_connecting update loop sockfd c w = do {
     let w = w\<lparr>cn_state := kConnecting\<rparr>;
     cassert (cn_channel w = None);
     let s = cn_loop w;
     cassert (chans s c = None);
     let s = s\<lparr>chans := (chans s)(c \<mapsto> Channel_ctor loop sockfd)\<rparr>;
     s \<leftarrow> setWriteCallback c cn_write_id s;
     s \<leftarrow> setErrorCallback c cn_error_id s;
     s \<leftarrow> enableWriting update c s;
     Some (w\<lparr>cn_loop := s, cn_channel := Some c\<rparr>) }"

definition errno_connecting :: "int list" where
  "errno_connecting = [0, 115, 4, 106]"

definition errno_retry :: "int list" where
  "errno_retry = [11, 98, 99, 111, 101]"

text \<open>The errors that are listed as fatal and the unexpected ones are treated alike.\<close>

definition Connector_connect ::
    "'a update_fun \<Rightarrow> nat \<Rightarrow> attempt \<Rightarrow> 'a channels_scheme connector \<Rightarrow> 'a channels_scheme connector option" where
  "Connector_connect update loop a w =
     (let sockfd = at_sockfd a; savedErrno = at_errno a; w = w\<lparr>cn_opened := cn_opened w @ [sockfd]\<rparr>
      in if savedErrno \<in> set errno_connecting then Connector_connecting update loop sockfd (at_channel a) w
         else if savedErrno \<in> set errno_retry then Some (Connector_retry sockfd w)
         else Some (close_socket sockfd w))"

definition Connector_startInLoop ::
    "'a update_fun \<Rightarrow> nat \<Rightarrow> attempt \<Rightarrow> 'a channels_scheme connector \<Rightarrow> 'a channels_scheme connector option" where
  "Connector_startInLoop update loop a w = do {
     cassert (cn_state w = kDisconnected);
     (if cn_connect w then Connector_connect update loop a w else Some w) }"

definition Connector_start ::
    "'a update_fun \<Rightarrow> nat \<Rightarrow> bool \<Rightarrow> attempt \<Rightarrow> 'a channels_scheme connector \<Rightarrow> 'a channels_scheme connector option" where
  "Connector_start update loop isInLoopThread a w =
     (let w = w\<lparr>cn_connect := True\<rparr>
      in if isInLoopThread then Connector_startInLoop update loop a w
         else Some (Connector_queueInLoop StartInLoop w))"

definition Connector_stop :: "'s connector \<Rightarrow> 's connector" where
  "Connector_stop w = Connector_queueInLoop StopInLoop (w\<lparr>cn_connect := False\<rparr>)"

definition Connector_removeAndResetChannel ::
    "'a update_fun \<Rightarrow> 'a update_fun \<Rightarrow> 'a channels_scheme connector \<Rightarrow> (int \<times> 'a channels_scheme connector) option" where
  "Connector_removeAndResetChannel update remove w = do {
     c \<leftarrow> cn_channel w;
     s \<leftarrow> disableAll update c (cn_loop w);
     s \<leftarrow> Channel_remove remove c s;
     ch \<leftarrow> chans s c;
     Some (ch_fd ch, Connector_queueInLoop ResetChannel (w\<lparr>cn_loop := s\<rparr>)) }"

definition Connector_resetChannel :: "'s connector \<Rightarrow> 's connector" where
  "Connector_resetChannel w = w\<lparr>cn_channel := None\<rparr>"

definition Connector_stopInLoop ::
    "'a update_fun \<Rightarrow> 'a update_fun \<Rightarrow> 'a channels_scheme connector \<Rightarrow> 'a channels_scheme connector option" where
  "Connector_stopInLoop update remove w =
     (if cn_state w = kConnecting then do {
        let w = w\<lparr>cn_state := kDisconnected\<rparr>;
        (sockfd, w) \<leftarrow> Connector_removeAndResetChannel update remove w;
        Some (Connector_retry sockfd w) }
      else Some w)"

definition Connector_restart ::
    "'a update_fun \<Rightarrow> nat \<Rightarrow> attempt \<Rightarrow> 'a channels_scheme connector \<Rightarrow> 'a channels_scheme connector option" where
  "Connector_restart update loop a w =
     Connector_startInLoop update loop a
       (w\<lparr>cn_state := kDisconnected, cn_retryDelayMs := kInitRetryDelayMs, cn_connect := True\<rparr>)"

definition Connector_handleWrite ::
    "'a update_fun \<Rightarrow> 'a update_fun \<Rightarrow> int \<Rightarrow> bool \<Rightarrow> 'a channels_scheme connector \<Rightarrow> 'a channels_scheme connector option" where
  "Connector_handleWrite update remove err isSelfConnect w =
     (if cn_state w = kConnecting then do {
        (sockfd, w) \<leftarrow> Connector_removeAndResetChannel update remove w;
        (if err \<noteq> 0 then Some (Connector_retry sockfd w)
         else if isSelfConnect then Some (Connector_retry sockfd w)
         else (let w = w\<lparr>cn_state := kConnected\<rparr>
               in Some (if cn_connect w then w\<lparr>cn_handed := cn_handed w @ [sockfd]\<rparr>
                        else close_socket sockfd w))) }
      else do { cassert (cn_state w = kDisconnected); Some w })"

definition Connector_handleError ::
    "'a update_fun \<Rightarrow> 'a update_fun \<Rightarrow> 'a channels_scheme connector \<Rightarrow> 'a channels_scheme connector option" where
  "Connector_handleError update remove w =
     (if cn_state w = kConnecting then do {
        (sockfd, w) \<leftarrow> Connector_removeAndResetChannel update remove w;
        Some (Connector_retry sockfd w) }
      else Some w)"

subsection \<open>Steps\<close>

fun Connector_functor ::
    "'a update_fun \<Rightarrow> 'a update_fun \<Rightarrow> nat \<Rightarrow> attempt \<Rightarrow> cn_functor \<Rightarrow>
     'a channels_scheme connector \<Rightarrow> 'a channels_scheme connector option" where
  "Connector_functor update remove loop a StartInLoop w = Connector_startInLoop update loop a w"
| "Connector_functor update remove loop a StopInLoop w = Connector_stopInLoop update remove w"
| "Connector_functor update remove loop a ResetChannel w = Some (Connector_resetChannel w)"

text \<open>The calls of the user, the events of the channel, the first queued functor, and the first timer
  of \<open>retry\<close>.\<close>

datatype cn_step =
    Start bool attempt | Stop | Restart attempt | Writable int bool | Failed
  | RunPending attempt | TimerFires attempt

fun Connector_step ::
    "'a update_fun \<Rightarrow> 'a update_fun \<Rightarrow> nat \<Rightarrow> cn_step \<Rightarrow>
     'a channels_scheme connector \<Rightarrow> 'a channels_scheme connector option" where
  "Connector_step update remove loop (Start inLoop a) w = Connector_start update loop inLoop a w"
| "Connector_step update remove loop Stop w = Some (Connector_stop w)"
| "Connector_step update remove loop (Restart a) w = Connector_restart update loop a w"
| "Connector_step update remove loop (Writable err self) w = Connector_handleWrite update remove err self w"
| "Connector_step update remove loop Failed w = Connector_handleError update remove w"
| "Connector_step update remove loop (RunPending a) w = (case cn_pending w of
     [] \<Rightarrow> Some w | f # fs \<Rightarrow> Connector_functor update remove loop a f (w\<lparr>cn_pending := fs\<rparr>))"
| "Connector_step update remove loop (TimerFires a) w = (case cn_timers w of
     [] \<Rightarrow> Some w | d # ds \<Rightarrow> Connector_startInLoop update loop a (w\<lparr>cn_timers := ds\<rparr>))"

subsection \<open>Legal use\<close>

definition attempt_ok :: "attempt \<Rightarrow> 'a poller_scheme connector \<Rightarrow> bool" where
  "attempt_ok a w \<longleftrightarrow> chans (cn_loop w) (at_channel a) = None \<and> channels_map (cn_loop w) (at_sockfd a) = None \<and>
     0 \<le> at_sockfd a \<and> at_sockfd a < int_max"

text \<open>No attempt is under way or scheduled.\<close>

definition at_rest :: "'s connector \<Rightarrow> bool" where
  "at_rest w \<longleftrightarrow> cn_state w \<noteq> kConnecting \<and> cn_channel w = None \<and> cn_timers w = [] \<and> StartInLoop \<notin> set (cn_pending w)"

text \<open>The connector is started when it is at rest and not connected, and restarted when it is at rest
  and connected; it can be stopped at any time. Its channel reports events while it is
  registered, writability also after an error in the same turn. When a timer fires, the
  functors of earlier turns have run.\<close>

fun cn_legal :: "cn_step \<Rightarrow> 'a poller_scheme connector \<Rightarrow> bool" where
  "cn_legal (Start inLoop a) w = (at_rest w \<and> cn_state w = kDisconnected \<and> attempt_ok a w)"
| "cn_legal Stop w = True"
| "cn_legal (Restart a) w = (at_rest w \<and> cn_state w = kConnected \<and> attempt_ok a w)"
| "cn_legal (Writable err self) w = (cn_state w \<noteq> kConnected)"
| "cn_legal Failed w = True"
| "cn_legal (RunPending a) w = attempt_ok a w"
| "cn_legal (TimerFires a) w = (attempt_ok a w \<and> ResetChannel \<notin> set (cn_pending w))"

fun cn_run_legal ::
    "(cn_step \<Rightarrow> 'a poller_scheme connector \<Rightarrow> 'a poller_scheme connector option) \<Rightarrow> cn_step list \<Rightarrow>
     'a poller_scheme connector \<Rightarrow> bool" where
  "cn_run_legal step [] w = True"
| "cn_run_legal step (x # xs) w = (cn_legal x w \<and>
     (case step x w of None \<Rightarrow> True | Some w' \<Rightarrow> cn_run_legal step xs w'))"

subsection \<open>The invariant\<close>

text \<open>The socket of the attempt that is under way.\<close>

definition cn_sockets :: "'a poller_scheme connector \<Rightarrow> int multiset" where
  "cn_sockets w = (if cn_state w = kConnecting
     then (case cn_channel w of None \<Rightarrow> {#} | Some c \<Rightarrow>
       (case chans (cn_loop w) c of None \<Rightarrow> {#} | Some ch \<Rightarrow> {#ch_fd ch#})) else {#})"

definition cn_accounted :: "'a poller_scheme connector \<Rightarrow> bool" where
  "cn_accounted w \<longleftrightarrow> mset (cn_opened w) = mset (cn_closed w) + mset (cn_handed w) + cn_sockets w"

definition delay_ok :: "int \<Rightarrow> bool" where
  "delay_ok d \<longleftrightarrow> kInitRetryDelayMs \<le> d \<and> d \<le> kMaxRetryDelayMs"

lemma delay_ok_double: "delay_ok d \<Longrightarrow> delay_ok (min (d * 2) kMaxRetryDelayMs)"
  by (auto simp: delay_ok_def)

text \<open>A channel that is no longer used is reset once.\<close>

definition resets_pending :: "'s connector \<Rightarrow> bool" where
  "resets_pending w \<longleftrightarrow> count_list (cn_pending w) ResetChannel = (if cn_channel w = None then 0 else 1)"

definition state_inv :: "'a poller_scheme connector \<Rightarrow> bool" where
  "state_inv w \<longleftrightarrow> (case cn_state w of
     kConnecting \<Rightarrow> cn_timers w = [] \<and> StartInLoop \<notin> set (cn_pending w) \<and> ResetChannel \<notin> set (cn_pending w) \<and>
       (\<exists>c fd. cn_channel w = Some c \<and> view (cn_loop w) c = Some (fd, kWriteEvent) \<and>
          channels_map (cn_loop w) fd = Some c)
   | kConnected \<Rightarrow> cn_timers w = [] \<and> StartInLoop \<notin> set (cn_pending w) \<and> resets_pending w
   | kDisconnected \<Rightarrow> length (cn_timers w) + count_list (cn_pending w) StartInLoop \<le> 1 \<and>
       resets_pending w \<and> (cn_channel w \<noteq> None \<longrightarrow> StartInLoop \<notin> set (cn_pending w)))"

lemma kWriteEvent_ok: "event_ok (0 OR kWriteEvent)" "(0 :: events) OR kWriteEvent \<noteq> 0" "(0 :: events) OR kWriteEvent = kWriteEvent"
  by (simp_all add: event_ok_def kWriteEvent_def kReadEvent_def)

context poller_contract
begin

definition cn_inv :: "'a poller_scheme connector \<Rightarrow> bool" where
  "cn_inv w \<longleftrightarrow> inv (cn_loop w) \<and> delay_ok (cn_retryDelayMs w) \<and> cn_accounted w \<and> state_inv w"

lemma ctor_cn_inv: "inv s \<Longrightarrow> cn_inv (Connector_ctor s)"
  by (simp add: cn_inv_def Connector_ctor_def delay_ok_def cn_accounted_def cn_sockets_def state_inv_def resets_pending_def)

lemma retry_inv:
  assumes "inv (cn_loop w)" and "delay_ok (cn_retryDelayMs w)" and "cn_timers w = []"
    and "mset (cn_opened w) = mset (cn_closed w) + mset (cn_handed w) + {#fd#}"
    and "StartInLoop \<notin> set (cn_pending w)" and "resets_pending w"
  shows "cn_inv (Connector_retry fd w)"
proof -
  have "count_list (cn_pending w) StartInLoop = 0" using assms(5) by (simp add: count_list_0_iff)
  then show ?thesis using assms delay_ok_double
    by (auto simp: cn_inv_def Connector_retry_def close_socket_def cn_accounted_def cn_sockets_def state_inv_def
        resets_pending_def Let_def)
qed

lemma connecting_spec:
  assumes inv: "inv (cn_loop w)" and a: "attempt_ok a w" and none: "cn_channel w = None"
  obtains s' where "Connector_connecting update loop (at_sockfd a) (at_channel a) w =
      Some (w\<lparr>cn_state := kConnecting, cn_loop := s', cn_channel := Some (at_channel a)\<rparr>)"
    and "inv s'" and "view s' (at_channel a) = Some (at_sockfd a, kWriteEvent)"
    and "channels_map s' (at_sockfd a) = Some (at_channel a)"
proof -
  let ?c = "at_channel a" and ?fd = "at_sockfd a" and ?s = "cn_loop w"
  define ch where "ch = (Channel_ctor loop ?fd)\<lparr>ch_writeCallback := Some cn_write_id, ch_errorCallback := Some cn_error_id\<rparr>"
  define s where "s = ?s\<lparr>chans := (chans ?s)(?c \<mapsto> ch)\<rparr>"
  note ok = a [unfolded attempt_ok_def]
  have "same_watch (chans ?s) ((chans ?s)(?c \<mapsto> ch))" using ok by (auto simp: same_watch_def)
  then have "inv s" unfolding s_def by (rule inv_chans [OF inv])
  moreover have "view s ?c = Some (?fd, 0)" "fresh s ?c" "channels_map s ?fd = None"
    using ok by (auto simp: s_def ch_def view_def fresh_def Channel_ctor_def)
  ultimately obtain s' where s': "update ?c (with_events ?c (0 OR kWriteEvent) s) = Some s'" "inv s'"
    "channels_map s' = (channels_map s)(?fd \<mapsto> ?c)" "view s' = (view s)(?c \<mapsto> (?fd, 0 OR kWriteEvent))"
    using update_new [of s ?c ?fd 0 "0 OR kWriteEvent"] ok kWriteEvent_ok by blast
  show ?thesis
  proof (rule that [OF _ s'(2)])
    show "Connector_connecting update loop ?fd ?c w =
        Some (w\<lparr>cn_state := kConnecting, cn_loop := s', cn_channel := Some ?c\<rparr>)"
      using none ok s'(1) by (simp add: Connector_connecting_def setWriteCallback_def setErrorCallback_def
          enableWriting_eq s_def ch_def Channel_ctor_def)
    show "view s' ?c = Some (?fd, kWriteEvent)" using s'(4) kWriteEvent_ok(3) by simp
    show "channels_map s' ?fd = Some ?c" using s'(3) by simp
  qed
qed

lemma connecting_inv:
  assumes inv: "inv (cn_loop w)" and d: "delay_ok (cn_retryDelayMs w)" and t: "cn_timers w = []"
    and a: "attempt_ok a w" and rest: "cn_channel w = None" "StartInLoop \<notin> set (cn_pending w)"
      "ResetChannel \<notin> set (cn_pending w)"
    and acc: "mset (cn_opened w) = mset (cn_closed w) + mset (cn_handed w) + {#at_sockfd a#}"
  shows "\<exists>w'. Connector_connecting update loop (at_sockfd a) (at_channel a) w = Some w' \<and> cn_inv w'"
proof -
  obtain s' where s': "Connector_connecting update loop (at_sockfd a) (at_channel a) w =
      Some (w\<lparr>cn_state := kConnecting, cn_loop := s', cn_channel := Some (at_channel a)\<rparr>)"
    "inv s'" "view s' (at_channel a) = Some (at_sockfd a, kWriteEvent)"
    "channels_map s' (at_sockfd a) = Some (at_channel a)"
    by (rule connecting_spec [OF inv a rest(1)])
  let ?w = "w\<lparr>cn_state := kConnecting, cn_loop := s', cn_channel := Some (at_channel a)\<rparr>"
  have "cn_sockets ?w = {#at_sockfd a#}" using s'(3) by (auto simp: cn_sockets_def view_def)
  then have "cn_inv ?w"
    using s'(2-4) d t rest(2,3) acc by (simp add: cn_inv_def cn_accounted_def state_inv_def)
  then show ?thesis using s'(1) by blast
qed

lemma startInLoop_inv:
  assumes w: "cn_inv w" "cn_state w = kDisconnected" "cn_timers w = []" "cn_channel w = None"
    and a: "attempt_ok a w" and rest: "StartInLoop \<notin> set (cn_pending w)" "ResetChannel \<notin> set (cn_pending w)"
  shows "\<exists>w'. Connector_startInLoop update loop a w = Some w' \<and> cn_inv w'"
proof (cases "cn_connect w")
  case False
  then show ?thesis using w by (simp add: Connector_startInLoop_def)
next
  case True
  define w1 where "w1 = w\<lparr>cn_opened := cn_opened w @ [at_sockfd a]\<rparr>"
  have w1: "inv (cn_loop w1)" "delay_ok (cn_retryDelayMs w1)" "cn_timers w1 = []" "attempt_ok a w1" "cn_channel w1 = None"
    "StartInLoop \<notin> set (cn_pending w1)" "ResetChannel \<notin> set (cn_pending w1)"
    "mset (cn_opened w1) = mset (cn_closed w1) + mset (cn_handed w1) + {#at_sockfd a#}"
    using w a rest by (simp_all add: w1_def cn_inv_def cn_accounted_def cn_sockets_def attempt_ok_def)
  have "\<exists>w'. Connector_connecting update loop (at_sockfd a) (at_channel a) w1 = Some w' \<and> cn_inv w'"
    by (rule connecting_inv [OF w1])
  moreover have "cn_inv (Connector_retry (at_sockfd a) w1)" by (rule retry_inv) (use w1 in \<open>simp_all add: resets_pending_def count_list_0_iff\<close>)
  moreover have "cn_inv (close_socket (at_sockfd a) w1)"
    using w w1(8) by (simp add: cn_inv_def close_socket_def cn_accounted_def cn_sockets_def state_inv_def w1_def
        resets_pending_def)
  ultimately show ?thesis
    using True w(2) by (simp add: Connector_startInLoop_def Connector_connect_def Let_def w1_def [symmetric])
qed

lemma resets_none: "resets_pending w \<Longrightarrow> cn_channel w = None \<Longrightarrow> ResetChannel \<notin> set (cn_pending w)"
  by (simp add: resets_pending_def count_list_0_iff)

lemma removeAndReset_spec:
  assumes w: "cn_inv w" "cn_state w = kConnecting"
  obtains fd w' where "Connector_removeAndResetChannel update remove w = Some (fd, w')"
    and "inv (cn_loop w')" and "delay_ok (cn_retryDelayMs w')" and "cn_timers w' = []"
    and "mset (cn_opened w') = mset (cn_closed w') + mset (cn_handed w') + {#fd#}"
    and "StartInLoop \<notin> set (cn_pending w')" and "resets_pending w'"
    and "Connector_removeAndResetChannel update remove (w\<lparr>cn_state := kDisconnected\<rparr>) =
      Some (fd, w'\<lparr>cn_state := kDisconnected\<rparr>)"
proof -
  obtain c fd where c: "cn_channel w = Some c" "view (cn_loop w) c = Some (fd, kWriteEvent)"
    "channels_map (cn_loop w) fd = Some c" "cn_timers w = []" "StartInLoop \<notin> set (cn_pending w)"
    "ResetChannel \<notin> set (cn_pending w)"
    using w by (auto simp: cn_inv_def state_inv_def)
  have i: "inv (cn_loop w)" "delay_ok (cn_retryDelayMs w)" "cn_accounted w" using w(1) by (simp_all add: cn_inv_def)
  obtain ch where ch: "chans (cn_loop w) c = Some ch" "ch_fd ch = fd" using c(2) by (auto simp: view_def)
  have ne: "kWriteEvent \<noteq> 0" using kWriteEvent_ok(2,3) by simp
  from update_old [OF i(1) c(2,3) event_ok_0] ne obtain s1 where
    s1: "update c (with_events c 0 (cn_loop w)) = Some s1" "inv s1" "channels_map s1 = channels_map (cn_loop w)"
    "view s1 = (view (cn_loop w))(c \<mapsto> (fd, 0))" by blast
  have v1: "view s1 c = Some (fd, 0)" "channels_map s1 fd = Some c" using s1(3,4) c(3) by simp_all
  from remove_old [OF s1(2) v1] obtain s2 where
    s2: "remove c (not_added c s1) = Some s2" "inv s2" "view s2 = view s1" by blast
  obtain ch1 where ch1: "chans s1 c = Some ch1" "ch_events ch1 = 0" using v1(1) by (auto simp: view_def)
  have "view s2 c = Some (fd, 0)" using s2(3) v1(1) by simp
  then obtain ch2 where ch2: "chans s2 c = Some ch2" "ch_fd ch2 = fd" by (auto simp: view_def)
  have dis: "disableAll update c (cn_loop w) = Some s1" using s1(1) ch(1) by (simp add: disableAll_eq)
  have rem: "Channel_remove remove c s1 = Some s2"
    using s2(1) ch1 by (simp add: Channel_remove_def isNoneEvent_def kNoneEvent_def not_added_def)
  let ?w = "Connector_queueInLoop ResetChannel (w\<lparr>cn_loop := s2\<rparr>)"
  show ?thesis
  proof (rule that [of fd ?w])
    show "Connector_removeAndResetChannel update remove w = Some (fd, ?w)"
      using c(1) dis rem ch2 by (simp add: Connector_removeAndResetChannel_def)
    show "Connector_removeAndResetChannel update remove (w\<lparr>cn_state := kDisconnected\<rparr>) =
        Some (fd, ?w\<lparr>cn_state := kDisconnected\<rparr>)"
      using c(1) dis rem ch2 by (cases w) (simp add: Connector_removeAndResetChannel_def Connector_queueInLoop_def)
    show "mset (cn_opened ?w) = mset (cn_closed ?w) + mset (cn_handed ?w) + {#fd#}"
      using i(3) w(2) c(1) ch by (simp add: cn_accounted_def cn_sockets_def Connector_queueInLoop_def)
    show "resets_pending ?w" using c(1,6) by (simp add: resets_pending_def Connector_queueInLoop_def count_list_0_iff)
  qed (use i s2(2) c in \<open>simp_all add: Connector_queueInLoop_def\<close>)
qed

lemma resets_pending_cong:
  "cn_pending w' = cn_pending w \<Longrightarrow> cn_channel w' = cn_channel w \<Longrightarrow> resets_pending w' = resets_pending w"
  by (simp add: resets_pending_def)

lemma handleWrite_inv:
  assumes w: "cn_inv w" "cn_state w \<noteq> kConnected"
  shows "\<exists>w'. Connector_handleWrite update remove err self w = Some w' \<and> cn_inv w'"
proof (cases "cn_state w = kConnecting")
  case False
  then show ?thesis using w by (cases "cn_state w") (simp_all add: Connector_handleWrite_def)
next
  case True
  obtain fd w1 where w1: "Connector_removeAndResetChannel update remove w = Some (fd, w1)"
    "inv (cn_loop w1)" "delay_ok (cn_retryDelayMs w1)" "cn_timers w1 = []"
    "mset (cn_opened w1) = mset (cn_closed w1) + mset (cn_handed w1) + {#fd#}"
    "StartInLoop \<notin> set (cn_pending w1)" "resets_pending w1"
    by (rule removeAndReset_spec [OF w(1) True])
  let ?k = "w1\<lparr>cn_state := kConnected\<rparr>"
  have "cn_inv (Connector_retry fd w1)" by (rule retry_inv [OF w1(2-7)])
  moreover have "cn_inv (?k\<lparr>cn_handed := cn_handed w1 @ [fd]\<rparr>)" "cn_inv (close_socket fd ?k)"
    using w1(2-7) by (simp_all add: cn_inv_def close_socket_def cn_accounted_def cn_sockets_def state_inv_def
        resets_pending_def)
  ultimately show ?thesis using True w1(1) by (simp add: Connector_handleWrite_def Let_def)
qed

lemma handleError_inv:
  assumes w: "cn_inv w"
  shows "\<exists>w'. Connector_handleError update remove w = Some w' \<and> cn_inv w'"
proof (cases "cn_state w = kConnecting")
  case False
  then show ?thesis using w by (simp add: Connector_handleError_def)
next
  case True
  obtain fd w1 where w1: "Connector_removeAndResetChannel update remove w = Some (fd, w1)"
    "inv (cn_loop w1)" "delay_ok (cn_retryDelayMs w1)" "cn_timers w1 = []"
    "mset (cn_opened w1) = mset (cn_closed w1) + mset (cn_handed w1) + {#fd#}"
    "StartInLoop \<notin> set (cn_pending w1)" "resets_pending w1"
    by (rule removeAndReset_spec [OF w(1) True])
  have "cn_inv (Connector_retry fd w1)" by (rule retry_inv [OF w1(2-7)])
  then show ?thesis using True w1(1) by (simp add: Connector_handleError_def)
qed

lemma stopInLoop_inv:
  assumes w: "cn_inv w"
  shows "\<exists>w'. Connector_stopInLoop update remove w = Some w' \<and> cn_inv w'"
proof (cases "cn_state w = kConnecting")
  case False
  then show ?thesis using w by (simp add: Connector_stopInLoop_def)
next
  case True
  obtain fd w1 where w1: "inv (cn_loop w1)" "delay_ok (cn_retryDelayMs w1)" "cn_timers w1 = []"
    "mset (cn_opened w1) = mset (cn_closed w1) + mset (cn_handed w1) + {#fd#}"
    "StartInLoop \<notin> set (cn_pending w1)" "resets_pending w1"
    "Connector_removeAndResetChannel update remove (w\<lparr>cn_state := kDisconnected\<rparr>) =
      Some (fd, w1\<lparr>cn_state := kDisconnected\<rparr>)"
    by (rule removeAndReset_spec [OF w(1) True])
  have "cn_inv (Connector_retry fd (w1\<lparr>cn_state := kDisconnected\<rparr>))"
    by (rule retry_inv) (use w1(1-6) in \<open>simp_all add: resets_pending_def\<close>)
  then show ?thesis using True w1(7) by (simp add: Connector_stopInLoop_def)
qed

lemma pending_inv:
  assumes w: "cn_inv w" and q: "cn_pending w = f # fs" and a: "attempt_ok a w"
  shows "\<exists>w'. Connector_functor update remove loop a f (w\<lparr>cn_pending := fs\<rparr>) = Some w' \<and> cn_inv w'"
proof (cases f)
  case StartInLoop
  have st: "cn_state w = kDisconnected" "cn_timers w = []" "cn_channel w = None" "StartInLoop \<notin> set fs"
    "ResetChannel \<notin> set fs"
    using w q StartInLoop resets_none [of w]
    by (auto simp: cn_inv_def state_inv_def resets_pending_def count_list_0_iff split: States.splits if_splits)
  let ?w = "w\<lparr>cn_pending := fs\<rparr>"
  have "count_list fs StartInLoop = 0" "count_list fs ResetChannel = 0" using st by (simp_all add: count_list_0_iff)
  then have "cn_inv ?w"
    using w st by (simp add: cn_inv_def cn_accounted_def cn_sockets_def state_inv_def resets_pending_def)
  then have "\<exists>w'. Connector_startInLoop update loop a ?w = Some w' \<and> cn_inv w'"
    by (rule startInLoop_inv) (use st a in \<open>simp_all add: attempt_ok_def\<close>)
  then show ?thesis using StartInLoop by simp
next
  case StopInLoop
  have "cn_inv (w\<lparr>cn_pending := fs\<rparr>)"
    using w q StopInLoop
    by (auto simp: cn_inv_def cn_accounted_def cn_sockets_def state_inv_def resets_pending_def split: States.splits)
  from stopInLoop_inv [OF this] show ?thesis using StopInLoop by simp
next
  case ResetChannel
  have st: "cn_state w \<noteq> kConnecting" "cn_channel w \<noteq> None" "ResetChannel \<notin> set fs"
    using w q ResetChannel
    by (auto simp: cn_inv_def state_inv_def resets_pending_def count_list_0_iff split: States.splits if_splits)
  then have "cn_inv (Connector_resetChannel (w\<lparr>cn_pending := fs\<rparr>))"
    using w q ResetChannel
    by (auto simp: Connector_resetChannel_def cn_inv_def cn_accounted_def cn_sockets_def state_inv_def
        resets_pending_def count_list_0_iff split: States.splits)
  then show ?thesis using ResetChannel by simp
qed

lemma start_inv:
  assumes w: "cn_inv w" "at_rest w" "cn_state w = kDisconnected" and a: "attempt_ok a w"
  shows "\<exists>w'. Connector_start update loop inLoop a w = Some w' \<and> cn_inv w'"
proof -
  let ?w = "w\<lparr>cn_connect := True\<rparr>"
  have rest: "cn_timers w = []" "cn_channel w = None" "StartInLoop \<notin> set (cn_pending w)"
    using w(2) by (simp_all add: at_rest_def)
  have "resets_pending w" using w(1,3) by (simp add: cn_inv_def state_inv_def)
  then have reset: "ResetChannel \<notin> set (cn_pending w)" using rest(2) by (rule resets_none)
  have inv': "cn_inv ?w"
    using w(1,3) by (simp add: cn_inv_def cn_accounted_def cn_sockets_def state_inv_def resets_pending_def)
  then have "\<exists>w'. Connector_startInLoop update loop a ?w = Some w' \<and> cn_inv w'"
    by (rule startInLoop_inv) (use w(3) rest reset a in \<open>simp_all add: attempt_ok_def\<close>)
  moreover have "cn_inv (Connector_queueInLoop StartInLoop ?w)"
    using inv' w(3) rest
    by (simp add: Connector_queueInLoop_def cn_inv_def cn_accounted_def cn_sockets_def state_inv_def
        resets_pending_def count_list_0_iff)
  ultimately show ?thesis by (simp add: Connector_start_def Let_def)
qed

lemma restart_inv:
  assumes w: "cn_inv w" "at_rest w" "cn_state w = kConnected" and a: "attempt_ok a w"
  shows "\<exists>w'. Connector_restart update loop a w = Some w' \<and> cn_inv w'"
proof -
  let ?w = "w\<lparr>cn_state := kDisconnected, cn_retryDelayMs := kInitRetryDelayMs, cn_connect := True\<rparr>"
  have rest: "cn_timers w = []" "cn_channel w = None" "StartInLoop \<notin> set (cn_pending w)"
    using w(2) by (simp_all add: at_rest_def)
  have res: "resets_pending w" using w(1,3) by (simp add: cn_inv_def state_inv_def)
  then have reset: "ResetChannel \<notin> set (cn_pending w)" using rest(2) by (rule resets_none)
  have "cn_inv ?w"
    using w(1,3) rest res
    by (simp add: cn_inv_def cn_accounted_def cn_sockets_def state_inv_def resets_pending_def delay_ok_def count_list_0_iff)
  then have "\<exists>w'. Connector_startInLoop update loop a ?w = Some w' \<and> cn_inv w'"
    by (rule startInLoop_inv) (use rest reset a in \<open>simp_all add: attempt_ok_def\<close>)
  then show ?thesis by (simp add: Connector_restart_def)
qed

lemma stop_inv: "cn_inv w \<Longrightarrow> cn_inv (Connector_stop w)"
  by (auto simp: Connector_stop_def Connector_queueInLoop_def cn_inv_def cn_accounted_def cn_sockets_def state_inv_def
      resets_pending_def split: States.splits)

lemma timer_inv:
  assumes w: "cn_inv w" "cn_timers w = d # ds" and a: "attempt_ok a w" "ResetChannel \<notin> set (cn_pending w)"
  shows "\<exists>w'. Connector_startInLoop update loop a (w\<lparr>cn_timers := ds\<rparr>) = Some w' \<and> cn_inv w'"
proof -
  let ?w = "w\<lparr>cn_timers := ds\<rparr>"
  have st: "cn_state w = kDisconnected" "ds = []" "StartInLoop \<notin> set (cn_pending w)" "cn_channel w = None"
    using w a(2)
    by (auto simp: cn_inv_def state_inv_def resets_pending_def count_list_0_iff split: States.splits if_splits)
  then have "cn_inv ?w"
    using w by (simp add: cn_inv_def cn_accounted_def cn_sockets_def state_inv_def resets_pending_def)
  then show ?thesis by (rule startInLoop_inv) (use st a in \<open>simp_all add: attempt_ok_def\<close>)
qed

lemma cn_step_inv:
  assumes w: "cn_inv w" and legal: "cn_legal x w"
  shows "\<exists>w'. Connector_step update remove loop x w = Some w' \<and> cn_inv w'"
proof (cases x)
  case (RunPending a)
  show ?thesis
  proof (cases "cn_pending w")
    case (Cons f fs)
    then show ?thesis using pending_inv [OF w Cons] legal RunPending by simp
  qed (use RunPending w in simp)
next
  case (TimerFires a)
  show ?thesis
  proof (cases "cn_timers w")
    case (Cons d ds)
    then show ?thesis using timer_inv [OF w Cons] legal TimerFires by simp
  qed (use TimerFires w in simp)
qed (use w legal start_inv restart_inv stop_inv handleWrite_inv handleError_inv in simp_all)

theorem cn_run_inv:
  assumes "cn_inv w" and "cn_run_legal (Connector_step update remove loop) xs w"
  shows "\<exists>w'. run_all (Connector_step update remove loop) xs w = Some w' \<and> cn_inv w'"
  using assms
proof (induction xs arbitrary: w)
  case (Cons x xs)
  obtain w1 where w1: "Connector_step update remove loop x w = Some w1" "cn_inv w1"
    using cn_step_inv [OF Cons.prems(1)] Cons.prems(2) by fastforce
  then show ?case using Cons.IH [OF w1(2)] Cons.prems(2) by simp
qed simp

end

subsection \<open>The connector on an epoll loop\<close>

definition epoll_connector_step ::
    "epoll_ctl \<Rightarrow> nat \<Rightarrow> cn_step \<Rightarrow> epoll_poller connector \<Rightarrow> epoll_poller connector option" where
  "epoll_connector_step ctl = Connector_step (EPollPoller_updateChannel ctl) (EPollPoller_removeChannel ctl)"

lemma connector_runs:
  assumes "epoll_ctl_ok ctl" and "ep_inv s"
    and "cn_run_legal (epoll_connector_step ctl loop) xs (Connector_ctor s)"
  obtains w where "run_all (epoll_connector_step ctl loop) xs (Connector_ctor s) = Some w" and "epu.cn_inv ctl w"
  using epu.cn_run_inv [OF epu.ctor_cn_inv, of ctl s loop xs] assms by (auto simp: epoll_connector_step_def)

text \<open>An attempt that is refused and one that is in progress.\<close>

definition refused :: attempt where
  "refused = \<lparr>at_sockfd = 9, at_errno = 111, at_channel = 20\<rparr>"

definition in_progress :: attempt where
  "in_progress = \<lparr>at_sockfd = 10, at_errno = 115, at_channel = 21\<rparr>"

definition example_connector_steps :: "cn_step list" where
  "example_connector_steps = [Start True refused, TimerFires in_progress, Writable 0 False, RunPending refused]"

lemmas connector_eval = epoll_connector_step_def Connector_start_def Connector_startInLoop_def Connector_connect_def
  Connector_connecting_def Connector_retry_def Connector_stop_def Connector_stopInLoop_def Connector_queueInLoop_def
  Connector_handleWrite_def Connector_removeAndResetChannel_def Connector_resetChannel_def Connector_ctor_def
  close_socket_def errno_connecting_def errno_retry_def refused_def in_progress_def setWriteCallback_def
  setErrorCallback_def Channel_ctor_def enableWriting_def disableAll_def Channel_update_def Channel_remove_def
  EPollPoller_updateChannel_def EPollPoller_removeChannel_def EPollPoller_update_def set_index_def kNew_def kAdded_def
  kDeleted_def isNoneEvent_def kNoneEvent_def kWriteEvent_def example_ctl_def interest_list_def example_epoll_def
  example_heap_def

lemma example_connector_legal:
  "cn_run_legal (epoll_connector_step example_ctl 1) example_connector_steps (Connector_ctor example_epoll)"
  by (simp add: connector_eval example_connector_steps_def at_rest_def attempt_ok_def int_max_def Let_def)

lemma example_connector_run:
  "\<exists>w. run_all (epoll_connector_step example_ctl 1) example_connector_steps (Connector_ctor example_epoll) = Some w \<and>
     cn_handed w = [10] \<and> cn_opened w = [9, 10] \<and> cn_state w = kConnected \<and> cn_channel w = None"
  by (simp add: connector_eval example_connector_steps_def Let_def)

text \<open>C24: a connector that is started, stopped and restarted at rest never fails, whatever the kernel
  answers, and every socket it opened was closed, was handed to the callback, or belongs to the
  attempt that is under way; each of these happens to a socket once. The delay of the next retry
  stays between half a second and thirty seconds.\<close>

theorem Connector_run_safe:
  assumes "epoll_ctl_ok ctl" and "ep_inv s"
    and "cn_run_legal (epoll_connector_step ctl loop) xs (Connector_ctor s)"
  shows "\<exists>w. run_all (epoll_connector_step ctl loop) xs (Connector_ctor s) = Some w \<and>
    mset (cn_opened w) = mset (cn_closed w) + mset (cn_handed w) + cn_sockets w \<and>
    kInitRetryDelayMs \<le> cn_retryDelayMs w \<and> cn_retryDelayMs w \<le> kMaxRetryDelayMs \<and>
    (cn_state w = kConnecting \<longrightarrow> (\<exists>c fd. cn_channel w = Some c \<and> channels_map (cn_loop w) fd = Some c))"
proof -
  obtain w where w: "run_all (epoll_connector_step ctl loop) xs (Connector_ctor s) = Some w" "epu.cn_inv ctl w"
    by (rule connector_runs [OF assms])
  then have "delay_ok (cn_retryDelayMs w)" "cn_accounted w" "state_inv w" by (simp_all add: epu.cn_inv_def)
  moreover have "\<exists>c fd. cn_channel w = Some c \<and> channels_map (cn_loop w) fd = Some c" if c: "cn_state w = kConnecting"
    using calculation(3) unfolding state_inv_def c States.case by blast
  ultimately show ?thesis using w(1) unfolding delay_ok_def cn_accounted_def by blast
qed

theorem Connector_run_safe_witness:
  "cn_run_legal (epoll_connector_step example_ctl 1) example_connector_steps (Connector_ctor example_epoll) \<and>
   (\<exists>w. run_all (epoll_connector_step example_ctl 1) example_connector_steps (Connector_ctor example_epoll) = Some w \<and>
      cn_handed w = [10] \<and> mset (cn_closed w) = {#9#})"
proof -
  obtain w where w: "run_all (epoll_connector_step example_ctl 1) example_connector_steps (Connector_ctor example_epoll) =
      Some w" "cn_handed w = [10]" "cn_opened w = [9, 10]" "cn_state w = kConnected" using example_connector_run by blast
  have "{#9, 10#} = mset (cn_closed w) + {#10#}"
    using Connector_run_safe [OF example_ctl_ok ep_inv_ctor [OF example_epoll_ctor] example_connector_legal] w
    by (auto simp: cn_sockets_def)
  then have "mset (cn_closed w) + {#10#} = {#9#} + {#10#}" by simp
  then have "mset (cn_closed w) = {#9#}" by (rule add_right_imp_eq)
  then show ?thesis using w(1,2) example_connector_legal by blast
qed



text \<open>C40: stopping does not cancel the timer of a retry, so that stopping and starting again while the
  connector waits for a retry runs two attempts: when the old timer fires during the new
  attempt, an assertion fails.\<close>

theorem Connector_stop_start_aborts:
  assumes "epoll_ctl_ok ctl" and "ep_inv s"
    and "cn_run_legal (epoll_connector_step ctl loop) xs (Connector_ctor s)"
    and "run_all (epoll_connector_step ctl loop) xs (Connector_ctor s) = Some w"
    and "cn_timers w \<noteq> []" and "cn_pending w = []" and "attempt_ok a w" and "at_errno a \<in> set errno_connecting"
  shows "\<exists>w'. run_all (epoll_connector_step ctl loop) [Stop, RunPending a, Start True a] w = Some w' \<and>
    cn_state w' = kConnecting \<and> epoll_connector_step ctl loop (TimerFires a') w' = None"
proof -
  have inv: "epu.cn_inv ctl w" using connector_runs [OF assms(1-3)] assms(4) by auto
  then have st: "cn_state w = kDisconnected" "cn_channel w = None"
    using assms(5,6) by (auto simp: epu.cn_inv_def state_inv_def resets_pending_def split: States.splits if_splits)
  let ?w = "w\<lparr>cn_opened := cn_opened w @ [at_sockfd a], cn_connect := True\<rparr>"
  obtain s' where "Connector_connecting (EPollPoller_updateChannel ctl) loop (at_sockfd a) (at_channel a) ?w =
      Some (?w\<lparr>cn_state := kConnecting, cn_loop := s', cn_channel := Some (at_channel a)\<rparr>)"
    by (rule epu.connecting_spec [of ctl ?w a]) (use inv st assms(7) in \<open>simp_all add: epu.cn_inv_def attempt_ok_def\<close>)
  moreover have swap: "w\<lparr>cn_pending := [], cn_connect := True, cn_opened := cn_opened w @ [at_sockfd a]\<rparr> = ?w"
    using assms(6) by (cases w) simp
  ultimately show ?thesis
    using st assms(5,6,8) by (auto simp: epoll_connector_step_def Connector_stop_def Connector_stopInLoop_def
        Connector_queueInLoop_def Connector_start_def Connector_startInLoop_def Connector_connect_def Let_def neq_Nil_conv swap)
qed

theorem Connector_stop_start_aborts_witness:
  "\<exists>w w'. run_all (epoll_connector_step example_ctl 1) [Start True refused] (Connector_ctor example_epoll) = Some w \<and>
     run_all (epoll_connector_step example_ctl 1) [Stop, RunPending in_progress, Start True in_progress] w = Some w' \<and>
     epoll_connector_step example_ctl 1 (TimerFires refused) w' = None"
proof -
  have legal: "cn_run_legal (epoll_connector_step example_ctl 1) [Start True refused] (Connector_ctor example_epoll)"
    by (simp add: connector_eval at_rest_def attempt_ok_def int_max_def Let_def)
  obtain w where w: "run_all (epoll_connector_step example_ctl 1) [Start True refused] (Connector_ctor example_epoll) = Some w"
    "cn_timers w \<noteq> []" "cn_pending w = []" "attempt_ok in_progress w" "at_errno in_progress \<in> set errno_connecting"
    by (simp add: connector_eval attempt_ok_def int_max_def Let_def)
  from Connector_stop_start_aborts [OF example_ctl_ok ep_inv_ctor [OF example_epoll_ctor] legal w, of refused]
  show ?thesis using w(1) by blast
qed

end
