(* ===== verification/ProtobufCodec.thy ===== *)
theory ProtobufCodec
  imports TcpConnection
begin

text \<open>
  The protobuf codec (\<open>src/net/protobuf/ProtobufCodecLite.h\<close>, \<open>.cc\<close>): messages framed by a length,
  a tag and a checksum, written to and parsed from a buffer.

  The protobuf runtime and \<open>adler32\<close> of zlib are arguments: \<open>byteSize\<close> and \<open>serialize\<close> of a
  message, \<open>parseMsg\<close> that gives the message of an array of bytes, and the checksum. A raw
  callback is a predicate on the bytes of a frame. The calls of the callbacks are recorded as a
  list of events; callbacks do not touch the buffer. The byte order of the host is \<open>e\<close>.
\<close>

subsection \<open>The codec\<close>

abbreviation kHeaderLen :: int where "kHeaderLen \<equiv> 4"
abbreviation kChecksumLen :: int where "kChecksumLen \<equiv> 4"
definition kMaxMessageLen :: int where "kMaxMessageLen = 64 * 1024 * 1024"

datatype ErrorCode =
  kNoError | kInvalidLength | kCheckSumError | kInvalidNameLen | kUnknownMessageType | kParseError

record codec =
  cd_tag :: string
  cd_rawCb :: "(char list \<Rightarrow> bool) option"
  cd_kMinMessageLen :: int

definition ProtobufCodecLite_ctor :: "string \<Rightarrow> (char list \<Rightarrow> bool) option \<Rightarrow> codec" where
  "ProtobufCodecLite_ctor tagArg rawCb =
     \<lparr>cd_tag = tagArg, cd_rawCb = rawCb, cd_kMinMessageLen = int (length tagArg) + kChecksumLen\<rparr>"

fun errorCodeToString :: "ErrorCode \<Rightarrow> string" where
  "errorCodeToString kNoError = ''NoError''"
| "errorCodeToString kInvalidLength = ''InvalidLength''"
| "errorCodeToString kCheckSumError = ''CheckSumError''"
| "errorCodeToString kInvalidNameLen = ''InvalidNameLen''"
| "errorCodeToString kUnknownMessageType = ''UnknownMessageType''"
| "errorCodeToString kParseError = ''ParseError''"

type_synonym adler = "32 word \<Rightarrow> char list \<Rightarrow> 32 word"

definition asInt32 :: "endian \<Rightarrow> char list \<Rightarrow> 32 word option" where
  "asInt32 e buf = do { cassert (4 \<le> length buf); Some (networkToHost32 e (mem_load e (take 4 buf))) }"

definition checksum :: "adler \<Rightarrow> char list \<Rightarrow> 32 word" where
  "checksum adler32 buf = adler32 1 buf"

text \<open>\<open>buf\<close> are the bytes from the pointer on; an access past them is undefined.\<close>

definition validateChecksum :: "adler \<Rightarrow> endian \<Rightarrow> char list \<Rightarrow> int \<Rightarrow> bool option" where
  "validateChecksum adler32 e buf len = do {
     cassert (kChecksumLen \<le> len \<and> len \<le> int (length buf));
     expectedCheckSum \<leftarrow> asInt32 e (drop (nat (len - kChecksumLen)) buf);
     let checkSum = checksum adler32 (take (nat (len - kChecksumLen)) buf);
     Some (checkSum = expectedCheckSum) }"

definition ProtobufCodecLite_parse ::
    "adler \<Rightarrow> endian \<Rightarrow> (char list \<Rightarrow> 'm option) \<Rightarrow> codec \<Rightarrow> char list \<Rightarrow> int \<Rightarrow> (ErrorCode \<times> 'm option) option" where
  "ProtobufCodecLite_parse adler32 e parseFromBuffer cd buf len = do {
     valid \<leftarrow> validateChecksum adler32 e buf len;
     (if valid then do {
        cassert (length (cd_tag cd) \<le> length buf);
        (if take (length (cd_tag cd)) buf = cd_tag cd then do {
           let data = drop (length (cd_tag cd)) buf;
           let dataLen = len - kChecksumLen - int (length (cd_tag cd));
           cassert (0 \<le> dataLen \<and> dataLen \<le> int (length data));
           (case parseFromBuffer (take (nat dataLen) data) of
              Some m \<Rightarrow> Some (kNoError, Some m)
            | None \<Rightarrow> Some (kParseError, None)) }
         else Some (kUnknownMessageType, None)) }
      else Some (kCheckSumError, None)) }"

subsection \<open>Writing\<close>

definition serializeToBuffer ::
    "('m \<Rightarrow> int) \<Rightarrow> ('m \<Rightarrow> char list) \<Rightarrow> 'm \<Rightarrow> buffer \<Rightarrow> (int \<times> buffer) option" where
  "serializeToBuffer byteSize serialize message b = do {
     let byte_size = byteSize message;
     b \<leftarrow> Buffer_ensureWritableBytes b (nat (byte_size + kChecksumLen));
     d \<leftarrow> overwrite (buffer_data b) (Buffer_beginWrite b) (serialize message);
     let b = b\<lparr>buffer_data := d\<rparr>;
     cassert (int (length (serialize message)) = byte_size);
     b \<leftarrow> Buffer_hasWritten b (nat byte_size);
     Some (byte_size, b) }"

definition fillEmptyBuffer ::
    "adler \<Rightarrow> endian \<Rightarrow> ('m \<Rightarrow> int) \<Rightarrow> ('m \<Rightarrow> char list) \<Rightarrow> codec \<Rightarrow> buffer \<Rightarrow> 'm \<Rightarrow> buffer option" where
  "fillEmptyBuffer adler32 e byteSize serialize cd b message = do {
     cassert (Buffer_readableBytes b = 0);
     b \<leftarrow> Buffer_append b (cd_tag cd);
     (byte_size, b) \<leftarrow> serializeToBuffer byteSize serialize message b;
     let checkSum = checksum adler32 (Buffer_range b (Buffer_peek b)
       (Buffer_peek b + nat (to_int32 (Buffer_readableBytes b))));
     b \<leftarrow> Buffer_appendInt32 e b checkSum;
     cassert (int (Buffer_readableBytes b) = int (length (cd_tag cd)) + byte_size + kChecksumLen);
     let len = hostToNetwork32 e (of_nat (Buffer_readableBytes b));
     Buffer_prepend b (mem_bytes e 4 len) }"

definition ProtobufCodecLite_send ::
    "adler \<Rightarrow> endian \<Rightarrow> ('m \<Rightarrow> int) \<Rightarrow> ('m \<Rightarrow> char list) \<Rightarrow> codec \<Rightarrow> write_fun \<Rightarrow> 'a update_fun \<Rightarrow> bool \<Rightarrow>
     'm \<Rightarrow> 'a conn \<Rightarrow> 'a conn option" where
  "ProtobufCodecLite_send adler32 e byteSize serialize cd write update isInLoopThread message conn = do {
     b \<leftarrow> fillEmptyBuffer adler32 e byteSize serialize cd Buffer_default message;
     TcpConnection_send write update isInLoopThread (Buffer_content b) conn }"

subsection \<open>Reading\<close>

datatype 'm codec_event = Delivered 'm | RawRejected "char list" | Reported ErrorCode

partial_function (option) ProtobufCodecLite_onMessage ::
    "adler \<Rightarrow> endian \<Rightarrow> (char list \<Rightarrow> 'm option) \<Rightarrow> codec \<Rightarrow> buffer \<Rightarrow> 'm codec_event list \<Rightarrow>
     ('m codec_event list \<times> buffer) option" where
  "ProtobufCodecLite_onMessage adler32 e parseMsg cd b events =
     (if int (Buffer_readableBytes b) \<ge> (cd_kMinMessageLen cd + kHeaderLen) mod 2 ^ 32 then do {
        l \<leftarrow> Buffer_peekInt32 e b;
        let len = sint l;
        (if len > kMaxMessageLen \<or> len < cd_kMinMessageLen cd then Some (events @ [Reported kInvalidLength], b)
         else if int (Buffer_readableBytes b) \<ge> kHeaderLen + len then do {
           let raw = Buffer_range b (Buffer_peek b) (Buffer_peek b + nat (kHeaderLen + len));
           (if (case cd_rawCb cd of None \<Rightarrow> False | Some rawCb \<Rightarrow> \<not> rawCb raw) then do {
              b \<leftarrow> Buffer_retrieve b (nat (kHeaderLen + len));
              ProtobufCodecLite_onMessage adler32 e parseMsg cd b (events @ [RawRejected raw]) }
            else do {
              (errorCode, message) \<leftarrow> ProtobufCodecLite_parse adler32 e parseMsg cd
                (Buffer_range b (Buffer_peek b + nat kHeaderLen) (Buffer_beginWrite b)) len;
              (case message of
                 Some m \<Rightarrow> do {
                   b \<leftarrow> Buffer_retrieve b (nat (kHeaderLen + len));
                   ProtobufCodecLite_onMessage adler32 e parseMsg cd b (events @ [Delivered m]) }
               | None \<Rightarrow> Some (events @ [Reported errorCode], b)) }) }
         else Some (events, b)) }
      else Some (events, b))"

text \<open>The default error callback shuts the connection down.\<close>

definition defaultErrorCallback :: "bool \<Rightarrow> 'a conn \<Rightarrow> 'a conn option" where
  "defaultErrorCallback isInLoopThread conn =
     (if tc_state conn = kConnected then TcpConnection_shutdown isInLoopThread conn else Some conn)"

subsection \<open>Decoding a sequence of bytes\<close>

text \<open>What the loop does, on the readable bytes: the next frame, and all of them.\<close>

definition be_word :: "char list \<Rightarrow> 32 word" where
  "be_word xs = of_nat (be_to_nat (take 4 xs))"

datatype 'm next_frame = Wait | Bad ErrorCode | Frame "'m codec_event" nat

definition raw_rejects :: "codec \<Rightarrow> char list \<Rightarrow> bool" where
  "raw_rejects cd raw \<longleftrightarrow> (case cd_rawCb cd of None \<Rightarrow> False | Some rawCb \<Rightarrow> \<not> rawCb raw)"

definition check_body :: "adler \<Rightarrow> (char list \<Rightarrow> 'm option) \<Rightarrow> string \<Rightarrow> char list \<Rightarrow> ErrorCode + 'm" where
  "check_body adler32 parseMsg tag body =
     (let n = length body - 4 in
      if be_word (drop n body) \<noteq> adler32 1 (take n body) then Inl kCheckSumError
      else if take (length tag) body \<noteq> tag then Inl kUnknownMessageType
      else case parseMsg (drop (length tag) (take n body)) of
             Some m \<Rightarrow> Inr m | None \<Rightarrow> Inl kParseError)"

definition next_frame :: "adler \<Rightarrow> (char list \<Rightarrow> 'm option) \<Rightarrow> codec \<Rightarrow> char list \<Rightarrow> 'm next_frame" where
  "next_frame adler32 parseMsg cd xs =
     (let k = length (cd_tag cd) + 4; len = sint (be_word xs) in
      if length xs < k + 4 then Wait
      else if kMaxMessageLen < len \<or> len < int k then Bad kInvalidLength
      else if length xs < 4 + nat len then Wait
      else if raw_rejects cd (take (4 + nat len) xs)
      then Frame (RawRejected (take (4 + nat len) xs)) (4 + nat len)
      else case check_body adler32 parseMsg (cd_tag cd) (take (nat len) (drop 4 xs)) of
             Inl c \<Rightarrow> Bad c | Inr m \<Rightarrow> Frame (Delivered m) (4 + nat len))"

lemma next_frame_Frame:
  "next_frame adler32 parseMsg cd xs = Frame ev n \<Longrightarrow> 4 \<le> n \<and> n \<le> length xs"
  by (auto simp: next_frame_def Let_def split: if_splits sum.splits)

function decode :: "adler \<Rightarrow> (char list \<Rightarrow> 'm option) \<Rightarrow> codec \<Rightarrow> char list \<Rightarrow> 'm codec_event list \<times> char list" where
  "decode adler32 parseMsg cd xs =
     (case next_frame adler32 parseMsg cd xs of
        Wait \<Rightarrow> ([], xs)
      | Bad c \<Rightarrow> ([Reported c], xs)
      | Frame ev n \<Rightarrow> (let (evs, rest) = decode adler32 parseMsg cd (drop n xs) in (ev # evs, rest)))"
  by pat_completeness auto

termination decode
proof (relation "measure (\<lambda>(_, _, _, xs). length xs)")
  fix adler32 :: adler and parseMsg :: "char list \<Rightarrow> 'm option" and cd xs ev n
  assume "next_frame adler32 parseMsg cd xs = Frame ev n"
  from next_frame_Frame [OF this]
  show "((adler32, parseMsg, cd, drop n xs), adler32, parseMsg, cd, xs) \<in> measure (\<lambda>(_, _, _, xs). length xs)"
    by auto
qed simp

declare decode.simps [simp del]

text \<open>More bytes do not change what the first ones decode to.\<close>

lemma be_word_append [simp]: "4 \<le> length xs \<Longrightarrow> be_word (xs @ ys) = be_word xs"
  by (simp add: be_word_def)

lemma next_frame_mono:
  assumes "next_frame adler32 parseMsg cd xs \<noteq> Wait"
  shows "next_frame adler32 parseMsg cd (xs @ ys) = next_frame adler32 parseMsg cd xs"
proof -
  have "4 \<le> length xs"
    using assms by (auto simp: next_frame_def Let_def split: if_splits)
  then show ?thesis
    using assms be_word_append [of xs ys] by (auto simp: next_frame_def Let_def split: if_splits)
qed

definition no_error :: "'m codec_event list \<Rightarrow> bool" where
  "no_error evs \<longleftrightarrow> (\<forall>c. Reported c \<notin> set evs)"

lemma no_error_simps [simp]:
  "no_error []" "no_error (ev # evs) \<longleftrightarrow> (\<forall>c. ev \<noteq> Reported c) \<and> no_error evs"
  "no_error (evs @ evs') \<longleftrightarrow> no_error evs \<and> no_error evs'"
  "no_error (map Delivered ms)"
  by (auto simp: no_error_def)

lemma decode_append:
  assumes "no_error (fst (decode adler32 parseMsg cd xs))"
  shows "decode adler32 parseMsg cd (xs @ ys) =
    (let (evs, rest) = decode adler32 parseMsg cd xs; (evs', rest') = decode adler32 parseMsg cd (rest @ ys)
     in (evs @ evs', rest'))"
  using assms
proof (induction adler32 parseMsg cd xs rule: decode.induct)
  case (1 adler32 parseMsg cd xs)
  show ?case
  proof (cases "next_frame adler32 parseMsg cd xs")
    case Wait
    then have "decode adler32 parseMsg cd xs = ([], xs)"
      by (simp add: decode.simps)
    then show ?thesis by (simp add: case_prod_beta)
  next
    case (Bad c)
    then show ?thesis using "1.prems" by (simp add: decode.simps [of adler32 parseMsg cd xs])
  next
    case (Frame ev n)
    have *: "decode adler32 parseMsg cd xs =
        (ev # fst (decode adler32 parseMsg cd (drop n xs)), snd (decode adler32 parseMsg cd (drop n xs)))"
      using Frame by (simp add: decode.simps [of adler32 parseMsg cd xs] case_prod_beta)
    have "no_error (fst (decode adler32 parseMsg cd (drop n xs)))"
      using "1.prems" by (simp add: *)
    note IH = "1.IH" [OF Frame this]
    have "drop n (xs @ ys) = drop n xs @ ys"
      using next_frame_Frame [OF Frame] by simp
    moreover have "next_frame adler32 parseMsg cd (xs @ ys) = Frame ev n"
      using next_frame_mono [of adler32 parseMsg cd xs ys] Frame by simp
    ultimately show ?thesis
      using IH by (simp add: * decode.simps [of adler32 parseMsg cd "xs @ ys"] case_prod_beta Let_def)
  qed
qed

subsection \<open>The loop decodes the readable bytes\<close>

definition codec_ok :: "codec \<Rightarrow> bool" where
  "codec_ok cd \<longleftrightarrow> cd_kMinMessageLen cd = int (length (cd_tag cd)) + kChecksumLen \<and>
     length (cd_tag cd) \<le> 1000"

lemma ctor_ok: "length tagArg \<le> 1000 \<Longrightarrow> codec_ok (ProtobufCodecLite_ctor tagArg rawCb)"
  by (simp add: codec_ok_def ProtobufCodecLite_ctor_def)

lemma nat_to_be_be_word: "length cs = 4 \<Longrightarrow> nat_to_be 4 (unat (be_word cs)) = cs"
  using nat_to_be_of_be_to_nat [of cs] be_to_nat_bound [of cs]
  by (simp add: be_word_def unat_of_nat)

lemma asInt32_be_word: "4 \<le> length buf \<Longrightarrow> asInt32 e buf = Some (be_word buf)"
  using mem_load_network(2) [of e "be_word buf"] nat_to_be_be_word [of "take 4 buf"]
  by (simp add: asInt32_def be_word_def)

lemma peekInt32_be_word:
  assumes "Buffer_wf b" "4 \<le> Buffer_readableBytes b"
  shows "Buffer_peekInt32 e b = Some (be_word (Buffer_content b))"
proof -
  have "nat_to_be 4 (unat (be_word (Buffer_content b))) = take 4 (Buffer_content b)"
    using nat_to_be_be_word [of "take 4 (Buffer_content b)"] assms by (simp add: be_word_def)
  then show ?thesis
    using Buffer_peekInt32_spec [OF assms(1), of _ "drop 4 (Buffer_content b)" e]
    by (metis append_take_drop_id)
qed

lemma Buffer_range_rest:
  "Buffer_wf b \<Longrightarrow> Buffer_range b (Buffer_peek b + n) (Buffer_beginWrite b) = drop n (Buffer_content b)"
  by (simp add: Buffer_content_def buffer_observers subrange_def Buffer_wf_def drop_take add.commute)

lemma parse_check_body:
  assumes "codec_ok cd" and "length (cd_tag cd) + 4 \<le> n" and "n \<le> length buf"
  shows "ProtobufCodecLite_parse adler32 e parseMsg cd buf (int n) =
    Some (case check_body adler32 parseMsg (cd_tag cd) (take n buf) of
            Inl c \<Rightarrow> (c, None) | Inr m \<Rightarrow> (kNoError, Some m))"
proof -
  have n: "nat (int n - 4) = n - 4" "min n (n - 4) = n - 4" "n - (n - 4) = 4"
    using assms by auto
  have "be_word (drop (n - 4) (take n buf)) = be_word (drop (n - 4) buf)"
    using assms by (simp add: be_word_def take_drop n min_def)
  moreover have "take (length (cd_tag cd)) (take n buf) = take (length (cd_tag cd)) buf"
    using assms by (simp add: min_def)
  moreover have "nat (int n - 4 - int (length (cd_tag cd))) = n - 4 - length (cd_tag cd)"
    using assms by linarith
  ultimately show ?thesis
    using assms n by (simp add: ProtobufCodecLite_parse_def validateChecksum_def asInt32_be_word
        checksum_def check_body_def Let_def drop_take split: option.splits)
qed

lemma onMessage_step:
  assumes cd: "codec_ok cd" and wf: "Buffer_wf b"
  shows "ProtobufCodecLite_onMessage adler32 e parseMsg cd b events =
    (case next_frame adler32 parseMsg cd (Buffer_content b) of
       Wait \<Rightarrow> Some (events, b)
     | Bad c \<Rightarrow> Some (events @ [Reported c], b)
     | Frame ev n \<Rightarrow> do { b \<leftarrow> Buffer_retrieve b n;
         ProtobufCodecLite_onMessage adler32 e parseMsg cd b (events @ [ev]) })"
proof -
  define k where "k = length (cd_tag cd)"
  define xs where "xs = Buffer_content b"
  define len where "len = sint (be_word xs)"
  have kMin: "cd_kMinMessageLen cd = int k + 4" "(cd_kMinMessageLen cd + 4) mod 2 ^ 32 = int k + 8"
    using cd by (auto simp: codec_ok_def k_def)
  have r: "Buffer_readableBytes b = length xs"
    using wf by (simp add: xs_def)
  note unfold = ProtobufCodecLite_onMessage.simps [of adler32 e parseMsg cd b events, unfolded kMin(2), unfolded kMin(1) r]
  show ?thesis
  proof (cases "length xs < k + 8")
    case True
    then show ?thesis
      by (subst unfold) (simp add: next_frame_def Let_def k_def [symmetric] xs_def [symmetric])
  next
    case False
    have peek: "Buffer_peekInt32 e b = Some (be_word xs)"
      using peekInt32_be_word [OF wf, of e] False r by (simp add: xs_def)
    have enough: "int k + 8 \<le> int (length xs)" "\<not> length xs < 8 + k"
      using False by auto
    consider "kMaxMessageLen < len \<or> len < int k + 4"
      | "\<not> (kMaxMessageLen < len \<or> len < int k + 4)" "length xs < 4 + nat len"
      | (len) "\<not> (kMaxMessageLen < len \<or> len < int k + 4)" "\<not> length xs < 4 + nat len"
      by blast
    then show ?thesis
    proof cases
      case 1
      then show ?thesis using enough
        by (subst unfold) (simp add: next_frame_def Let_def k_def [symmetric] xs_def [symmetric]
            len_def [symmetric] peek)
    next
      case 2
      then have "\<not> 4 + len \<le> int (length xs)"
        by auto
      with 2 enough show ?thesis
        by (subst unfold) (simp add: next_frame_def Let_def k_def [symmetric] xs_def [symmetric]
            len_def [symmetric] peek)
    next
      case len
      define n where "n = nat len"
      have n: "len = int n" "k + 4 \<le> n" "4 + n \<le> length xs" "int n \<le> kMaxMessageLen"
        using len by (auto simp: n_def)
      have raw: "Buffer_range b (Buffer_peek b) (Buffer_peek b + (4 + n)) = take (4 + n) xs"
        using Buffer_range_content [OF wf, of "4 + n"] n r by (simp add: xs_def)
      have rest: "Buffer_range b (Buffer_peek b + 4) (Buffer_beginWrite b) = drop 4 xs"
        using Buffer_range_rest [OF wf, of 4] by (simp add: xs_def)
      have parse: "ProtobufCodecLite_parse adler32 e parseMsg cd (drop 4 xs) (int n) =
          Some (case check_body adler32 parseMsg (cd_tag cd) (take n (drop 4 xs)) of
            Inl c \<Rightarrow> (c, None) | Inr m \<Rightarrow> (kNoError, Some m))"
        by (rule parse_check_body [OF cd]) (use n in \<open>auto simp: k_def\<close>)
      have nat: "nat (4 + int n) = 4 + n"
        by simp
      have guard: "4 + int n \<le> int (length xs)" "\<not> kMaxMessageLen < int n" "\<not> int n < int k + 4"
          "int k + 8 \<le> int (length xs)" "\<not> length xs < 8 + k" "\<not> length xs < 4 + n"
        using n by auto
      show ?thesis
        by (subst unfold) (simp add: next_frame_def Let_def k_def [symmetric] xs_def [symmetric]
            len_def [symmetric] peek n(1) guard nat raw rest parse raw_rejects_def [symmetric]
            del: take_drop split: sum.split)
    qed
  qed
qed

lemma onMessage_decode:
  assumes cd: "codec_ok cd" and "Buffer_wf b"
  shows "\<exists>b'. ProtobufCodecLite_onMessage adler32 e parseMsg cd b events =
      Some (events @ fst (decode adler32 parseMsg cd (Buffer_content b)), b') \<and> Buffer_wf b' \<and>
    Buffer_content b' = snd (decode adler32 parseMsg cd (Buffer_content b)) \<and> Buffer_used b' \<le> Buffer_used b"
  using assms(2)
proof (induction "Buffer_readableBytes b" arbitrary: b events rule: less_induct)
  case less
  note step = onMessage_step [OF cd less.prems, of adler32 e parseMsg events]
  note dec = decode.simps [of adler32 parseMsg cd "Buffer_content b"]
  show ?case
  proof (cases "next_frame adler32 parseMsg cd (Buffer_content b)")
    case Wait
    then have "decode adler32 parseMsg cd (Buffer_content b) = ([], Buffer_content b)"
      using dec by simp
    then show ?thesis using less.prems step Wait by simp
  next
    case (Bad c)
    then have "decode adler32 parseMsg cd (Buffer_content b) = ([Reported c], Buffer_content b)"
      using dec by simp
    then show ?thesis using less.prems step Bad by simp
  next
    case (Frame ev n)
    from next_frame_Frame [OF this] less.prems
    obtain b1 where b1: "Buffer_retrieve b n = Some b1" "Buffer_wf b1"
        "Buffer_content b1 = drop n (Buffer_content b)" "Buffer_used b1 \<le> Buffer_used b"
      using buf.ret_ok [of b n] by auto
    have "Buffer_readableBytes b1 < Buffer_readableBytes b"
      using next_frame_Frame [OF Frame] b1 less.prems
      by (auto simp flip: length_Buffer_content)
    from less.hyps [OF this b1(2), of "events @ [ev]"] obtain b' where b':
        "ProtobufCodecLite_onMessage adler32 e parseMsg cd b1 (events @ [ev]) =
          Some ((events @ [ev]) @ fst (decode adler32 parseMsg cd (drop n (Buffer_content b))), b')"
        "Buffer_wf b'" "Buffer_content b' = snd (decode adler32 parseMsg cd (drop n (Buffer_content b)))"
        "Buffer_used b' \<le> Buffer_used b1"
      unfolding b1(3) by blast
    have "decode adler32 parseMsg cd (Buffer_content b) =
        (ev # fst (decode adler32 parseMsg cd (drop n (Buffer_content b))),
         snd (decode adler32 parseMsg cd (drop n (Buffer_content b))))"
      using dec Frame by (simp add: case_prod_beta)
    then show ?thesis
      using step Frame b1(1,4) b' by simp
  qed
qed

subsection \<open>A message fills a buffer with its frame\<close>

text \<open>What the codec relies on of the protobuf runtime: the size it announces is the size it
  writes, and a message is parsed back from its serialized form.\<close>

definition protobuf_ok :: "('m \<Rightarrow> int) \<Rightarrow> ('m \<Rightarrow> char list) \<Rightarrow> (char list \<Rightarrow> 'm option) \<Rightarrow> bool" where
  "protobuf_ok byteSize serialize parseMsg \<longleftrightarrow>
     (\<forall>m. byteSize m = int (length (serialize m)) \<and> parseMsg (serialize m) = Some m)"

definition frame_body :: "adler \<Rightarrow> string \<Rightarrow> char list \<Rightarrow> char list" where
  "frame_body adler32 tag payload = tag @ payload @ nat_to_be 4 (unat (adler32 1 (tag @ payload)))"

definition frame :: "adler \<Rightarrow> string \<Rightarrow> char list \<Rightarrow> char list" where
  "frame adler32 tag payload =
     nat_to_be 4 (length (frame_body adler32 tag payload)) @ frame_body adler32 tag payload"

definition frame_fits :: "codec \<Rightarrow> char list \<Rightarrow> bool" where
  "frame_fits cd payload \<longleftrightarrow> int (length (cd_tag cd) + length payload + 4) \<le> kMaxMessageLen"

lemma length_frame_body [simp]: "length (frame_body adler32 tag payload) = length tag + length payload + 4"
  by (simp add: frame_body_def)

lemma length_frame [simp]: "length (frame adler32 tag payload) = length tag + length payload + 8"
  by (simp add: frame_def)

lemma ensureWritableBytes_prepend:
  "Buffer_ensureWritableBytes b n = Some b' \<Longrightarrow> kCheapPrepend \<le> readerIndex b \<Longrightarrow> kCheapPrepend \<le> readerIndex b'"
  by (auto simp: Buffer_ensureWritableBytes_def Buffer_makeSpace_def Let_def
      split: if_splits elim!: bind_eq_SomeE) (metis buffer.ext_inject buffer.surjective buffer.update_convs(1-3) order_refl)

lemma append_prepend:
  "Buffer_append b d = Some b' \<Longrightarrow> kCheapPrepend \<le> readerIndex b \<Longrightarrow> kCheapPrepend \<le> readerIndex b'"
  by (auto simp: Buffer_append_def Buffer_hasWritten_def elim!: bind_eq_SomeE
      split: if_splits) (rule ensureWritableBytes_prepend)

lemma serializeToBuffer_append:
  assumes "byteSize m = int (length (serialize m))" and "Buffer_ensureWritableBytes b (length (serialize m) + 4) = Some b1"
  shows "serializeToBuffer byteSize serialize m b = do {
    b2 \<leftarrow> Buffer_append b1 (serialize m); Some (byteSize m, b2) }"
proof -
  have "length (serialize m) \<le> Buffer_writableBytes b1"
    using assms(2) by (auto simp: Buffer_ensureWritableBytes_def elim!: bind_eq_SomeE split: if_splits)
  then have "Buffer_ensureWritableBytes b1 (length (serialize m)) = Some b1"
    by (simp add: Buffer_ensureWritableBytes_def)
  moreover have "nat (int (length (serialize m)) + 4) = length (serialize m) + 4"
    by simp
  ultimately show ?thesis
    using assms by (simp add: serializeToBuffer_def Buffer_append_def Let_def)
qed

lemma serializeToBuffer_spec:
  assumes size: "byteSize m = int (length (serialize m))" and wf: "Buffer_wf b" and "kCheapPrepend \<le> readerIndex b"
    and fits: "Buffer_used b + length (serialize m) + 4 \<le> max_size"
  obtains b' where "serializeToBuffer byteSize serialize m b = Some (byteSize m, b')" and "Buffer_wf b'"
    and "kCheapPrepend \<le> readerIndex b'" and "Buffer_content b' = Buffer_content b @ serialize m"
    and "Buffer_used b' \<le> Buffer_used b + length (serialize m)"
proof -
  have "writerIndex b + (length (serialize m) + 4) \<le> max_size"
    using fits by (simp add: Buffer_used_def)
  with wf obtain b1 where b1: "Buffer_ensureWritableBytes b (length (serialize m) + 4) = Some b1" "Buffer_wf b1"
      "Buffer_content b1 = Buffer_content b" "writerIndex b1 \<le> writerIndex b"
    by (rule Buffer_ensureWritableBytes_spec) blast+
  have r1: "kCheapPrepend \<le> readerIndex b1"
    by (rule ensureWritableBytes_prepend [OF b1(1) assms(3)])
  have u1: "Buffer_used b1 \<le> Buffer_used b"
    using b1(4) by (simp add: Buffer_used_def)
  with fits have "Buffer_used b1 + length (serialize m) \<le> max_size"
    by linarith
  from Buffer_append_spec [OF b1(2) this] obtain b2 where b2: "Buffer_append b1 (serialize m) = Some b2"
      "Buffer_wf b2" "Buffer_content b2 = Buffer_content b1 @ serialize m"
      "Buffer_used b2 \<le> Buffer_used b1 + length (serialize m)"
    by blast
  show ?thesis
  proof (rule that)
    show "serializeToBuffer byteSize serialize m b = Some (byteSize m, b2)"
      using serializeToBuffer_append [of byteSize m serialize b b1] size b1(1) b2(1) by simp
    show "kCheapPrepend \<le> readerIndex b2"
      by (rule append_prepend [OF b2(1) r1])
  qed (use b1 b2 u1 in auto)
qed

lemma fillEmptyBuffer_frame:
  assumes pb: "protobuf_ok byteSize serialize parseMsg" and fits: "frame_fits cd (serialize m)"
    and wf: "Buffer_wf b" "Buffer_readableBytes b = 0" "kCheapPrepend \<le> readerIndex b"
    and room: "Buffer_used b + nat kMaxMessageLen \<le> max_size"
  shows "\<exists>b'. fillEmptyBuffer adler32 e byteSize serialize cd b m = Some b' \<and> Buffer_wf b' \<and>
    Buffer_content b' = frame adler32 (cd_tag cd) (serialize m)"
proof -
  define t where "t = cd_tag cd"
  define p where "p = serialize m"
  have size: "byteSize m = int (length (serialize m))"
    using pb by (simp add: protobuf_ok_def)
  have len: "length t + length p + 4 \<le> nat kMaxMessageLen" "int (length t + length p + 4) \<le> kMaxMessageLen"
    using fits by (auto simp: frame_fits_def t_def p_def)
  have empty: "Buffer_content b = []"
    using wf(2) length_Buffer_content [OF wf(1)] by (metis length_0_conv)
  have "Buffer_used b + length t \<le> max_size"
    using len(1) room by linarith
  from Buffer_append_spec [OF wf(1) this] obtain b1 where b1: "Buffer_append b t = Some b1" "Buffer_wf b1"
      "Buffer_content b1 = t" "Buffer_used b1 \<le> Buffer_used b + length t"
    using empty by auto
  note r1 = append_prepend [OF b1(1) wf(3)]
  have "Buffer_used b1 + length (serialize m) + 4 \<le> max_size"
    using b1(4) len(1) room by (simp add: p_def)
  from serializeToBuffer_spec [where byteSize = byteSize and serialize = serialize, OF size b1(2) r1 this] obtain b2 where b2:
      "serializeToBuffer byteSize serialize m b1 = Some (int (length p), b2)" "Buffer_wf b2"
      "kCheapPrepend \<le> readerIndex b2" "Buffer_content b2 = t @ p" "Buffer_used b2 \<le> Buffer_used b1 + length p"
    using b1(3) size by (auto simp: p_def)
  have r2: "Buffer_readableBytes b2 = length t + length p"
    using length_Buffer_content [OF b2(2)] b2(4) by simp
  then have "to_int32 (Buffer_readableBytes b2) = int (length t + length p)"
    using len(2) to_int32_small [of "length t + length p"] by (simp add: int_max_def kMaxMessageLen_def)
  then have sum: "Buffer_range b2 (Buffer_peek b2) (Buffer_peek b2 + nat (to_int32 (Buffer_readableBytes b2))) = t @ p"
    using Buffer_range_content [OF b2(2), of "length t + length p"] r2 b2(4) by (simp add: nat_add_distrib)
  define c where "c = nat_to_be 4 (unat (adler32 1 (t @ p)))"
  have "Buffer_used b2 + length c \<le> max_size"
    using b1(4) b2(5) len(1) room by (simp add: c_def)
  from Buffer_append_spec [OF b2(2) this] obtain b3 where b3: "Buffer_append b2 c = Some b3" "Buffer_wf b3"
      "Buffer_content b3 = frame_body adler32 t p"
    using b2(4) by (auto simp: frame_body_def c_def)
  note r3 = append_prepend [OF b3(1) b2(3)]
  define n where "n = length t + length p + 4"
  have l3: "Buffer_readableBytes b3 = n" "int n = int (length t) + int (length p) + 4"
    using length_Buffer_content [OF b3(2)] b3(3) by (simp_all add: n_def)
  define l where "l = nat_to_be 4 n"
  have word: "unat (of_nat n :: 32 word) = n"
    using len(2) by (simp add: unat_of_nat kMaxMessageLen_def n_def [symmetric])
  have "readerIndex b3 \<ge> length l"
    using r3 by (simp add: l_def kCheapPrepend_def)
  then obtain b4 where b4: "Buffer_prepend b3 l = Some b4"
    using Buffer_prepend_defined [OF b3(2), of l] by fastforce
  from Buffer_prepend_spec [OF b3(2) b4] have "Buffer_wf b4 \<and> Buffer_content b4 = frame adler32 t p"
    by (simp add: b3(3) frame_def l_def n_def)
  moreover have "fillEmptyBuffer adler32 e byteSize serialize cd b m = Some b4"
    using wf(2) b1(1) b2(1) b3(1) b4 l3
    by (simp add: fillEmptyBuffer_def t_def [symmetric] Let_def sum checksum_def Buffer_appendInt32_eq
        c_def [symmetric] mem_bytes_hostToNetwork word l_def)
  ultimately show ?thesis by (auto simp: t_def p_def)
qed

subsection \<open>Frames are decoded to the messages they were made of\<close>

lemma be_word_nat_to_be: "n < 2 ^ 32 \<Longrightarrow> be_word (nat_to_be 4 n @ rest) = of_nat n"
  by (simp add: be_word_def be_to_nat_of_nat_to_be)

lemma be_word_unat [simp]: "be_word (nat_to_be 4 (unat w)) = w"
  using be_to_nat_of_nat_to_be [of 4 "unat w"] unsigned_less [of w, where ?'a = nat] by (simp add: be_word_def)

lemma check_body_frame_body:
  "check_body adler32 parseMsg tag (frame_body adler32 tag payload) =
     (case parseMsg payload of Some m \<Rightarrow> Inr m | None \<Rightarrow> Inl kParseError)"
proof -
  have "take (length tag + length payload) (frame_body adler32 tag payload) = tag @ payload"
    "drop (length tag + length payload) (frame_body adler32 tag payload) = nat_to_be 4 (unat (adler32 1 (tag @ payload)))"
    "take (length tag) (frame_body adler32 tag payload) = tag"
    by (simp_all add: frame_body_def)
  then show ?thesis
    by (simp add: check_body_def Let_def)
qed

lemma sint_small: "n < 2 ^ 31 \<Longrightarrow> sint (of_nat n :: 32 word) = int n"
  using to_int32_small [of n] by (simp add: to_int32_def int_max_def)

lemma next_frame_frame:
  assumes "frame_fits cd payload" and "parseMsg payload = Some m"
    and "\<not> raw_rejects cd (frame adler32 (cd_tag cd) payload)"
  shows "next_frame adler32 parseMsg cd (frame adler32 (cd_tag cd) payload @ rest) =
    Frame (Delivered m) (length (frame adler32 (cd_tag cd) payload))"
proof -
  define n where "n = length (cd_tag cd) + length payload + 4"
  define body where "body = frame_body adler32 (cd_tag cd) payload"
  define f where "f = frame adler32 (cd_tag cd) payload"
  have n: "int n \<le> kMaxMessageLen" "n < 2 ^ 31" "length (cd_tag cd) + 4 \<le> n"
    using assms(1) by (auto simp: frame_fits_def n_def kMaxMessageLen_def)
  have f: "f = nat_to_be 4 n @ body" "length body = n" "length f = 4 + n"
    by (simp_all add: f_def frame_def body_def n_def)
  have "be_word (f @ rest) = of_nat n"
    using be_word_nat_to_be [of n "body @ rest"] n(2) f(1) by simp
  then have len: "sint (be_word (f @ rest)) = int n"
    using sint_small [OF n(2)] by simp
  have split: "take (4 + n) (f @ rest) = f" "take n (drop 4 (f @ rest)) = body"
    by (simp_all add: f del: take_drop)
  have "check_body adler32 parseMsg (cd_tag cd) body = Inr m"
    using check_body_frame_body [of adler32 parseMsg "cd_tag cd" payload] assms(2) by (simp add: body_def)
  moreover have "\<not> raw_rejects cd f"
    using assms(3) by (simp add: f_def)
  moreover have "next_frame adler32 parseMsg cd (f @ rest) =
      (if raw_rejects cd f then Frame (RawRejected f) (4 + n)
       else case check_body adler32 parseMsg (cd_tag cd) body of Inl c \<Rightarrow> Bad c | Inr m \<Rightarrow> Frame (Delivered m) (4 + n))"
    unfolding next_frame_def Let_def len nat_int split
    using n by (simp add: f(3))
  ultimately show ?thesis
    by (simp add: f(3) f_def [symmetric])
qed

lemma decode_frames:
  assumes "\<And>m. m \<in> set ms \<Longrightarrow> frame_fits cd (serialize m) \<and> parseMsg (serialize m) = Some m \<and>
    \<not> raw_rejects cd (frame adler32 (cd_tag cd) (serialize m))"
  shows "decode adler32 parseMsg cd (concat (map (\<lambda>m. frame adler32 (cd_tag cd) (serialize m)) ms)) =
    (map Delivered ms, [])"
  using assms
proof (induction ms)
  case Nil
  have "next_frame adler32 parseMsg cd [] = Wait"
    by (simp add: next_frame_def)
  then show ?case by (simp add: decode.simps)
next
  case (Cons m ms)
  define rest where "rest = concat (map (\<lambda>m. frame adler32 (cd_tag cd) (serialize m)) ms)"
  have "next_frame adler32 parseMsg cd (frame adler32 (cd_tag cd) (serialize m) @ rest) =
      Frame (Delivered m) (length (frame adler32 (cd_tag cd) (serialize m)))"
    by (rule next_frame_frame) (use Cons.prems in auto)
  moreover have "decode adler32 parseMsg cd rest = (map Delivered ms, [])"
    unfolding rest_def by (rule Cons.IH) (use Cons.prems in auto)
  ultimately show ?case
    by (simp add: decode.simps [of _ _ _ "frame adler32 (cd_tag cd) (serialize m) @ rest"] rest_def [symmetric]
        del: length_frame)
qed

text \<open>A prefix of an error-free stream is error-free.\<close>

lemma decode_no_error_prefix:
  "no_error (fst (decode adler32 parseMsg cd (xs @ ys))) \<Longrightarrow> no_error (fst (decode adler32 parseMsg cd xs))"
proof (induction adler32 parseMsg cd xs rule: decode.induct)
  case (1 adler32 parseMsg cd xs)
  note dec = decode.simps [of adler32 parseMsg cd xs] decode.simps [of adler32 parseMsg cd "xs @ ys"]
  show ?case
  proof (cases "next_frame adler32 parseMsg cd xs")
    case Wait
    then show ?thesis by (simp add: dec(1))
  next
    case (Bad c)
    then have "next_frame adler32 parseMsg cd (xs @ ys) = Bad c"
      using next_frame_mono [of adler32 parseMsg cd xs ys] by simp
    then show ?thesis using "1.prems" by (simp add: dec(2))
  next
    case (Frame ev n)
    then have "next_frame adler32 parseMsg cd (xs @ ys) = Frame ev n"
      using next_frame_mono [of adler32 parseMsg cd xs ys] by simp
    moreover have "drop n (xs @ ys) = drop n xs @ ys"
      using next_frame_Frame [OF Frame] by simp
    ultimately show ?thesis
      using "1.IH" [OF Frame] "1.prems" Frame by (simp add: dec case_prod_beta)
  qed
qed

lemma decode_rest:
  assumes "no_error (fst (decode adler32 parseMsg cd xs))"
  shows "decode adler32 parseMsg cd (snd (decode adler32 parseMsg cd xs)) = ([], snd (decode adler32 parseMsg cd xs))"
  using decode_append [OF assms, of "[]"]
  by (cases "decode adler32 parseMsg cd (snd (decode adler32 parseMsg cd xs))") (simp add: case_prod_beta prod_eq_iff)

text \<open>The bytes of a connection arrive in pieces; the codec is called after each.\<close>

primrec receive ::
    "adler \<Rightarrow> endian \<Rightarrow> (char list \<Rightarrow> 'm option) \<Rightarrow> codec \<Rightarrow> char list list \<Rightarrow> 'm codec_event list \<times> buffer \<Rightarrow>
     ('m codec_event list \<times> buffer) option" where
  "receive adler32 e parseMsg cd [] s = Some s"
| "receive adler32 e parseMsg cd (p # ps) s = do {
     b \<leftarrow> Buffer_append (snd s) p;
     s \<leftarrow> ProtobufCodecLite_onMessage adler32 e parseMsg cd b (fst s);
     receive adler32 e parseMsg cd ps s }"

lemma receive_decode:
  assumes cd: "codec_ok cd" and "Buffer_wf b" and "Buffer_used b + length (concat ps) \<le> max_size"
    and "decode adler32 parseMsg cd (Buffer_content b) = ([], Buffer_content b)"
    and "no_error (fst (decode adler32 parseMsg cd (Buffer_content b @ concat ps)))"
  shows "\<exists>b'. receive adler32 e parseMsg cd ps (events, b) =
      Some (events @ fst (decode adler32 parseMsg cd (Buffer_content b @ concat ps)), b') \<and> Buffer_wf b' \<and>
    Buffer_content b' = snd (decode adler32 parseMsg cd (Buffer_content b @ concat ps))"
  using assms(2-)
proof (induction ps arbitrary: b events)
  case Nil
  then show ?case by simp
next
  case (Cons p ps)
  have "Buffer_used b + length p \<le> max_size"
    using Cons.prems(2) by simp
  from Buffer_append_spec [OF Cons.prems(1) this] obtain b1 where b1: "Buffer_append b p = Some b1"
      "Buffer_wf b1" "Buffer_content b1 = Buffer_content b @ p" "Buffer_used b1 \<le> Buffer_used b + length p"
    by blast
  define d where "d = decode adler32 parseMsg cd (Buffer_content b1)"
  from onMessage_decode [OF cd b1(2), of adler32 e parseMsg events] obtain b2 where b2:
      "ProtobufCodecLite_onMessage adler32 e parseMsg cd b1 events = Some (events @ fst d, b2)"
      "Buffer_wf b2" "Buffer_content b2 = snd d" "Buffer_used b2 \<le> Buffer_used b1"
    unfolding d_def by blast
  have ok: "no_error (fst d)"
    using decode_no_error_prefix [of adler32 parseMsg cd "Buffer_content b1" "concat ps"] Cons.prems(4) b1(3)
    by (simp add: d_def)
  have split: "decode adler32 parseMsg cd (Buffer_content b @ concat (p # ps)) =
      (fst d @ fst (decode adler32 parseMsg cd (snd d @ concat ps)), snd (decode adler32 parseMsg cd (snd d @ concat ps)))"
    using decode_append [of adler32 parseMsg cd "Buffer_content b @ p" "concat ps"] ok
    by (simp add: d_def b1(3) case_prod_beta Let_def)
  have "\<exists>b'. receive adler32 e parseMsg cd ps (events @ fst d, b2) =
      Some ((events @ fst d) @ fst (decode adler32 parseMsg cd (Buffer_content b2 @ concat ps)), b') \<and> Buffer_wf b' \<and>
    Buffer_content b' = snd (decode adler32 parseMsg cd (Buffer_content b2 @ concat ps))"
  proof (rule Cons.IH)
    show "Buffer_used b2 + length (concat ps) \<le> max_size"
      using b1(4) b2(4) Cons.prems(2) by simp
    show "decode adler32 parseMsg cd (Buffer_content b2) = ([], Buffer_content b2)"
      using decode_rest [of adler32 parseMsg cd "Buffer_content b1"] ok b2(3) by (simp add: d_def)
    show "no_error (fst (decode adler32 parseMsg cd (Buffer_content b2 @ concat ps)))"
      using Cons.prems(4) split b2(3) by simp
  qed (rule b2(2))
  then show ?case
    using b1(1) b2(1,3) split by auto
qed

lemma default_room:
  "kCheapPrepend \<le> readerIndex Buffer_default" "Buffer_used Buffer_default + nat kMaxMessageLen \<le> max_size"
  by (simp add: Buffer_ctor_def) (simp add: kCheapPrepend_def max_size_def kMaxMessageLen_def)

subsection \<open>Properties\<close>

text \<open>C8: Messages sent by one host and received by another, each of either byte order, arrive as
  they were sent and in order, however the bytes are split on the way: every message fills a
  fresh buffer, and handling the pieces as they arrive delivers exactly the messages, reports
  no error and leaves the buffer empty.\<close>

theorem codec_round_trip:
  assumes "protobuf_ok byteSize serialize parseMsg" and "length tag \<le> 1000"
    and "cd = ProtobufCodecLite_ctor tag None" and "\<forall>m \<in> set ms. frame_fits cd (serialize m)"
  shows "\<exists>bufs. map (fillEmptyBuffer adler32 e byteSize serialize cd Buffer_default) ms = map Some bufs \<and>
    (\<forall>pieces. concat pieces = concat (map Buffer_content bufs) \<and> kCheapPrepend + length (concat pieces) \<le> max_size \<longrightarrow>
      (\<exists>b. receive adler32 e' parseMsg cd pieces ([], Buffer_default) = Some (map Delivered ms, b) \<and>
         Buffer_wf b \<and> Buffer_content b = []))"
proof -
  define bufs where "bufs = map (\<lambda>m. the (fillEmptyBuffer adler32 e byteSize serialize cd Buffer_default m)) ms"
  have cd: "codec_ok cd" "cd_rawCb cd = None"
    using assms(2,3) ctor_ok by (auto simp: ProtobufCodecLite_ctor_def)
  have fill: "\<exists>b. fillEmptyBuffer adler32 e byteSize serialize cd Buffer_default m = Some b \<and>
      Buffer_content b = frame adler32 (cd_tag cd) (serialize m)" if "m \<in> set ms" for m
    using fillEmptyBuffer_frame [OF assms(1), of cd m Buffer_default adler32 e] that assms(4)
      default_room by auto
  have m1: "map (fillEmptyBuffer adler32 e byteSize serialize cd Buffer_default) ms = map Some bufs"
    using fill by (fastforce simp: bufs_def)
  have m2: "map Buffer_content bufs = map (\<lambda>m. frame adler32 (cd_tag cd) (serialize m)) ms"
    using fill by (fastforce simp: bufs_def)
  have dec: "decode adler32 parseMsg cd (concat (map Buffer_content bufs)) = (map Delivered ms, [])"
    unfolding m2 by (rule decode_frames) (use assms(1,4) cd in \<open>auto simp: protobuf_ok_def raw_rejects_def\<close>)
  have "decode adler32 parseMsg cd [] = ([], [])"
    using decode_frames [of "[]" cd serialize parseMsg adler32] by simp
  then have "\<exists>b. receive adler32 e' parseMsg cd pieces ([], Buffer_default) = Some (map Delivered ms, b) \<and>
         Buffer_wf b \<and> Buffer_content b = []"
    if "concat pieces = concat (map Buffer_content bufs)" "kCheapPrepend + length (concat pieces) \<le> max_size" for pieces
    using receive_decode [OF cd(1) Buffer_default_wf, of pieces adler32 parseMsg e' "[]"] that dec by simp
  with m1 show ?thesis by blast
qed

definition event_of_frame :: "adler \<Rightarrow> (char list \<Rightarrow> 'm option) \<Rightarrow> codec \<Rightarrow> 'm codec_event \<Rightarrow> char list \<Rightarrow> bool" where
  "event_of_frame adler32 parseMsg cd ev f \<longleftrightarrow>
     (case ev of
        Delivered m \<Rightarrow> \<exists>payload. f = frame adler32 (cd_tag cd) payload \<and> parseMsg payload = Some m
      | RawRejected raw \<Rightarrow> raw = f \<and> raw_rejects cd f
      | Reported c \<Rightarrow> False)"

lemma check_body_Inr:
  assumes "check_body adler32 parseMsg tag body = Inr m" and "length tag + 4 \<le> length body"
  obtains payload where "body = frame_body adler32 tag payload" and "parseMsg payload = Some m"
proof -
  define n where "n = length body - 4"
  define payload where "payload = drop (length tag) (take n body)"
  have c: "be_word (drop n body) = adler32 1 (take n body)" "take (length tag) body = tag" "parseMsg payload = Some m"
    using assms(1) by (auto simp: check_body_def Let_def n_def payload_def split: if_splits option.splits)
  have "take n body = tag @ payload"
    using c(2) assms(2) append_take_drop_id [of "length tag" "take n body"]
    by (simp add: payload_def n_def min_def split: if_splits)
  moreover have "drop n body = nat_to_be 4 (unat (be_word (drop n body)))"
    using nat_to_be_be_word [of "drop n body"] assms(2) by (simp add: n_def)
  ultimately have "body = frame_body adler32 tag payload"
    using append_take_drop_id [of n body] c(1) by (simp add: frame_body_def)
  with c(3) show ?thesis using that by blast
qed

lemma next_frame_event:
  assumes "next_frame adler32 parseMsg cd xs = Frame ev n"
  shows "event_of_frame adler32 parseMsg cd ev (take n xs)"
proof -
  define len where "len = sint (be_word xs)"
  have len: "int (length (cd_tag cd)) + 4 \<le> len" "n = 4 + nat len" "4 + nat len \<le> length xs"
    using assms by (auto simp: next_frame_def Let_def len_def split: if_splits sum.splits)
  show ?thesis
  proof (cases "raw_rejects cd (take n xs)")
    case True
    then have "ev = RawRejected (take n xs)"
      using assms len(2) by (auto simp: next_frame_def Let_def len_def split: if_splits sum.splits)
    with True show ?thesis by (simp add: event_of_frame_def)
  next
    case False
    define body where "body = take (nat len) (drop 4 xs)"
    from False obtain m where m: "ev = Delivered m" "check_body adler32 parseMsg (cd_tag cd) body = Inr m"
      using assms len(2) by (auto simp: next_frame_def Let_def len_def body_def split: if_splits sum.splits)
    have lb: "length body = nat len"
      using len by (simp add: body_def)
    with m(2) len obtain payload where p: "body = frame_body adler32 (cd_tag cd) payload" "parseMsg payload = Some m"
      by (elim check_body_Inr) auto
    have "be_word xs = of_nat (nat len)"
      using len(1) by (simp add: len_def of_nat_nat)
    moreover have "nat len < 2 ^ 32"
      using sint_lt [of "be_word xs"] by (simp add: len_def)
    ultimately have "nat len = unat (be_word xs)"
      by (simp add: unat_of_nat)
    then have "take 4 xs = nat_to_be 4 (nat len)"
      using nat_to_be_be_word [of "take 4 xs"] len by (simp add: be_word_def)
    then have "take n xs = frame adler32 (cd_tag cd) payload"
      using lb len(2) unfolding frame_def p(1) [symmetric] by (simp add: take_add body_def)
    with m p show ?thesis by (auto simp: event_of_frame_def)
  qed
qed

lemma decode_events:
  "\<exists>good fs err. decode adler32 parseMsg cd xs = (good @ err, snd (decode adler32 parseMsg cd xs)) \<and>
     (err = [] \<or> (\<exists>c. err = [Reported c])) \<and> xs = concat fs @ snd (decode adler32 parseMsg cd xs) \<and>
     list_all2 (event_of_frame adler32 parseMsg cd) good fs"
proof (induction adler32 parseMsg cd xs rule: decode.induct)
  case (1 adler32 parseMsg cd xs)
  note dec = decode.simps [of adler32 parseMsg cd xs]
  show ?case
  proof (cases "next_frame adler32 parseMsg cd xs")
    case Wait
    then show ?thesis by (intro exI [of _ "[]"]) (simp add: dec)
  next
    case (Bad c)
    then show ?thesis by (intro exI [of _ "[]"] exI [of _ "[Reported c]"]) (simp add: dec)
  next
    case (Frame ev n)
    from "1.IH" [OF Frame] obtain good fs err where IH:
        "decode adler32 parseMsg cd (drop n xs) = (good @ err, snd (decode adler32 parseMsg cd (drop n xs)))"
        "err = [] \<or> (\<exists>c. err = [Reported c])"
        "drop n xs = concat fs @ snd (decode adler32 parseMsg cd (drop n xs))"
        "list_all2 (event_of_frame adler32 parseMsg cd) good fs"
      by blast
    have d: "decode adler32 parseMsg cd xs = (ev # good @ err, snd (decode adler32 parseMsg cd (drop n xs)))"
      using Frame arg_cong [OF IH(1), of fst] by (simp add: dec case_prod_beta)
    have "xs = concat (take n xs # fs) @ snd (decode adler32 parseMsg cd (drop n xs))"
      using IH(3) append_take_drop_id [of n xs] by (metis append_assoc concat.simps(2))
    with next_frame_event [OF Frame] d IH(2,4) show ?thesis
      by (intro exI [of _ "ev # good"] exI [of _ "take n xs # fs"] exI [of _ err]) (simp add: d)
  qed
qed

text \<open>A serializer for texts, and a sum that stands for the checksum.\<close>

definition example_adler :: adler where
  "example_adler w cs = fold (\<lambda>c w. w + of_char c) cs w"

theorem codec_round_trip_witness:
  "let cd = ProtobufCodecLite_ctor ''RPC0'' None in
   \<exists>bufs. map (fillEmptyBuffer example_adler Little (\<lambda>m. int (length m)) id cd Buffer_default) [''hello'', [], ''world''] =
      map Some bufs \<and>
    (\<forall>pieces. concat pieces = concat (map Buffer_content bufs) \<and> kCheapPrepend + length (concat pieces) \<le> max_size \<longrightarrow>
      (\<exists>b. receive example_adler Big Some cd pieces ([], Buffer_default) =
          Some ([Delivered ''hello'', Delivered [], Delivered ''world''], b) \<and> Buffer_wf b \<and> Buffer_content b = []))"
  using codec_round_trip [of "\<lambda>m. int (length m)" id Some "''RPC0''" "ProtobufCodecLite_ctor ''RPC0'' None"
      "[''hello'', [], ''world'']" example_adler Little Big]
  by (simp add: protobuf_ok_def frame_fits_def kMaxMessageLen_def ProtobufCodecLite_ctor_def Let_def)

text \<open>C9: On any input the codec returns, and it delivers nothing but what the sender framed: the
  bytes it consumes are a sequence of frames, one for each event before a reported error; the
  frame of a delivered message carries the tag of the codec, the payload the message is parsed
  from and their checksum, and a frame the raw callback rejects is skipped. What follows stays
  in the buffer, and at most the last event is an error.\<close>

theorem codec_sound:
  assumes "codec_ok cd" and "Buffer_wf b"
  shows "\<exists>good fs err b'. ProtobufCodecLite_onMessage adler32 e parseMsg cd b [] = Some (good @ err, b') \<and>
    (err = [] \<or> (\<exists>c. err = [Reported c])) \<and> Buffer_wf b' \<and> Buffer_content b = concat fs @ Buffer_content b' \<and>
    list_all2 (event_of_frame adler32 parseMsg cd) good fs"
proof -
  obtain good fs err where d:
      "decode adler32 parseMsg cd (Buffer_content b) = (good @ err, snd (decode adler32 parseMsg cd (Buffer_content b)))"
      "err = [] \<or> (\<exists>c. err = [Reported c])"
      "Buffer_content b = concat fs @ snd (decode adler32 parseMsg cd (Buffer_content b))"
      "list_all2 (event_of_frame adler32 parseMsg cd) good fs"
    using decode_events [of adler32 parseMsg cd "Buffer_content b"] by blast
  from onMessage_decode [OF assms, of adler32 e parseMsg "[]"] obtain b' where
      "ProtobufCodecLite_onMessage adler32 e parseMsg cd b [] =
        Some (fst (decode adler32 parseMsg cd (Buffer_content b)), b')" "Buffer_wf b'"
      "Buffer_content b' = snd (decode adler32 parseMsg cd (Buffer_content b))"
    by auto
  then show ?thesis using d by (metis fst_conv)
qed

theorem codec_sound_witness:
  "let cd = ProtobufCodecLite_ctor ''RPC0'' None; b = buffer_holding (frame example_adler ''RPC0'' ''hi'') in
   \<exists>good fs err b'. ProtobufCodecLite_onMessage example_adler Big Some cd b [] = Some (good @ err, b') \<and>
    (err = [] \<or> (\<exists>c. err = [Reported c])) \<and> Buffer_wf b' \<and> Buffer_content b = concat fs @ Buffer_content b' \<and>
    list_all2 (event_of_frame example_adler Some cd) good fs"
  unfolding Let_def
  by (rule codec_sound) (simp_all add: ctor_ok buffer_holding_wf)

end
