(* ===== verification/Monitor.thy ===== *)
theory Monitor
  imports Muduo_Prelude
begin

text \<open>
  Mutexes and condition variables (\<open>src/base/Mutex.h\<close>, \<open>src/base/Condition.h\<close>) and the threads
  that share them.

  A mutex is the pthread mutex, that is the thread that locked it, and the field \<open>holder_\<close>. An
  operation of a class with a mutex is a list of instructions; threads execute the operations
  they call one instruction at a time, in any order. A thread that waits may be woken without a
  notification. A predicate or an action that gives \<open>None\<close> stands for a failed assertion.

  The locale \<open>monitor\<close> is a proof rule for such classes: an invariant of the shared state that
  holds whenever the mutex is free, and for each instruction what the thread that holds the mutex
  knows before it. The locale \<open>signalled\<close> adds a rule for a condition variable: when each unit
  of what the waiters wait for comes with a notification, no waiter sleeps while there is
  something to take.
\<close>

subsection \<open>The mutex\<close>

type_synonym tid = nat

record MutexLock =
  mx_mutex :: "tid option"
  mx_holder :: tid

definition MutexLock_ctor :: MutexLock where
  "MutexLock_ctor = \<lparr>mx_mutex = None, mx_holder = 0\<rparr>"

definition MutexLock_dtor :: "MutexLock \<Rightarrow> unit option" where
  "MutexLock_dtor m = cassert (mx_holder m = 0)"

definition isLockedByThisThread :: "tid \<Rightarrow> MutexLock \<Rightarrow> bool" where
  "isLockedByThisThread t m \<longleftrightarrow> mx_holder m = t"

definition assertLocked :: "tid \<Rightarrow> MutexLock \<Rightarrow> unit option" where
  "assertLocked t m = cassert (isLockedByThisThread t m)"

definition assignHolder :: "tid \<Rightarrow> MutexLock \<Rightarrow> MutexLock" where
  "assignHolder t m = m\<lparr>mx_holder := t\<rparr>"

definition unassignHolder :: "MutexLock \<Rightarrow> MutexLock" where
  "unassignHolder m = m\<lparr>mx_holder := 0\<rparr>"

text \<open>Locking a mutex that another thread holds blocks: there is no step.\<close>

definition MutexLock_lock :: "tid \<Rightarrow> MutexLock \<Rightarrow> MutexLock option" where
  "MutexLock_lock t m =
     (case mx_mutex m of None \<Rightarrow> Some (assignHolder t (m\<lparr>mx_mutex := Some t\<rparr>)) | Some _ \<Rightarrow> None)"

definition MutexLock_unlock :: "MutexLock \<Rightarrow> MutexLock" where
  "MutexLock_unlock m = (unassignHolder m)\<lparr>mx_mutex := None\<rparr>"

text \<open>\<open>Condition::wait\<close>: the guard clears the holder, the wait releases the mutex; after the wait
  the mutex is locked again and the guard sets the holder.\<close>

definition Condition_wait_begin :: "MutexLock \<Rightarrow> MutexLock" where
  "Condition_wait_begin m = (unassignHolder m)\<lparr>mx_mutex := None\<rparr>"

definition Condition_wait_end :: "tid \<Rightarrow> MutexLock \<Rightarrow> MutexLock option" where
  "Condition_wait_end t m =
     (case mx_mutex m of None \<Rightarrow> Some (assignHolder t (m\<lparr>mx_mutex := Some t\<rparr>)) | Some _ \<Rightarrow> None)"

lemmas mutex_defs = MutexLock_lock_def MutexLock_unlock_def Condition_wait_begin_def
  Condition_wait_end_def assignHolder_def unassignHolder_def

subsection \<open>Threads\<close>

datatype ('c, 's) instr =
    Lock
  | Unlock
  | WaitWhile 'c "tid \<Rightarrow> MutexLock \<Rightarrow> 's \<Rightarrow> bool option"
  | Do "tid \<Rightarrow> MutexLock \<Rightarrow> 's \<Rightarrow> 's option"
  | NotifyIf 'c "tid \<Rightarrow> 's \<Rightarrow> bool"
  | NotifyAllIf 'c "tid \<Rightarrow> 's \<Rightarrow> bool"
  | Goto "tid \<Rightarrow> 's \<Rightarrow> nat"

abbreviation Notify :: "'c \<Rightarrow> ('c, 's) instr" where
  "Notify c \<equiv> NotifyIf c (\<lambda>t s. True)"

datatype ('op, 'c) thread = Idle | Running 'op nat | Waiting 'op nat 'c | Woken 'op nat

record ('op, 'c, 's) world =
  wd_state :: 's
  wd_mutex :: MutexLock
  wd_thread :: "tid \<Rightarrow> ('op, 'c) thread"

abbreviation set_thread :: "tid \<Rightarrow> ('op, 'c) thread \<Rightarrow> ('op, 'c, 's) world \<Rightarrow> ('op, 'c, 's) world" where
  "set_thread t th w \<equiv> w\<lparr>wd_thread := (wd_thread w)(t := th)\<rparr>"

definition at_instr :: "('op \<Rightarrow> ('c, 's) instr list) \<Rightarrow> ('op, 'c, 's) world \<Rightarrow> tid \<Rightarrow> 'op \<Rightarrow> nat \<Rightarrow> ('c, 's) instr \<Rightarrow> bool" where
  "at_instr prog w t op i ins \<longleftrightarrow> wd_thread w t = Running op i \<and> i < length (prog op) \<and> prog op ! i = ins"

fun awake :: "'c \<Rightarrow> bool \<Rightarrow> ('op, 'c) thread \<Rightarrow> ('op, 'c) thread" where
  "awake c b (Waiting op i c') = (if c' = c \<and> b then Woken op i else Waiting op i c')"
| "awake c b th = th"

text \<open>\<open>calls\<close> says which operations a thread may call.\<close>

inductive mon_step ::
    "('op \<Rightarrow> ('c, 's) instr list) \<Rightarrow> (tid \<Rightarrow> 'op \<Rightarrow> bool) \<Rightarrow> tid \<Rightarrow> ('op, 'c, 's) world \<Rightarrow> ('op, 'c, 's) world \<Rightarrow> bool"
  for prog :: "'op \<Rightarrow> ('c, 's) instr list" and calls :: "tid \<Rightarrow> 'op \<Rightarrow> bool" where
  Call: "wd_thread w t = Idle \<Longrightarrow> calls t op \<Longrightarrow> mon_step prog calls t w (set_thread t (Running op 0) w)"
| Return: "wd_thread w t = Running op (length (prog op)) \<Longrightarrow> mon_step prog calls t w (set_thread t Idle w)"
| Lock: "at_instr prog w t op i Lock \<Longrightarrow> MutexLock_lock t (wd_mutex w) = Some m \<Longrightarrow>
    mon_step prog calls t w (set_thread t (Running op (i + 1)) (w\<lparr>wd_mutex := m\<rparr>))"
| Unlock: "at_instr prog w t op i Unlock \<Longrightarrow>
    mon_step prog calls t w (set_thread t (Running op (i + 1)) (w\<lparr>wd_mutex := MutexLock_unlock (wd_mutex w)\<rparr>))"
| Wait: "at_instr prog w t op i (WaitWhile c P) \<Longrightarrow> P t (wd_mutex w) (wd_state w) = Some True \<Longrightarrow>
    mon_step prog calls t w (set_thread t (Waiting op i c) (w\<lparr>wd_mutex := Condition_wait_begin (wd_mutex w)\<rparr>))"
| Pass: "at_instr prog w t op i (WaitWhile c P) \<Longrightarrow> P t (wd_mutex w) (wd_state w) = Some False \<Longrightarrow>
    mon_step prog calls t w (set_thread t (Running op (i + 1)) w)"
| Wake: "wd_thread w t = Waiting op i c \<Longrightarrow> mon_step prog calls t w (set_thread t (Woken op i) w)"
| Relock: "wd_thread w t = Woken op i \<Longrightarrow> Condition_wait_end t (wd_mutex w) = Some m \<Longrightarrow>
    mon_step prog calls t w (set_thread t (Running op i) (w\<lparr>wd_mutex := m\<rparr>))"
| Do: "at_instr prog w t op i (Do f) \<Longrightarrow> f t (wd_mutex w) (wd_state w) = Some s \<Longrightarrow>
    mon_step prog calls t w (set_thread t (Running op (i + 1)) (w\<lparr>wd_state := s\<rparr>))"
| Notify_one: "at_instr prog w t op i (NotifyIf c g) \<Longrightarrow> g t (wd_state w) \<Longrightarrow> wd_thread w u = Waiting op' j c \<Longrightarrow>
    mon_step prog calls t w (set_thread u (Woken op' j) (set_thread t (Running op (i + 1)) w))"
| Notify_none: "at_instr prog w t op i (NotifyIf c g) \<Longrightarrow>
    g t (wd_state w) \<longrightarrow> (\<forall>u op' j. wd_thread w u \<noteq> Waiting op' j c) \<Longrightarrow>
    mon_step prog calls t w (set_thread t (Running op (i + 1)) w)"
| Notify_all: "at_instr prog w t op i (NotifyAllIf c g) \<Longrightarrow>
    mon_step prog calls t w (set_thread t (Running op (i + 1)) (w\<lparr>wd_thread := awake c (g t (wd_state w)) \<circ> wd_thread w\<rparr>))"
| Goto: "at_instr prog w t op i (Goto f) \<Longrightarrow>
    mon_step prog calls t w (set_thread t (Running op (f t (wd_state w))) w)"

text \<open>The states threads can reach, and the state that waits for a thread that has aborted.\<close>

inductive reachable_from ::
    "('op \<Rightarrow> ('c, 's) instr list) \<Rightarrow> (tid \<Rightarrow> 'op \<Rightarrow> bool) \<Rightarrow> tid set \<Rightarrow> 's \<Rightarrow> ('op, 'c, 's) world \<Rightarrow> bool"
  for prog :: "'op \<Rightarrow> ('c, 's) instr list" and calls :: "tid \<Rightarrow> 'op \<Rightarrow> bool" and T :: "tid set" and s0 :: 's where
  Start: "reachable_from prog calls T s0 \<lparr>wd_state = s0, wd_mutex = MutexLock_ctor, wd_thread = (\<lambda>_. Idle)\<rparr>"
| Step: "reachable_from prog calls T s0 w \<Longrightarrow> t \<in> T \<Longrightarrow> mon_step prog calls t w w' \<Longrightarrow> reachable_from prog calls T s0 w'"

definition aborts :: "('op \<Rightarrow> ('c, 's) instr list) \<Rightarrow> ('op, 'c, 's) world \<Rightarrow> bool" where
  "aborts prog w \<longleftrightarrow> (\<exists>t op i.
     (\<exists>f. at_instr prog w t op i (Do f) \<and> f t (wd_mutex w) (wd_state w) = None) \<or>
     (\<exists>c P. at_instr prog w t op i (WaitWhile c P) \<and> P t (wd_mutex w) (wd_state w) = None))"

text \<open>No thread can go on by itself: a call and a spurious wake-up come from outside.\<close>

definition quiescent :: "('op \<Rightarrow> ('c, 's) instr list) \<Rightarrow> tid set \<Rightarrow> ('op, 'c, 's) world \<Rightarrow> bool" where
  "quiescent prog T w \<longleftrightarrow> (\<forall>t\<in>T. \<forall>w'. mon_step prog (\<lambda>_ _. False) t w w' \<longrightarrow> (\<exists>op i c. wd_thread w t = Waiting op i c))"

subsection \<open>The proof rule\<close>

text \<open>\<open>held op i\<close> says that the thread holds the mutex before instruction \<open>i\<close>, \<open>know op i t s\<close> what
  it knows of the state there.\<close>

definition monitor_law ::
    "('op \<Rightarrow> ('c, 's) instr list) \<Rightarrow> ('op \<Rightarrow> nat \<Rightarrow> bool) \<Rightarrow> ('s \<Rightarrow> bool) \<Rightarrow> ('op \<Rightarrow> nat \<Rightarrow> tid \<Rightarrow> 's \<Rightarrow> bool) \<Rightarrow>
     'op \<Rightarrow> nat \<Rightarrow> bool" where
  "monitor_law prog held good know op i \<longleftrightarrow>
     (case prog op ! i of
        Lock \<Rightarrow> \<not> held op i \<and> held op (i + 1) \<and> (\<forall>t s. good s \<longrightarrow> know op (i + 1) t s)
      | Unlock \<Rightarrow> held op i \<and> \<not> held op (i + 1) \<and> (\<forall>t s. know op i t s \<longrightarrow> good s)
      | WaitWhile c P \<Rightarrow> held op i \<and> held op (i + 1) \<and> (\<forall>t s. good s \<longrightarrow> know op i t s) \<and>
          (\<forall>t m s. know op i t s \<and> isLockedByThisThread t m \<longrightarrow>
             (case P t m s of None \<Rightarrow> False | Some b \<Rightarrow> if b then good s else know op (i + 1) t s))
      | Do f \<Rightarrow> held op i = held op (i + 1) \<and>
          (if held op i then \<forall>t m s. know op i t s \<and> isLockedByThisThread t m \<longrightarrow>
             (\<exists>s'. f t m s = Some s' \<and> know op (i + 1) t s')
           else \<forall>t m s. \<exists>s'. f t m s = Some s' \<and> (good s \<longrightarrow> good s') \<and>
             (\<forall>op' i' t'. t' \<noteq> t \<and> know op' i' t' s \<longrightarrow> know op' i' t' s'))
      | NotifyIf c g \<Rightarrow> held op i \<and> held op (i + 1) \<and> (\<forall>t s. know op i t s \<longrightarrow> know op (i + 1) t s)
      | NotifyAllIf c g \<Rightarrow> held op i \<and> held op (i + 1) \<and> (\<forall>t s. know op i t s \<longrightarrow> know op (i + 1) t s)
      | Goto f \<Rightarrow> \<not> held op i \<and> (\<forall>t s. f t s \<le> length (prog op) \<and> \<not> held op (f t s)))"

locale monitor =
  fixes prog :: "'op \<Rightarrow> ('c, 's) instr list" and held :: "'op \<Rightarrow> nat \<Rightarrow> bool"
    and good :: "'s \<Rightarrow> bool" and know :: "'op \<Rightarrow> nat \<Rightarrow> tid \<Rightarrow> 's \<Rightarrow> bool"
  assumes outside: "\<not> held op 0" "\<not> held op (length (prog op))"
    and law: "i < length (prog op) \<Longrightarrow> monitor_law prog held good know op i"
begin

definition owns :: "('op, 'c) thread \<Rightarrow> bool" where
  "owns th \<longleftrightarrow> (case th of Running op i \<Rightarrow> held op i | _ \<Rightarrow> False)"

definition thread_ok :: "tid \<Rightarrow> 's \<Rightarrow> ('op, 'c) thread \<Rightarrow> bool" where
  "thread_ok t s th \<longleftrightarrow>
     (case th of
        Idle \<Rightarrow> True
      | Running op i \<Rightarrow> i \<le> length (prog op) \<and> (held op i \<longrightarrow> know op i t s)
      | Waiting op i c \<Rightarrow> i < length (prog op) \<and> (\<exists>P. prog op ! i = WaitWhile c P)
      | Woken op i \<Rightarrow> i < length (prog op) \<and> (\<exists>c P. prog op ! i = WaitWhile c P))"

definition mon_inv :: "('op, 'c, 's) world \<Rightarrow> bool" where
  "mon_inv w \<longleftrightarrow> (\<forall>t. owns (wd_thread w t) \<longleftrightarrow> mx_mutex (wd_mutex w) = Some t) \<and>
     (\<forall>t. thread_ok t (wd_state w) (wd_thread w t)) \<and>
     (mx_mutex (wd_mutex w) = None \<longrightarrow> good (wd_state w)) \<and>
     mx_holder (wd_mutex w) = (case mx_mutex (wd_mutex w) of None \<Rightarrow> 0 | Some t \<Rightarrow> t)"

lemma thread_ok_simps [simp]:
  "thread_ok t s Idle" "owns (Running op i) = held op i" "\<not> owns Idle" "\<not> owns (Waiting op i c)" "\<not> owns (Woken op i)"
  by (simp_all add: thread_ok_def owns_def)

lemma at_instr_law:
  assumes "mon_inv w" and "at_instr prog w t op i ins"
  shows "monitor_law prog held good know op i" "prog op ! i = ins" "i < length (prog op)" "wd_thread w t = Running op i"
    "held op i \<longleftrightarrow> mx_mutex (wd_mutex w) = Some t" "held op i \<Longrightarrow> know op i t (wd_state w)"
    "held op i \<Longrightarrow> isLockedByThisThread t (wd_mutex w)"
  using assms law [of i op] unfolding mon_inv_def at_instr_def isLockedByThisThread_def
  by (auto simp: thread_ok_def owns_def split: thread.splits)

text \<open>Only the thread that owns the mutex knows something of the state.\<close>

lemma thread_ok_other:
  "thread_ok t s th \<Longrightarrow> \<not> owns th \<Longrightarrow> thread_ok t s' th"
  by (auto simp: thread_ok_def owns_def split: thread.splits)

lemma mon_invD:
  assumes "mon_inv w"
  shows "owns (wd_thread w t) \<longleftrightarrow> mx_mutex (wd_mutex w) = Some t" "thread_ok t (wd_state w) (wd_thread w t)"
    "mx_mutex (wd_mutex w) = None \<Longrightarrow> good (wd_state w)"
  using assms by (auto simp: mon_inv_def)

text \<open>A thread goes on, locks the mutex or releases it.\<close>

lemma mon_inv_keep:
  assumes "mon_inv w" and "owns th \<longleftrightarrow> owns (wd_thread w t)" and "thread_ok t (wd_state w) th"
  shows "mon_inv (set_thread t th w)"
  using assms by (simp add: mon_inv_def)

lemma mon_inv_acquire:
  assumes "mon_inv w" and "mx_mutex (wd_mutex w) = None" and "owns th" "thread_ok t (wd_state w) th"
    and "m = \<lparr>mx_mutex = Some t, mx_holder = t\<rparr>"
  shows "mon_inv (set_thread t th (w\<lparr>wd_mutex := m\<rparr>))"
  using assms by (auto simp: mon_inv_def)

lemma mon_inv_release:
  assumes "mon_inv w" and "mx_mutex (wd_mutex w) = Some t" and "\<not> owns th" "thread_ok t (wd_state w) th"
    and "good (wd_state w)" and "m = \<lparr>mx_mutex = None, mx_holder = 0\<rparr>"
  shows "mon_inv (set_thread t th (w\<lparr>wd_mutex := m\<rparr>))"
  using assms by (auto simp: mon_inv_def)

lemma mon_inv_state:
  assumes "mon_inv w" and "owns th \<longleftrightarrow> owns (wd_thread w t)" and "thread_ok t s th"
    and "mx_mutex (wd_mutex w) = None \<Longrightarrow> good s" and "\<And>u. u \<noteq> t \<Longrightarrow> thread_ok u s (wd_thread w u)"
  shows "mon_inv (set_thread t th (w\<lparr>wd_state := s\<rparr>))"
  using assms by (simp add: mon_inv_def)

lemma mutex_moves:
  "MutexLock_lock t m = Some m' \<longleftrightarrow> mx_mutex m = None \<and> m' = \<lparr>mx_mutex = Some t, mx_holder = t\<rparr>"
  "Condition_wait_end t m = Some m' \<longleftrightarrow> mx_mutex m = None \<and> m' = \<lparr>mx_mutex = Some t, mx_holder = t\<rparr>"
  "MutexLock_unlock m = \<lparr>mx_mutex = None, mx_holder = 0\<rparr>"
  "Condition_wait_begin m = \<lparr>mx_mutex = None, mx_holder = 0\<rparr>"
  by (cases m; auto simp: mutex_defs split: option.splits)+

lemma do_law:
  assumes w: "mon_inv w" and at: "at_instr prog w t op i (Do f)"
  obtains s where "f t (wd_mutex w) (wd_state w) = Some s" and "held op (i + 1) \<longleftrightarrow> held op i"
    and "held op i \<longrightarrow> know op (i + 1) t s"
    and "\<not> held op i \<longrightarrow> (good (wd_state w) \<longrightarrow> good s) \<and> (\<forall>op' i' t'. t' \<noteq> t \<and> know op' i' t' (wd_state w) \<longrightarrow> know op' i' t' s)"
proof (cases "held op i")
  case True
  note i = at_instr_law [OF w at]
  have "\<forall>t m s. know op i t s \<and> isLockedByThisThread t m \<longrightarrow> (\<exists>s'. f t m s = Some s' \<and> know op (i + 1) t s')"
      "held op (i + 1)"
    using i(1,2) True by (simp_all add: monitor_law_def)
  with i(6,7) True that show ?thesis by blast
next
  case False
  note i = at_instr_law [OF w at]
  have "\<forall>t m s. \<exists>s'. f t m s = Some s' \<and> (good s \<longrightarrow> good s') \<and>
      (\<forall>op' i' t'. t' \<noteq> t \<and> know op' i' t' s \<longrightarrow> know op' i' t' s')" "\<not> held op (i + 1)"
    using i(1,2) False by (simp_all add: monitor_law_def)
  with False that show ?thesis by blast
qed

lemma do_step:
  assumes w: "mon_inv w" and at: "at_instr prog w t op i (Do f)" and s: "f t (wd_mutex w) (wd_state w) = Some s"
  shows "mon_inv (set_thread t (Running op (i + 1)) (w\<lparr>wd_state := s\<rparr>))"
proof -
  note i = at_instr_law [OF w at]
  obtain s' where s': "f t (wd_mutex w) (wd_state w) = Some s'" and h: "held op (i + 1) \<longleftrightarrow> held op i"
    and k: "held op i \<longrightarrow> know op (i + 1) t s'"
    and g: "\<not> held op i \<longrightarrow> (good (wd_state w) \<longrightarrow> good s') \<and> (\<forall>op' i' t'. t' \<noteq> t \<and> know op' i' t' (wd_state w) \<longrightarrow> know op' i' t' s')"
    by (rule do_law [OF w at])
  have eq: "s' = s"
    using s s' by simp
  have others: "thread_ok u s (wd_thread w u)" if "u \<noteq> t" for u
  proof (cases "held op i")
    case True
    then have "\<not> owns (wd_thread w u)"
      using mon_invD(1) [OF w, of u] i(5) that by simp
    then show ?thesis by (rule thread_ok_other [OF mon_invD(2) [OF w]])
  next
    case False
    with g eq that have "\<And>op' i'. know op' i' u (wd_state w) \<Longrightarrow> know op' i' u s"
      by blast
    then show ?thesis
      using mon_invD(2) [OF w, of u] by (cases "wd_thread w u") (simp_all add: thread_ok_def)
  qed
  have "good s" if "mx_mutex (wd_mutex w) = None"
    using g eq that i(5) mon_invD(3) [OF w that] by simp
  moreover have "thread_ok t s (Running op (i + 1))"
    using i(3) h k eq by (simp add: thread_ok_def)
  ultimately show ?thesis
    using i(4) h others by (intro mon_inv_state [OF w]) simp_all
qed

lemma notify_step:
  assumes w: "mon_inv w" and at: "at_instr prog w t op i ins" and "ins = NotifyIf c g \<or> ins = NotifyAllIf c g"
  shows "mon_inv (set_thread t (Running op (i + 1)) w)"
  using at_instr_law [OF w at] assms(3)
  by (intro mon_inv_keep [OF w]) (auto simp: monitor_law_def thread_ok_def)

lemma wake_step:
  assumes w: "mon_inv w" and "wd_thread w t = Waiting op i c"
  shows "mon_inv (set_thread t (Woken op i) w)"
  using mon_invD(2) [OF w, of t] assms(2) by (intro mon_inv_keep [OF w]) (auto simp: thread_ok_def)

lemma wake_all:
  assumes w: "mon_inv w"
  shows "mon_inv (w\<lparr>wd_thread := awake c b \<circ> wd_thread w\<rparr>)"
proof -
  have "owns (awake c b th) = owns th" "thread_ok t s th \<Longrightarrow> thread_ok t s (awake c b th)" for th t s
    by (cases th; auto simp: thread_ok_def)+
  then show ?thesis
    using w by (simp add: mon_inv_def)
qed

lemma mon_inv_step:
  assumes "mon_step prog calls t w w'" and w: "mon_inv w"
  shows "mon_inv w'"
  using assms(1)
proof cases
  case (Call op)
  then show ?thesis using outside by (auto intro!: mon_inv_keep [OF w] simp: thread_ok_def)
next
  case (Return op)
  then show ?thesis using outside by (auto intro!: mon_inv_keep [OF w])
next
  case (Lock op i m)
  note i = at_instr_law [OF w Lock(2)]
  show ?thesis
    using Lock(3) i mon_invD(3) [OF w] unfolding Lock(1) mutex_moves
    by (intro mon_inv_acquire [OF w]) (auto simp: monitor_law_def thread_ok_def)
next
  case (Unlock op i)
  note i = at_instr_law [OF w Unlock(2)]
  show ?thesis
    using i unfolding Unlock(1) mutex_moves
    by (intro mon_inv_release [OF w]) (auto simp: monitor_law_def thread_ok_def)
next
  case (Wait op i c P)
  note i = at_instr_law [OF w Wait(2)]
  then have "good (wd_state w)"
    using Wait(3) by (fastforce simp: monitor_law_def)
  then show ?thesis
    using i unfolding Wait(1) mutex_moves
    by (intro mon_inv_release [OF w]) (auto simp: monitor_law_def thread_ok_def)
next
  case (Pass op i c P)
  note i = at_instr_law [OF w Pass(2)]
  then have "know op (i + 1) t (wd_state w)"
    using Pass(3) by (fastforce simp: monitor_law_def)
  then show ?thesis
    using i unfolding Pass(1) by (intro mon_inv_keep [OF w]) (auto simp: monitor_law_def thread_ok_def)
next
  case (Wake op i c)
  then show ?thesis using wake_step [OF w] by simp
next
  case (Relock op i m)
  then have "thread_ok t (wd_state w) (Woken op i)" "good (wd_state w)"
    using mon_invD(2,3) [OF w] unfolding mutex_moves by metis+
  then have "held op i" "know op i t (wd_state w)" "i \<le> length (prog op)"
    using law [of i op] by (auto simp: thread_ok_def monitor_law_def)
  then show ?thesis
    using Relock(3) unfolding Relock(1) mutex_moves
    by (intro mon_inv_acquire [OF w]) (auto simp: thread_ok_def)
next
  case (Do op i f s)
  then show ?thesis using do_step [OF w] by simp
next
  case (Notify_one op i c g u op' j)
  then have "u \<noteq> t"
    by (auto simp: at_instr_def)
  then show ?thesis
    using wake_step [of "set_thread t (Running op (i + 1)) w" u op' j c] notify_step [OF w Notify_one(2)] Notify_one
    by (simp add: fun_upd_twist)
next
  case (Notify_none op i c g)
  then show ?thesis using notify_step [OF w] by simp
next
  case (Notify_all op i c g)
  have "at_instr prog (w\<lparr>wd_thread := awake c (g t (wd_state w)) \<circ> wd_thread w\<rparr>) t op i (NotifyAllIf c g)"
    using Notify_all(2) by (simp add: at_instr_def)
  from notify_step [OF wake_all [OF w] this] show ?thesis
    by (simp add: Notify_all(1))
next
  case (Goto op i f)
  note i = at_instr_law [OF w Goto(2)]
  then show ?thesis
    unfolding Goto(1) by (intro mon_inv_keep [OF w]) (auto simp: monitor_law_def thread_ok_def)
qed

lemma reachable_inv:
  assumes "reachable_from prog calls T s0 w" and "good s0"
  shows "mon_inv w"
  using assms(1)
proof induction
  case Start
  show ?case using assms(2) by (simp add: mon_inv_def MutexLock_ctor_def)
next
  case (Step w t w')
  then show ?case using mon_inv_step by blast
qed

text \<open>No assertion fails, the mutex excludes, and the state is good whenever the mutex is free.\<close>

lemma never_aborts: "mon_inv w \<Longrightarrow> \<not> aborts prog w"
proof
  assume w: "mon_inv w" and "aborts prog w"
  then consider t op i f where "at_instr prog w t op i (Do f)" "f t (wd_mutex w) (wd_state w) = None"
    | t op i c P where "at_instr prog w t op i (WaitWhile c P)" "P t (wd_mutex w) (wd_state w) = None"
    unfolding aborts_def by blast
  then show False
  proof cases
    case 1
    then show False using do_law [OF w 1(1)] by auto
  next
    case 2
    note i = at_instr_law [OF w 2(1)]
    then show False using 2(2) by (fastforce simp: monitor_law_def)
  qed
qed

lemma mutual_exclusion:
  "mon_inv w \<Longrightarrow> owns (wd_thread w t) \<Longrightarrow> owns (wd_thread w u) \<Longrightarrow> t = u"
  by (simp add: mon_inv_def)

lemma running_can_step:
  assumes w: "mon_inv w" and t: "wd_thread w t = Running op i"
    and m: "mx_mutex (wd_mutex w) = None \<or> mx_mutex (wd_mutex w) = Some t"
  shows "\<exists>w'. mon_step prog calls t w w'"
proof (cases "i = length (prog op)")
  case True
  then show ?thesis using t mon_step.Return [of w t op prog calls] by auto
next
  case False
  then have "i < length (prog op)"
    using mon_invD(2) [OF w, of t] t by (simp add: thread_ok_def)
  then have at: "at_instr prog w t op i (prog op ! i)"
    using t by (simp add: at_instr_def)
  note i = at_instr_law [OF w at]
  show ?thesis
  proof (cases "prog op ! i")
    case Lock
    then have "mx_mutex (wd_mutex w) = None"
      using i m by (auto simp: monitor_law_def)
    then have "MutexLock_lock t (wd_mutex w) = Some \<lparr>mx_mutex = Some t, mx_holder = t\<rparr>"
      by (simp add: mutex_moves)
    from mon_step.Lock [OF at [unfolded Lock] this] show ?thesis by (rule exI)
  next
    case Unlock
    from mon_step.Unlock [OF at [unfolded Unlock]] show ?thesis by (rule exI)
  next
    case (WaitWhile c P)
    then have "P t (wd_mutex w) (wd_state w) \<noteq> None"
      using never_aborts [OF w] at unfolding aborts_def by metis
    then consider "P t (wd_mutex w) (wd_state w) = Some True" | "P t (wd_mutex w) (wd_state w) = Some False"
      by fastforce
    then show ?thesis
    proof cases
      case 1
      from mon_step.Wait [OF at [unfolded WaitWhile] 1] show ?thesis by (rule exI)
    next
      case 2
      from mon_step.Pass [OF at [unfolded WaitWhile] 2] show ?thesis by (rule exI)
    qed
  next
    case (Do f)
    from do_law [OF w at [unfolded Do]] obtain s where "f t (wd_mutex w) (wd_state w) = Some s" .
    from mon_step.Do [OF at [unfolded Do] this] show ?thesis by (rule exI)
  next
    case (NotifyIf c g)
    show ?thesis
    proof (cases "g t (wd_state w) \<longrightarrow> (\<forall>u op' j. wd_thread w u \<noteq> Waiting op' j c)")
      case True
      from mon_step.Notify_none [OF at [unfolded NotifyIf] this] show ?thesis by (rule exI)
    next
      case False
      then obtain u op' j where "g t (wd_state w)" "wd_thread w u = Waiting op' j c" by blast
      from mon_step.Notify_one [OF at [unfolded NotifyIf] this] show ?thesis by (rule exI)
    qed
  next
    case (NotifyAllIf c g)
    from mon_step.Notify_all [OF at [unfolded NotifyAllIf]] show ?thesis by (rule exI)
  next
    case (Goto f)
    from mon_step.Goto [OF at [unfolded Goto]] show ?thesis by (rule exI)
  qed
qed

lemma quiescent_threads:
  assumes w: "mon_inv w" and q: "quiescent prog T w" and T: "\<And>u. u \<notin> T \<Longrightarrow> wd_thread w u = Idle"
  shows "wd_thread w t = Idle \<or> (\<exists>op i c. wd_thread w t = Waiting op i c)"
proof -
  have free: "mx_mutex (wd_mutex w) = None"
  proof (rule ccontr)
    assume "mx_mutex (wd_mutex w) \<noteq> None"
    then obtain u where u: "mx_mutex (wd_mutex w) = Some u" by auto
    then obtain op i where r: "wd_thread w u = Running op i"
      using mon_invD(1) [OF w, of u] by (auto simp: owns_def split: thread.splits)
    moreover have "u \<in> T"
      using T [of u] r by auto
    ultimately show False
      using running_can_step [OF w r] u q unfolding quiescent_def by fastforce
  qed
  show ?thesis
  proof (cases "t \<in> T")
    case True
    have "\<not> (\<exists>w'. mon_step prog (\<lambda>_ _. False) t w w')" if "\<nexists>op i c. wd_thread w t = Waiting op i c"
      using q True that unfolding quiescent_def by blast
    moreover have "\<exists>w'. mon_step prog (\<lambda>_ _. False) t w w'" if "wd_thread w t = Running op i" for op i
      using running_can_step [OF w that] free by blast
    moreover have "\<exists>w'. mon_step prog (\<lambda>_ _. False) t w w'" if "wd_thread w t = Woken op i" for op i
      using mon_step.Relock [OF that] free mutex_moves(2) by blast
    ultimately show ?thesis by (cases "wd_thread w t") auto
  qed (simp add: T)
qed

end

lemma reachable_outside:
  assumes "reachable_from prog calls T s0 w" and "u \<notin> T"
  shows "wd_thread w u = Idle"
  using assms(1)
proof induction
  case (Step w t w')
  have "t \<noteq> u" using Step.hyps(2) assms(2) by auto
  with Step.hyps(3) Step.IH show ?case
    by (cases rule: mon_step.cases) auto
qed simp

subsection \<open>Notifications\<close>

text \<open>\<open>avail\<close> counts what the waiters of the condition \<open>cnd\<close> wait for, \<open>tok\<close> what a thread that is
  under way will still do about it: consume a unit, or notify. A notification hands \<open>gain\<close> to
  the thread it wakes.\<close>

definition is_wait :: "('c, 's) instr \<Rightarrow> bool" where
  "is_wait ins \<longleftrightarrow> (\<exists>c P. ins = WaitWhile c P)"

lemma is_wait_simps [simp]:
  "is_wait (WaitWhile c P)" "\<not> is_wait Lock" "\<not> is_wait Unlock" "\<not> is_wait (Do f)" "\<not> is_wait (NotifyIf c g)"
  "\<not> is_wait (NotifyAllIf c g)" "\<not> is_wait (Goto h)"
  by (simp_all add: is_wait_def)

definition signal_law ::
    "('op \<Rightarrow> ('c, 's) instr list) \<Rightarrow> ('op \<Rightarrow> nat \<Rightarrow> bool) \<Rightarrow> ('op \<Rightarrow> nat \<Rightarrow> tid \<Rightarrow> 's \<Rightarrow> bool) \<Rightarrow> 'c \<Rightarrow> nat \<Rightarrow> ('s \<Rightarrow> nat) \<Rightarrow>
     ('op \<Rightarrow> nat \<Rightarrow> tid \<Rightarrow> 's \<Rightarrow> nat) \<Rightarrow> 'op \<Rightarrow> nat \<Rightarrow> bool" where
  "signal_law prog held know cnd gain avail tok op i \<longleftrightarrow>
     (case prog op ! i of
        Lock \<Rightarrow> \<forall>t s. tok op i t s \<le> tok op (i + 1) t s
      | Unlock \<Rightarrow> \<forall>t s. tok op i t s \<le> tok op (i + 1) t s
      | WaitWhile c P \<Rightarrow>
          (\<forall>t m s. know op i t s \<and> P t m s = Some False \<longrightarrow> tok op i t s \<le> tok op (i + 1) t s) \<and>
          (if c = cnd then (\<forall>t m s. know op i t s \<and> P t m s = Some True \<longrightarrow> avail s = 0) \<and> (\<forall>t s. gain \<le> tok op i t s)
           else \<forall>t s. tok op i t s = 0)
      | Do f \<Rightarrow> \<forall>t m s s'. (held op i \<longrightarrow> know op i t s) \<and> f t m s = Some s' \<longrightarrow>
          (avail s' = 0 \<or> avail s' + tok op i t s \<le> avail s + tok op (i + 1) t s') \<and>
          (\<forall>op' i' t'. t' \<noteq> t \<and> (held op i \<and> held op' i' \<longrightarrow> is_wait (prog op' ! i')) \<longrightarrow> tok op' i' t' s' = tok op' i' t' s)
      | NotifyIf c g \<Rightarrow> \<forall>t s. know op i t s \<longrightarrow>
          tok op i t s \<le> tok op (i + 1) t s + (if c = cnd \<and> g t s then gain else 0)
      | NotifyAllIf c g \<Rightarrow> \<forall>t s. know op i t s \<longrightarrow> (c = cnd \<and> g t s) \<or> tok op i t s \<le> tok op (i + 1) t s
      | Goto f \<Rightarrow> \<forall>t s. tok op i t s \<le> tok op (f t s) t s)"

locale signalled = monitor prog held good know
  for prog :: "'op \<Rightarrow> ('c, 's) instr list" and held :: "'op \<Rightarrow> nat \<Rightarrow> bool"
    and good :: "'s \<Rightarrow> bool" and know :: "'op \<Rightarrow> nat \<Rightarrow> tid \<Rightarrow> 's \<Rightarrow> bool" +
  fixes cnd :: 'c and gain :: nat and avail :: "'s \<Rightarrow> nat" and tok :: "'op \<Rightarrow> nat \<Rightarrow> tid \<Rightarrow> 's \<Rightarrow> nat"
  assumes tok_end: "tok op (length (prog op)) t s = 0"
    and signals: "i < length (prog op) \<Longrightarrow> signal_law prog held know cnd gain avail tok op i"
begin

definition tokens :: "tid \<Rightarrow> 's \<Rightarrow> ('op, 'c) thread \<Rightarrow> nat" where
  "tokens t s th = (case th of Running op i \<Rightarrow> tok op i t s | Woken op i \<Rightarrow> tok op i t s | _ \<Rightarrow> 0)"

definition someone_waits :: "('op, 'c, 's) world \<Rightarrow> bool" where
  "someone_waits w \<longleftrightarrow> (\<exists>t op i. wd_thread w t = Waiting op i cnd)"

definition sig_inv :: "tid set \<Rightarrow> ('op, 'c, 's) world \<Rightarrow> bool" where
  "sig_inv T w \<longleftrightarrow> (someone_waits w \<longrightarrow> avail (wd_state w) \<le> (\<Sum>t\<in>T. tokens t (wd_state w) (wd_thread w t)))"

lemma tokens_simps [simp]:
  "tokens t s Idle = 0" "tokens t s (Running op i) = tok op i t s" "tokens t s (Woken op i) = tok op i t s"
  "tokens t s (Waiting op i c) = 0"
  by (simp_all add: tokens_def)

text \<open>One thread goes on and loses no token.\<close>

lemma sig_inv_keep:
  assumes "finite T" "t \<in> T" "sig_inv T w" and "tokens t (wd_state w) (wd_thread w t) \<le> tokens t (wd_state w) th"
    and "\<And>op i. th \<noteq> Waiting op i cnd"
  shows "sig_inv T (set_thread t th w)"
proof -
  have "(\<Sum>u\<in>T. tokens u (wd_state w) (wd_thread w u)) \<le> (\<Sum>u\<in>T. tokens u (wd_state w) (((wd_thread w)(t := th)) u))"
    by (rule sum_mono) (use assms(4) in auto)
  moreover have "someone_waits w" if "someone_waits (set_thread t th w)"
    using that assms(5) unfolding someone_waits_def by (auto split: if_splits)
  ultimately show ?thesis
    using assms(3) unfolding sig_inv_def by fastforce
qed

lemma sig_inv_mutex [simp]: "sig_inv T (w\<lparr>wd_mutex := m\<rparr>) = sig_inv T w"
  by (simp add: sig_inv_def someone_waits_def)

lemma sig_inv_do:
  assumes T: "finite T" "t \<in> T" and inv: "sig_inv T w" and th: "wd_thread w t = Running op i"
    and more: "avail s = 0 \<or> avail s + tok op i t (wd_state w) \<le> avail (wd_state w) + tok op (i + 1) t s"
    and others: "\<And>u. u \<noteq> t \<Longrightarrow> tokens u s (wd_thread w u) = tokens u (wd_state w) (wd_thread w u)"
  shows "sig_inv T (set_thread t (Running op (i + 1)) (w\<lparr>wd_state := s\<rparr>))"
proof -
  define rest where "rest = (\<Sum>u\<in>T - {t}. tokens u (wd_state w) (wd_thread w u))"
  have "(\<Sum>u\<in>T. tokens u (wd_state w) (wd_thread w u)) = tok op i t (wd_state w) + rest"
    using sum.remove [OF T, of "\<lambda>u. tokens u (wd_state w) (wd_thread w u)"] th by (simp add: rest_def)
  moreover have "(\<Sum>u\<in>T. tokens u s (((wd_thread w)(t := Running op (i + 1))) u)) = tok op (i + 1) t s + rest"
    using sum.remove [OF T, of "\<lambda>u. tokens u s (((wd_thread w)(t := Running op (i + 1))) u)"] others
    by (simp add: rest_def)
  moreover have "someone_waits w" if "someone_waits (set_thread t (Running op (i + 1)) (w\<lparr>wd_state := s\<rparr>))"
    using that unfolding someone_waits_def by (auto split: if_splits)
  ultimately show ?thesis
    using inv more unfolding sig_inv_def by auto
qed

lemma signal_at:
  assumes "mon_inv w" and "at_instr prog w t op i ins"
  shows "signal_law prog held know cnd gain avail tok op i" "prog op ! i = ins" "wd_thread w t = Running op i"
    "held op i \<Longrightarrow> know op i t (wd_state w)"
  using at_instr_law [OF assms] signals by auto

lemma signal_wait:
  assumes w: "mon_inv w" "sig_inv T w" and T: "finite T" "t \<in> T"
    and at: "at_instr prog w t op i (WaitWhile c P)" and P: "P t (wd_mutex w) (wd_state w) = Some True"
  shows "sig_inv T (set_thread t (Waiting op i c) w)"
proof -
  note i = signal_at [OF w(1) at]
  have k: "know op i t (wd_state w)"
    using at_instr_law [OF w(1) at] by (simp add: monitor_law_def)
  show ?thesis
  proof (cases "c = cnd")
    case True
    then have "avail (wd_state w) = 0"
      using i(1,2) P k by (auto simp: signal_law_def)
    then show ?thesis by (simp add: sig_inv_def)
  next
    case False
    then have "tok op i t (wd_state w) = 0"
      using i(1,2) by (simp add: signal_law_def)
    then show ?thesis
      using False i(3) by (intro sig_inv_keep [OF T w(2)]) auto
  qed
qed

lemma signal_notify_one:
  assumes w: "mon_inv w" "sig_inv T w" and T: "finite T" "t \<in> T" "u \<in> T"
    and at: "at_instr prog w t op i (NotifyIf c g)" and u: "wd_thread w u = Waiting op' j c"
  shows "sig_inv T (set_thread u (Woken op' j) (set_thread t (Running op (i + 1)) w))"
proof -
  define h where "h = (\<lambda>v. tokens v (wd_state w) (wd_thread w v))"
  define h' where "h' = (\<lambda>v. tokens v (wd_state w) (((wd_thread w)(t := Running op (i + 1), u := Woken op' j)) v))"
  note i = signal_at [OF w(1) at]
  have k: "know op i t (wd_state w)"
    using at_instr_law [OF w(1) at] by (simp add: monitor_law_def)
  have "\<forall>t s. know op i t s \<longrightarrow> tok op i t s \<le> tok op (i + 1) t s + (if c = cnd \<and> g t s then gain else 0)"
    using i(1,2) by (simp add: signal_law_def)
  from this [rule_format, OF k] have law1: "tok op i t (wd_state w) \<le> tok op (i + 1) t (wd_state w) + (if c = cnd then gain else 0)"
    by (simp split: if_splits)
  have ut: "u \<noteq> t"
    using u i(3) by auto
  have le: "h t + h u \<le> h' t + h' u"
  proof (cases "c = cnd")
    case True
    have "thread_ok u (wd_state w) (Waiting op' j cnd)"
      using mon_invD(2) [OF w(1), of u] u True by simp
    then have "gain \<le> tok op' j u (wd_state w)"
      using signals [of j op'] by (auto simp: thread_ok_def signal_law_def)
    moreover have "tok op i t (wd_state w) \<le> tok op (i + 1) t (wd_state w) + gain"
      using law1 True by simp
    ultimately show ?thesis
      using u ut i(3) by (simp add: h_def h'_def)
  next
    case False
    then have "tok op i t (wd_state w) \<le> tok op (i + 1) t (wd_state w)"
      using law1 by simp
    then show ?thesis
      using u ut i(3) by (simp add: h_def h'_def)
  qed
  have "sum k T = k t + (k u + sum k (T - {t} - {u}))" for k :: "tid \<Rightarrow> nat"
    using sum.remove [OF T(1,2), of k] sum.remove [of "T - {t}" u k] T ut by simp
  note split = this [of h] this [of h']
  moreover have "sum h (T - {t} - {u}) = sum h' (T - {t} - {u})"
    by (rule sum.cong) (auto simp: h_def h'_def)
  ultimately have "sum h T \<le> sum h' T"
    using le by linarith
  moreover have "someone_waits w" if "someone_waits (set_thread u (Woken op' j) (set_thread t (Running op (i + 1)) w))"
    using that unfolding someone_waits_def by (auto split: if_splits)
  ultimately show ?thesis
    using w(2) unfolding sig_inv_def h_def h'_def by auto
qed

lemma signal_notify_all:
  assumes w: "mon_inv w" "sig_inv T w" and T: "finite T" "t \<in> T" and at: "at_instr prog w t op i (NotifyAllIf c g)"
  shows "sig_inv T (set_thread t (Running op (i + 1)) (w\<lparr>wd_thread := awake c (g t (wd_state w)) \<circ> wd_thread w\<rparr>))"
proof -
  define b where "b = g t (wd_state w)"
  note i = signal_at [OF w(1) at]
  have k: "know op i t (wd_state w)"
    using at_instr_law [OF w(1) at] by (simp add: monitor_law_def)
  have awake: "awake c b th = Waiting op' j c' \<longleftrightarrow> th = Waiting op' j c' \<and> \<not> (c' = c \<and> b)"
    "tokens v s th \<le> tokens v s (awake c b th)" for th op' j c' v s
    by (cases th; auto)+
  show ?thesis
  proof (cases "c = cnd \<and> b")
    case True
    then have "\<not> someone_waits (set_thread t (Running op (i + 1)) (w\<lparr>wd_thread := awake c b \<circ> wd_thread w\<rparr>))"
      using awake(1) unfolding someone_waits_def by (auto split: if_splits)
    then show ?thesis by (simp add: sig_inv_def b_def)
  next
    case False
    then have le: "tok op i t (wd_state w) \<le> tok op (i + 1) t (wd_state w)"
      using i(1,2) k by (auto simp: signal_law_def b_def)
    have "sig_inv T (w\<lparr>wd_thread := awake c b \<circ> wd_thread w\<rparr>)"
    proof -
      have "(\<Sum>t\<in>T. tokens t (wd_state w) (wd_thread w t)) \<le> (\<Sum>t\<in>T. tokens t (wd_state w) (awake c b (wd_thread w t)))"
        by (rule sum_mono) (rule awake(2))
      moreover have "someone_waits w" if "someone_waits (w\<lparr>wd_thread := awake c b \<circ> wd_thread w\<rparr>)"
        using that awake(1) unfolding someone_waits_def by auto
      ultimately show ?thesis
        using w(2) unfolding sig_inv_def by fastforce
    qed
    from sig_inv_keep [OF T this, of "Running op (i + 1)"] show ?thesis
      using le i(3) by (simp add: b_def)
  qed
qed

lemma sig_inv_step:
  assumes "mon_step prog calls t w w'" and w: "mon_inv w" "sig_inv T w" and T: "finite T" "t \<in> T"
    and out: "\<And>u. u \<notin> T \<Longrightarrow> wd_thread w u = Idle"
  shows "sig_inv T w'"
  using assms(1)
proof cases
  case (Call op)
  then show ?thesis by (auto intro: sig_inv_keep [OF T w(2)])
next
  case (Return op)
  then show ?thesis by (auto intro: sig_inv_keep [OF T w(2)] simp: tok_end)
next
  case (Lock op i m)
  note i = signal_at [OF w(1) Lock(2)]
  show ?thesis
    unfolding Lock(1) by (rule sig_inv_keep [OF T]) (use i w(2) in \<open>auto simp: signal_law_def\<close>)
next
  case (Unlock op i)
  note i = signal_at [OF w(1) Unlock(2)]
  show ?thesis
    unfolding Unlock(1) by (rule sig_inv_keep [OF T]) (use i w(2) in \<open>auto simp: signal_law_def\<close>)
next
  case (Wait op i c P)
  have "set_thread t (Waiting op i c) (w\<lparr>wd_mutex := m\<rparr>) = (set_thread t (Waiting op i c) w)\<lparr>wd_mutex := m\<rparr>" for m
    by simp
  then show ?thesis
    unfolding Wait(1) using signal_wait [OF w T Wait(2,3)] by (simp only: sig_inv_mutex)
next
  case (Pass op i c P)
  note i = signal_at [OF w(1) Pass(2)]
  have "know op i t (wd_state w)"
    using at_instr_law [OF w(1) Pass(2)] by (simp add: monitor_law_def)
  then have "tok op i t (wd_state w) \<le> tok op (i + 1) t (wd_state w)"
    using i(1,2) Pass(3) by (auto simp: signal_law_def)
  then show ?thesis
    unfolding Pass(1) using i by (intro sig_inv_keep [OF T w(2)]) auto
next
  case (Wake op i c)
  then show ?thesis by (auto intro: sig_inv_keep [OF T w(2)])
next
  case (Relock op i m)
  show ?thesis
    unfolding Relock(1) by (rule sig_inv_keep [OF T]) (use Relock w(2) in auto)
next
  case (Do op i f s)
  note i = signal_at [OF w(1) Do(2)]
  have "\<forall>t m s s'. (held op i \<longrightarrow> know op i t s) \<and> f t m s = Some s' \<longrightarrow>
          (avail s' = 0 \<or> avail s' + tok op i t s \<le> avail s + tok op (i + 1) t s') \<and>
          (\<forall>op' i' t'. t' \<noteq> t \<and> (held op i \<and> held op' i' \<longrightarrow> is_wait (prog op' ! i')) \<longrightarrow> tok op' i' t' s' = tok op' i' t' s)"
    using i(1) unfolding signal_law_def i(2) instr.case .
  then have step: "avail s = 0 \<or> avail s + tok op i t (wd_state w) \<le> avail (wd_state w) + tok op (i + 1) t s"
      "\<And>op' i' t'. t' \<noteq> t \<Longrightarrow> held op i \<and> held op' i' \<longrightarrow> is_wait (prog op' ! i') \<Longrightarrow> tok op' i' t' s = tok op' i' t' (wd_state w)"
    using Do(3) i(4) by blast+
  have "tokens u s (wd_thread w u) = tokens u (wd_state w) (wd_thread w u)" if "u \<noteq> t" for u
  proof (cases "wd_thread w u")
    case (Running op' i')
    have "\<not> (held op i \<and> held op' i')"
      using mutual_exclusion [OF w(1), of t u] that i(3) Running by auto
    with step(2) [OF that, of op' i'] Running show ?thesis by simp
  next
    case (Woken op' i')
    then have "is_wait (prog op' ! i')"
      using mon_invD(2) [OF w(1), of u] by (auto simp: thread_ok_def)
    with step(2) [OF that, of op' i'] Woken show ?thesis by simp
  qed simp_all
  with step(1) show ?thesis
    unfolding Do(1) by (rule sig_inv_do [OF T w(2) i(3)])
next
  case (Notify_one op i c g u op' j)
  then have "u \<in> T"
    using out by fastforce
  then show ?thesis
    unfolding Notify_one(1) using signal_notify_one [OF w T _ Notify_one(2,4)] by blast
next
  case (Notify_none op i c g)
  note i = signal_at [OF w(1) Notify_none(2)]
  have k: "know op i t (wd_state w)"
    using at_instr_law [OF w(1) Notify_none(2)] by (simp add: monitor_law_def)
  show ?thesis
  proof (cases "c = cnd \<and> g t (wd_state w)")
    case True
    then have "\<not> someone_waits w'"
      using Notify_none(1,3) unfolding someone_waits_def by (auto split: if_splits)
    then show ?thesis by (simp add: sig_inv_def)
  next
    case False
    moreover have "\<forall>t s. know op i t s \<longrightarrow> tok op i t s \<le> tok op (i + 1) t s + (if c = cnd \<and> g t s then gain else 0)"
      using i(1,2) by (simp add: signal_law_def)
    from this [rule_format, OF k] have "tok op i t (wd_state w) \<le> tok op (i + 1) t (wd_state w)"
      using False by simp
    ultimately show ?thesis
      unfolding Notify_none(1) using i by (intro sig_inv_keep [OF T w(2)]) auto
  qed
next
  case (Notify_all op i c g)
  then show ?thesis using signal_notify_all [OF w T] by simp
next
  case (Goto op i f)
  note i = signal_at [OF w(1) Goto(2)]
  show ?thesis
    unfolding Goto(1) by (rule sig_inv_keep [OF T w(2)]) (use i in \<open>auto simp: signal_law_def\<close>)
qed

lemma reachable_sig_inv:
  assumes "reachable_from prog calls T s0 w" and "good s0" and T: "finite T"
  shows "sig_inv T w"
  using assms(1)
proof induction
  case Start
  show ?case by (simp add: sig_inv_def someone_waits_def)
next
  case (Step w t w')
  then show ?case
    using sig_inv_step [OF Step.hyps(3) reachable_inv [OF Step.hyps(1) assms(2)] Step.IH T Step.hyps(2)]
      reachable_outside [OF Step.hyps(1)] by blast
qed

text \<open>When nothing moves, a thread that waits has nothing to take.\<close>

lemma no_sleeper:
  assumes "reachable_from prog calls T s0 w" and "good s0" and "finite T" and "quiescent prog T w"
    and "wd_thread w t = Waiting op i cnd"
  shows "avail (wd_state w) = 0"
proof -
  have "tokens u (wd_state w) (wd_thread w u) = 0" for u
    using quiescent_threads [OF reachable_inv [OF assms(1,2)] assms(4) reachable_outside [OF assms(1)], of u]
    by auto
  then show ?thesis
    using reachable_sig_inv [OF assms(1,2,3)] assms(5) by (auto simp: sig_inv_def someone_waits_def)
qed

end

subsection \<open>Executing a schedule\<close>

text \<open>One step of a thread, with the first waiting thread of a list notified, and a schedule: a
  thread calls an operation or goes on.\<close>

definition waits_for :: "'c \<Rightarrow> ('op, 'c) thread \<Rightarrow> bool" where
  "waits_for c th \<longleftrightarrow> (case th of Waiting op i c' \<Rightarrow> c' = c | _ \<Rightarrow> False)"

fun go_on :: "('op \<Rightarrow> ('c, 's) instr list) \<Rightarrow> tid list \<Rightarrow> tid \<Rightarrow> ('op, 'c, 's) world \<Rightarrow> ('op, 'c, 's) world option" where
  "go_on prog ts t w =
     (case wd_thread w t of
        Idle \<Rightarrow> None
      | Waiting op i c \<Rightarrow> None
      | Woken op i \<Rightarrow> do { m \<leftarrow> Condition_wait_end t (wd_mutex w); Some (set_thread t (Running op i) (w\<lparr>wd_mutex := m\<rparr>)) }
      | Running op i \<Rightarrow>
          if i = length (prog op) then Some (set_thread t Idle w)
          else if length (prog op) < i then None
          else (let next = set_thread t (Running op (i + 1)) in
            case prog op ! i of
              Lock \<Rightarrow> do { m \<leftarrow> MutexLock_lock t (wd_mutex w); Some (next (w\<lparr>wd_mutex := m\<rparr>)) }
            | Unlock \<Rightarrow> Some (next (w\<lparr>wd_mutex := MutexLock_unlock (wd_mutex w)\<rparr>))
            | WaitWhile c P \<Rightarrow> do {
                b \<leftarrow> P t (wd_mutex w) (wd_state w);
                Some (if b then set_thread t (Waiting op i c) (w\<lparr>wd_mutex := Condition_wait_begin (wd_mutex w)\<rparr>) else next w) }
            | Do f \<Rightarrow> do { s \<leftarrow> f t (wd_mutex w) (wd_state w); Some (next (w\<lparr>wd_state := s\<rparr>)) }
            | NotifyIf c g \<Rightarrow>
                (if g t (wd_state w) then
                   (case filter (\<lambda>u. waits_for c (wd_thread w u)) ts of
                      [] \<Rightarrow> Some (next w)
                    | u # _ \<Rightarrow> Some ((next w)\<lparr>wd_thread := (wd_thread (next w))(u := awake c True (wd_thread w u))\<rparr>))
                 else Some (next w))
            | NotifyAllIf c g \<Rightarrow> Some (next (w\<lparr>wd_thread := awake c (g t (wd_state w)) \<circ> wd_thread w\<rparr>))
            | Goto f \<Rightarrow> Some (set_thread t (Running op (f t (wd_state w))) w)))"

fun schedule :: "('op \<Rightarrow> ('c, 's) instr list) \<Rightarrow> tid list \<Rightarrow> (tid \<times> 'op option) list \<Rightarrow> ('op, 'c, 's) world \<Rightarrow> ('op, 'c, 's) world option" where
  "schedule prog ts [] w = Some w"
| "schedule prog ts ((t, Some op) # sched) w =
     (case wd_thread w t of Idle \<Rightarrow> schedule prog ts sched (set_thread t (Running op 0) w) | _ \<Rightarrow> None)"
| "schedule prog ts ((t, None) # sched) w = do { w \<leftarrow> go_on prog ts t w; schedule prog ts sched w }"

lemma waits_for_awake: "waits_for c th \<Longrightarrow> \<exists>op i. th = Waiting op i c \<and> awake c True th = Woken op i"
  by (cases th) (auto simp: waits_for_def)

lemma go_on_step:
  assumes "go_on prog ts t w = Some w'" and out: "\<And>u. u \<notin> set ts \<Longrightarrow> wd_thread w u = Idle"
  shows "mon_step prog calls t w w'"
proof (cases "wd_thread w t")
  case (Running op i)
  show ?thesis
  proof (cases "i < length (prog op)")
    case False
    then show ?thesis
      using assms(1) Running mon_step.Return [of w t op prog calls] by (auto split: if_splits)
  next
    case True
    then have at: "at_instr prog w t op i (prog op ! i)"
      using Running by (simp add: at_instr_def)
    show ?thesis
    proof (cases "prog op ! i")
      case Lock
      then show ?thesis
        using assms(1) Running True mon_step.Lock [OF at [unfolded Lock]] by (auto split: if_splits elim!: bind_eq_SomeE)
    next
      case Unlock
      then show ?thesis
        using assms(1) Running True mon_step.Unlock [OF at [unfolded Unlock]] by (auto split: if_splits)
    next
      case (WaitWhile c P)
      then obtain b where b: "P t (wd_mutex w) (wd_state w) = Some b" "w' = (if b
          then set_thread t (Waiting op i c) (w\<lparr>wd_mutex := Condition_wait_begin (wd_mutex w)\<rparr>)
          else set_thread t (Running op (i + 1)) w)"
        using assms(1) Running True by (auto split: if_splits elim!: bind_eq_SomeE)
      then show ?thesis
        using mon_step.Wait [OF at [unfolded WaitWhile]] mon_step.Pass [OF at [unfolded WaitWhile]] by (cases b) simp_all
    next
      case (Do f)
      then show ?thesis
        using assms(1) Running True mon_step.Do [OF at [unfolded Do]] by (auto split: if_splits elim!: bind_eq_SomeE)
    next
      case (NotifyAllIf c g)
      then show ?thesis
        using assms(1) Running True mon_step.Notify_all [OF at [unfolded NotifyAllIf]] by (auto split: if_splits)
    next
      case (Goto f)
      then show ?thesis
        using assms(1) Running True mon_step.Goto [OF at [unfolded Goto]] by (auto split: if_splits)
    next
      case (NotifyIf c g)
      show ?thesis
      proof (cases "g t (wd_state w) \<and> filter (\<lambda>u. waits_for c (wd_thread w u)) ts \<noteq> []")
        case True
        then obtain u us where u: "filter (\<lambda>u. waits_for c (wd_thread w u)) ts = u # us"
          by (cases "filter (\<lambda>u. waits_for c (wd_thread w u)) ts") auto
        then have "waits_for c (wd_thread w u)"
          by (metis Cons_eq_filterD)
        from waits_for_awake [OF this] obtain op' j where j: "wd_thread w u = Waiting op' j c"
            "awake c True (wd_thread w u) = Woken op' j"
          by (elim exE conjE)
        have "w' = set_thread u (Woken op' j) (set_thread t (Running op (i + 1)) w)"
          using assms(1) Running \<open>i < length (prog op)\<close> NotifyIf True u j by (simp add: Let_def)
        moreover have "mon_step prog calls t w (set_thread u (Woken op' j) (set_thread t (Running op (i + 1)) w))"
          by (rule mon_step.Notify_one [OF at [unfolded NotifyIf] _ j(1)]) (use True in simp)
        ultimately show ?thesis by simp
      next
        case False
        then have w': "w' = set_thread t (Running op (i + 1)) w"
          using assms(1) Running \<open>i < length (prog op)\<close> NotifyIf by (auto simp: Let_def split: if_splits)
        have "g t (wd_state w) \<longrightarrow> (\<forall>u op' j. wd_thread w u \<noteq> Waiting op' j c)"
        proof (intro impI allI notI)
          fix u op' j
          assume g: "g t (wd_state w)" and u: "wd_thread w u = Waiting op' j c"
          then have "u \<in> set ts" "waits_for c (wd_thread w u)"
            using out [of u] by (auto simp: waits_for_def)
          with g False show "False"
            by (auto simp: filter_empty_conv)
        qed
        from mon_step.Notify_none [OF at [unfolded NotifyIf] this] show ?thesis
          using w' by simp
      qed
    qed
  qed
next
  case (Woken op i)
  then show ?thesis
    using assms(1) mon_step.Relock [OF Woken] by (auto elim!: bind_eq_SomeE)
qed (use assms(1) in simp_all)

lemma schedule_reachable:
  assumes "schedule prog ts sched w = Some w'" and "reachable_from prog calls (set ts) s0 w"
    and "fst ` set sched \<subseteq> set ts" and "\<forall>t op. (t, Some op) \<in> set sched \<longrightarrow> calls t op"
  shows "reachable_from prog calls (set ts) s0 w'"
  using assms
proof (induction prog ts sched w rule: schedule.induct)
  case (2 prog ts t op sched w)
  then have idle: "wd_thread w t = Idle"
    by (auto split: thread.splits)
  have "reachable_from prog calls (set ts) s0 (set_thread t (Running op 0) w)"
    by (rule reachable_from.Step [OF "2.prems"(2) _ mon_step.Call [OF idle]]) (use "2.prems" in auto)
  with 2 idle show ?case by simp
next
  case (3 prog ts t sched w)
  then obtain w1 where w1: "go_on prog ts t w = Some w1" "schedule prog ts sched w1 = Some w'"
    by (auto elim: bind_eq_SomeE)
  have "mon_step prog calls t w w1"
    by (rule go_on_step [OF w1(1) reachable_outside [OF "3.prems"(2)]])
  then have "reachable_from prog calls (set ts) s0 w1"
    using reachable_from.Step [OF "3.prems"(2)] "3.prems"(3) by fastforce
  with 3 w1 show ?case by fastforce
qed simp

lemma quiescentI:
  assumes "\<And>t. t \<in> T \<Longrightarrow> wd_thread w t = Idle \<or> (\<exists>op i c. wd_thread w t = Waiting op i c)"
  shows "quiescent prog T w"
  unfolding quiescent_def
proof (intro ballI allI impI)
  fix t w'
  assume "t \<in> T" and "mon_step prog (\<lambda>_ _. False) t w w'"
  from this(2) assms [OF this(1)] show "\<exists>op i c. wd_thread w t = Waiting op i c"
    by (cases rule: mon_step.cases) (auto simp: at_instr_def)
qed

end
