(* ===== verification/Queues.thy ===== *)
theory Queues
  imports Monitor
begin

text \<open>
  The blocking queues and the latch (\<open>src/base/BlockingQueue.h\<close>, \<open>BoundedBlockingQueue.h\<close>,
  \<open>CountDownLatch.h\<close>, \<open>.cc\<close>).

  Each operation is its list of instructions. The records keep, beside the fields of the class,
  the values put and taken so far and what the observers returned to each thread. The circular
  buffer of the bounded queue is the list of its elements; inserting into it is an argument,
  with the documented behaviour of an insertion that finds room as a hypothesis.
\<close>

datatype queue_cond = notEmpty | notFull

text \<open>A critical section that spans the whole operation.\<close>

definition guarded :: "('op \<Rightarrow> ('c, 's) instr list) \<Rightarrow> 'op \<Rightarrow> nat \<Rightarrow> bool" where
  "guarded prog op i \<longleftrightarrow> 0 < i \<and> i < length (prog op)"

subsection \<open>BlockingQueue\<close>

record 'a blocking_queue =
  bq_queue :: "'a list"
  bq_put :: "'a list"
  bq_taken :: "'a list"
  bq_sizes :: "tid \<Rightarrow> nat option"

definition BlockingQueue_ctor :: "'a blocking_queue" where
  "BlockingQueue_ctor = \<lparr>bq_queue = [], bq_put = [], bq_taken = [], bq_sizes = (\<lambda>_. None)\<rparr>"

datatype 'a bq_op = Put 'a | Take | Size

type_synonym 'a bq_instr = "(queue_cond, 'a blocking_queue) instr"

definition bq_push :: "'a \<Rightarrow> tid \<Rightarrow> MutexLock \<Rightarrow> 'a blocking_queue \<Rightarrow> 'a blocking_queue option" where
  "bq_push x t m q = Some (q\<lparr>bq_queue := bq_queue q @ [x], bq_put := bq_put q @ [x]\<rparr>)"

definition bq_pop :: "tid \<Rightarrow> MutexLock \<Rightarrow> 'a blocking_queue \<Rightarrow> 'a blocking_queue option" where
  "bq_pop t m q = do {
     cassert (bq_queue q \<noteq> []);
     Some (q\<lparr>bq_queue := tl (bq_queue q), bq_taken := bq_taken q @ [hd (bq_queue q)]\<rparr>) }"

definition BlockingQueue_put :: "'a \<Rightarrow> 'a bq_instr list" where
  "BlockingQueue_put x = [Lock, Do (bq_push x), Notify notEmpty, Unlock]"

definition BlockingQueue_take :: "'a bq_instr list" where
  "BlockingQueue_take = [Lock, WaitWhile notEmpty (\<lambda>t m q. Some (bq_queue q = [])), Do bq_pop, Unlock]"

definition BlockingQueue_size :: "'a bq_instr list" where
  "BlockingQueue_size = [Lock, Do (\<lambda>t m q. Some (q\<lparr>bq_sizes := (bq_sizes q)(t \<mapsto> length (bq_queue q))\<rparr>)), Unlock]"

fun BlockingQueue_prog :: "'a bq_op \<Rightarrow> 'a bq_instr list" where
  "BlockingQueue_prog (Put x) = BlockingQueue_put x"
| "BlockingQueue_prog Take = BlockingQueue_take"
| "BlockingQueue_prog Size = BlockingQueue_size"

lemmas bq_defs = BlockingQueue_put_def BlockingQueue_take_def BlockingQueue_size_def bq_push_def bq_pop_def

text \<open>First in, first out: what was put is what was taken followed by what is in the queue.\<close>

definition bq_good :: "'a blocking_queue \<Rightarrow> bool" where
  "bq_good q \<longleftrightarrow> bq_put q = bq_taken q @ bq_queue q"

definition bq_know :: "'a bq_op \<Rightarrow> nat \<Rightarrow> tid \<Rightarrow> 'a blocking_queue \<Rightarrow> bool" where
  "bq_know op i t q \<longleftrightarrow> bq_good q \<and> (op = Take \<and> i = 2 \<longrightarrow> bq_queue q \<noteq> [])"

definition bq_tok :: "'a bq_op \<Rightarrow> nat \<Rightarrow> tid \<Rightarrow> 'a blocking_queue \<Rightarrow> nat" where
  "bq_tok op i t q = (case op of Put x \<Rightarrow> (if i = 2 then 1 else 0) | Take \<Rightarrow> (if i = 1 \<or> i = 2 then 1 else 0) | Size \<Rightarrow> 0)"

interpretation bq: signalled BlockingQueue_prog "guarded BlockingQueue_prog" bq_good bq_know
  notEmpty 1 "\<lambda>q. length (bq_queue q)" bq_tok
proof
  fix op :: "'a bq_op" and i t q
  show "\<not> guarded BlockingQueue_prog op 0" "\<not> guarded BlockingQueue_prog op (length (BlockingQueue_prog op))"
    by (simp_all add: guarded_def)
  show "bq_tok op (length (BlockingQueue_prog op)) t q = 0"
    by (cases op) (simp_all add: bq_tok_def bq_defs)
  assume i: "i < length (BlockingQueue_prog op)"
  show "monitor_law BlockingQueue_prog (guarded BlockingQueue_prog) bq_good bq_know op i"
    using i by (cases op) (auto simp: bq_defs monitor_law_def guarded_def bq_know_def bq_good_def less_Suc_eq numeral_2_eq_2)
  show "signal_law BlockingQueue_prog (guarded BlockingQueue_prog) bq_know notEmpty 1 (\<lambda>q. length (bq_queue q)) bq_tok op i"
    using i by (cases op) (auto simp: bq_defs signal_law_def guarded_def bq_tok_def less_Suc_eq numeral_2_eq_2
        split: if_splits bq_op.splits)
qed

subsection \<open>BoundedBlockingQueue\<close>

record 'a bounded_queue =
  bb_queue :: "'a list"
  bb_capacity :: nat
  bb_put :: "'a list"
  bb_taken :: "'a list"
  bb_observed :: "tid \<Rightarrow> nat option"

definition BoundedBlockingQueue_ctor :: "nat \<Rightarrow> 'a bounded_queue" where
  "BoundedBlockingQueue_ctor maxSize =
     \<lparr>bb_queue = [], bb_capacity = maxSize, bb_put = [], bb_taken = [], bb_observed = (\<lambda>_. None)\<rparr>"

datatype 'a bb_op = PutBounded 'a | TakeBounded | Empty | Full | SizeBounded | Capacity

type_synonym 'a bb_instr = "(queue_cond, 'a bounded_queue) instr"
type_synonym 'a push_fun = "nat \<Rightarrow> 'a list \<Rightarrow> 'a \<Rightarrow> 'a list"

definition circular_push_ok :: "'a push_fun \<Rightarrow> bool" where
  "circular_push_ok push_back \<longleftrightarrow> (\<forall>cap xs x. length xs < cap \<longrightarrow> push_back cap xs x = xs @ [x])"

definition bb_full :: "'a bounded_queue \<Rightarrow> bool" where
  "bb_full q \<longleftrightarrow> length (bb_queue q) = bb_capacity q"

definition bb_push :: "'a push_fun \<Rightarrow> 'a \<Rightarrow> tid \<Rightarrow> MutexLock \<Rightarrow> 'a bounded_queue \<Rightarrow> 'a bounded_queue option" where
  "bb_push push_back x t m q = do {
     cassert (\<not> bb_full q);
     Some (q\<lparr>bb_queue := push_back (bb_capacity q) (bb_queue q) x, bb_put := bb_put q @ [x]\<rparr>) }"

definition bb_pop :: "tid \<Rightarrow> MutexLock \<Rightarrow> 'a bounded_queue \<Rightarrow> 'a bounded_queue option" where
  "bb_pop t m q = do {
     cassert (bb_queue q \<noteq> []);
     Some (q\<lparr>bb_queue := tl (bb_queue q), bb_taken := bb_taken q @ [hd (bb_queue q)]\<rparr>) }"

definition bb_observe :: "('a bounded_queue \<Rightarrow> nat) \<Rightarrow> 'a bb_instr list" where
  "bb_observe f = [Lock, Do (\<lambda>t m q. Some (q\<lparr>bb_observed := (bb_observed q)(t \<mapsto> f q)\<rparr>)), Unlock]"

definition BoundedBlockingQueue_put :: "'a push_fun \<Rightarrow> 'a \<Rightarrow> 'a bb_instr list" where
  "BoundedBlockingQueue_put push_back x =
     [Lock, WaitWhile notFull (\<lambda>t m q. Some (bb_full q)), Do (bb_push push_back x), Notify notEmpty, Unlock]"

definition BoundedBlockingQueue_take :: "'a bb_instr list" where
  "BoundedBlockingQueue_take =
     [Lock, WaitWhile notEmpty (\<lambda>t m q. Some (bb_queue q = [])), Do bb_pop, Notify notFull, Unlock]"

definition BoundedBlockingQueue_empty :: "'a bb_instr list" where
  "BoundedBlockingQueue_empty = bb_observe (\<lambda>q. of_bool (bb_queue q = []))"

definition BoundedBlockingQueue_full :: "'a bb_instr list" where
  "BoundedBlockingQueue_full = bb_observe (\<lambda>q. of_bool (bb_full q))"

definition BoundedBlockingQueue_size :: "'a bb_instr list" where
  "BoundedBlockingQueue_size = bb_observe (\<lambda>q. length (bb_queue q))"

definition BoundedBlockingQueue_capacity :: "'a bb_instr list" where
  "BoundedBlockingQueue_capacity = bb_observe bb_capacity"

fun BoundedBlockingQueue_prog :: "'a push_fun \<Rightarrow> 'a bb_op \<Rightarrow> 'a bb_instr list" where
  "BoundedBlockingQueue_prog push_back (PutBounded x) = BoundedBlockingQueue_put push_back x"
| "BoundedBlockingQueue_prog push_back TakeBounded = BoundedBlockingQueue_take"
| "BoundedBlockingQueue_prog push_back Empty = BoundedBlockingQueue_empty"
| "BoundedBlockingQueue_prog push_back Full = BoundedBlockingQueue_full"
| "BoundedBlockingQueue_prog push_back SizeBounded = BoundedBlockingQueue_size"
| "BoundedBlockingQueue_prog push_back Capacity = BoundedBlockingQueue_capacity"

lemmas bb_defs = BoundedBlockingQueue_put_def BoundedBlockingQueue_take_def BoundedBlockingQueue_empty_def
  BoundedBlockingQueue_full_def BoundedBlockingQueue_size_def BoundedBlockingQueue_capacity_def bb_observe_def
  bb_push_def bb_pop_def

definition bb_good :: "nat \<Rightarrow> 'a bounded_queue \<Rightarrow> bool" where
  "bb_good cap q \<longleftrightarrow> bb_put q = bb_taken q @ bb_queue q \<and> bb_capacity q = cap \<and> length (bb_queue q) \<le> cap"

definition bb_know :: "nat \<Rightarrow> 'a bb_op \<Rightarrow> nat \<Rightarrow> tid \<Rightarrow> 'a bounded_queue \<Rightarrow> bool" where
  "bb_know cap op i t q \<longleftrightarrow> bb_good cap q \<and>
     (i = 2 \<longrightarrow> (case op of TakeBounded \<Rightarrow> bb_queue q \<noteq> [] | PutBounded x \<Rightarrow> length (bb_queue q) < cap | _ \<Rightarrow> True))"

text \<open>The waiters for an element, and the waiters for room.\<close>

definition bb_tok_element :: "'a bb_op \<Rightarrow> nat \<Rightarrow> tid \<Rightarrow> 'a bounded_queue \<Rightarrow> nat" where
  "bb_tok_element op i t q = (case op of PutBounded x \<Rightarrow> (if i = 3 then 1 else 0)
     | TakeBounded \<Rightarrow> (if i = 1 \<or> i = 2 then 1 else 0) | _ \<Rightarrow> 0)"

definition bb_tok_room :: "'a bb_op \<Rightarrow> nat \<Rightarrow> tid \<Rightarrow> 'a bounded_queue \<Rightarrow> nat" where
  "bb_tok_room op i t q = (case op of TakeBounded \<Rightarrow> (if i = 3 then 1 else 0)
     | PutBounded x \<Rightarrow> (if i = 1 \<or> i = 2 then 1 else 0) | _ \<Rightarrow> 0)"

lemma bb_monitor_law:
  assumes "circular_push_ok push_back" and "i < length (BoundedBlockingQueue_prog push_back op)"
  shows "monitor_law (BoundedBlockingQueue_prog push_back) (guarded (BoundedBlockingQueue_prog push_back))
    (bb_good cap) (bb_know cap) op i"
  using assms by (cases op) (auto simp: bb_defs monitor_law_def guarded_def bb_know_def bb_good_def bb_full_def
      circular_push_ok_def less_Suc_eq numeral_2_eq_2 numeral_3_eq_3 split: if_splits)

lemma bb_signal_element:
  assumes "circular_push_ok push_back" and "i < length (BoundedBlockingQueue_prog push_back op)"
  shows "signal_law (BoundedBlockingQueue_prog push_back) (guarded (BoundedBlockingQueue_prog push_back))
    (bb_know cap) notEmpty 1 (\<lambda>q. length (bb_queue q)) bb_tok_element op i"
  using assms by (cases op) (auto simp: bb_defs signal_law_def guarded_def bb_tok_element_def bb_know_def bb_good_def bb_full_def
      circular_push_ok_def less_Suc_eq numeral_2_eq_2 numeral_3_eq_3 split: if_splits bb_op.splits)

lemma bb_signal_room:
  assumes "circular_push_ok push_back" and "i < length (BoundedBlockingQueue_prog push_back op)"
  shows "signal_law (BoundedBlockingQueue_prog push_back) (guarded (BoundedBlockingQueue_prog push_back))
    (bb_know cap) notFull 1 (\<lambda>q. cap - length (bb_queue q)) bb_tok_room op i"
  using assms by (cases op) (auto simp: bb_defs signal_law_def guarded_def bb_tok_room_def bb_know_def bb_good_def bb_full_def
      circular_push_ok_def less_Suc_eq numeral_2_eq_2 numeral_3_eq_3 split: if_splits bb_op.splits)

lemma bb_signalled:
  assumes "circular_push_ok push_back"
  shows "signalled (BoundedBlockingQueue_prog push_back) (guarded (BoundedBlockingQueue_prog push_back))
      (bb_good cap) (bb_know cap) notEmpty 1 (\<lambda>q. length (bb_queue q)) bb_tok_element"
    "signalled (BoundedBlockingQueue_prog push_back) (guarded (BoundedBlockingQueue_prog push_back))
      (bb_good cap) (bb_know cap) notFull 1 (\<lambda>q. cap - length (bb_queue q)) bb_tok_room"
  using bb_monitor_law [OF assms] bb_signal_element [OF assms] bb_signal_room [OF assms]
  by (unfold_locales; auto simp: guarded_def bb_tok_element_def bb_tok_room_def bb_defs split: bb_op.splits)+

subsection \<open>CountDownLatch\<close>

record latch =
  la_count :: int
  la_counts :: "tid \<Rightarrow> int option"
  la_passed :: bool

text \<open>\<open>la_passed\<close> records that a wait has returned.\<close>

definition CountDownLatch_ctor :: "int \<Rightarrow> latch" where
  "CountDownLatch_ctor n = \<lparr>la_count = n, la_counts = (\<lambda>_. None), la_passed = False\<rparr>"

datatype latch_op = WaitLatch | CountDown | GetCount
datatype latch_cond = zero

type_synonym latch_instr = "(latch_cond, latch) instr"

definition CountDownLatch_wait :: "latch_instr list" where
  "CountDownLatch_wait = [Lock, WaitWhile zero (\<lambda>t m l. Some (la_count l > 0)),
     Do (\<lambda>t m l. Some (l\<lparr>la_passed := True\<rparr>)), Unlock]"

definition CountDownLatch_countDown :: "latch_instr list" where
  "CountDownLatch_countDown = [Lock, Do (\<lambda>t m l. Some (l\<lparr>la_count := la_count l - 1\<rparr>)),
     NotifyAllIf zero (\<lambda>t l. la_count l = 0), Unlock]"

definition CountDownLatch_getCount :: "latch_instr list" where
  "CountDownLatch_getCount = [Lock, Do (\<lambda>t m l. Some (l\<lparr>la_counts := (la_counts l)(t \<mapsto> la_count l)\<rparr>)), Unlock]"

fun CountDownLatch_prog :: "latch_op \<Rightarrow> latch_instr list" where
  "CountDownLatch_prog WaitLatch = CountDownLatch_wait"
| "CountDownLatch_prog CountDown = CountDownLatch_countDown"
| "CountDownLatch_prog GetCount = CountDownLatch_getCount"

lemmas latch_defs = CountDownLatch_wait_def CountDownLatch_countDown_def CountDownLatch_getCount_def

definition latch_good :: "latch \<Rightarrow> bool" where
  "latch_good l \<longleftrightarrow> (la_passed l \<longrightarrow> la_count l \<le> 0)"

definition latch_know :: "latch_op \<Rightarrow> nat \<Rightarrow> tid \<Rightarrow> latch \<Rightarrow> bool" where
  "latch_know op i t l \<longleftrightarrow> latch_good l \<and> (op = WaitLatch \<and> i = 2 \<longrightarrow> la_count l \<le> 0)"

text \<open>What the waiters wait for is there once the count is not positive. The thread that brings
  the count to zero is about to notify them all.\<close>

definition latch_open :: "latch \<Rightarrow> nat" where
  "latch_open l = (if la_count l \<le> 0 then 1 else 0)"

definition latch_tok :: "latch_op \<Rightarrow> nat \<Rightarrow> tid \<Rightarrow> latch \<Rightarrow> nat" where
  "latch_tok op i t l = (if op = CountDown \<and> i = 2 \<and> la_count l = 0 then 1 else 0)"

interpretation latch: signalled CountDownLatch_prog "guarded CountDownLatch_prog" latch_good latch_know
  zero 0 latch_open latch_tok
proof
  fix op i t l
  show "\<not> guarded CountDownLatch_prog op 0" "\<not> guarded CountDownLatch_prog op (length (CountDownLatch_prog op))"
    by (simp_all add: guarded_def)
  show "latch_tok op (length (CountDownLatch_prog op)) t l = 0"
    by (cases op) (simp_all add: latch_tok_def latch_defs)
  assume i: "i < length (CountDownLatch_prog op)"
  show "monitor_law CountDownLatch_prog (guarded CountDownLatch_prog) latch_good latch_know op i"
    using i by (cases op) (auto simp: latch_defs monitor_law_def guarded_def latch_know_def latch_good_def less_Suc_eq numeral_2_eq_2)
  show "signal_law CountDownLatch_prog (guarded CountDownLatch_prog) latch_know zero 0 latch_open latch_tok op i"
    using i by (cases op) (auto simp: latch_defs signal_law_def guarded_def latch_tok_def latch_open_def less_Suc_eq numeral_2_eq_2
        split: if_splits)
qed

subsection \<open>Properties\<close>

abbreviation start_world :: "'s \<Rightarrow> ('op, 'c, 's) world" where
  "start_world s \<equiv> \<lparr>wd_state = s, wd_mutex = MutexLock_ctor, wd_thread = (\<lambda>_. Idle)\<rparr>"

text \<open>However the threads that use a blocking queue interleave, and whatever spurious wake-ups
  they see, no assertion fails; whenever the mutex is free the values taken so far, followed by
  the values in the queue, are the values put, in order; and when no thread can go on by itself, no
  thread waits to take a value while the queue holds one.\<close>

theorem BlockingQueue_correct:
  assumes "reachable_from BlockingQueue_prog calls T BlockingQueue_ctor w" and "finite T"
  shows "\<not> aborts BlockingQueue_prog w \<and>
    (mx_mutex (wd_mutex w) = None \<longrightarrow> bq_put (wd_state w) = bq_taken (wd_state w) @ bq_queue (wd_state w)) \<and>
    (quiescent BlockingQueue_prog T w \<and> wd_thread w t = Waiting op i notEmpty \<longrightarrow> bq_queue (wd_state w) = [])"
proof -
  have good: "bq_good BlockingQueue_ctor"
    by (simp add: bq_good_def BlockingQueue_ctor_def)
  note inv = bq.reachable_inv [OF assms(1) good]
  show ?thesis
    using bq.never_aborts [OF inv] bq.mon_invD(3) [OF inv] bq.no_sleeper [OF assms(1) good assms(2)]
    by (auto simp: bq_good_def)
qed

text \<open>C10: However the threads that use a bounded queue interleave, no assertion fails and the queue
  never holds more than its capacity; whenever the mutex is free the values taken followed by the
  values in the queue are the values put; and when no thread can go on by itself, a thread waits to
  take a value only if the queue is empty and to put one only if it is full.\<close>

theorem BoundedBlockingQueue_correct:
  assumes "circular_push_ok push_back" and "finite T"
    and "reachable_from (BoundedBlockingQueue_prog push_back) calls T (BoundedBlockingQueue_ctor maxSize) w"
  shows "\<not> aborts (BoundedBlockingQueue_prog push_back) w \<and>
    (mx_mutex (wd_mutex w) = None \<longrightarrow>
       bb_put (wd_state w) = bb_taken (wd_state w) @ bb_queue (wd_state w) \<and> length (bb_queue (wd_state w)) \<le> maxSize) \<and>
    (quiescent (BoundedBlockingQueue_prog push_back) T w \<longrightarrow>
       (wd_thread w t = Waiting op i notEmpty \<longrightarrow> bb_queue (wd_state w) = []) \<and>
       (wd_thread w t = Waiting op i notFull \<longrightarrow> length (bb_queue (wd_state w)) = maxSize))"
proof -
  have good: "bb_good maxSize (BoundedBlockingQueue_ctor maxSize)"
    by (simp add: bb_good_def BoundedBlockingQueue_ctor_def)
  note el = bb_signalled(1) [OF assms(1), of maxSize] and rm = bb_signalled(2) [OF assms(1), of maxSize]
  note mon = signalled.axioms(1) [OF el]
  note inv = monitor.reachable_inv [OF mon assms(3) good]
  note free = monitor.mon_invD(3) [OF mon inv]
  have "length (bb_queue (wd_state w)) = maxSize"
    if "quiescent (BoundedBlockingQueue_prog push_back) T w" and "wd_thread w t = Waiting op i notFull"
  proof -
    have "mx_mutex (wd_mutex w) = None"
    proof (rule ccontr)
      assume "mx_mutex (wd_mutex w) \<noteq> None"
      then obtain u where "mx_mutex (wd_mutex w) = Some u" by auto
      then have "monitor.owns (guarded (BoundedBlockingQueue_prog push_back)) (wd_thread w u)"
        using monitor.mon_invD(1) [OF mon inv, of u] by simp
      then show False
        using monitor.quiescent_threads [OF mon inv that(1) reachable_outside [OF assms(3)], of u]
        by (auto simp: monitor.owns_def [OF mon])
    qed
    then show ?thesis
      using free signalled.no_sleeper [OF rm assms(3) good assms(2) that] by (simp add: bb_good_def)
  qed
  then show ?thesis
    using monitor.never_aborts [OF mon inv] free signalled.no_sleeper [OF el assms(3) good assms(2)]
    by (auto simp: bb_good_def)
qed

text \<open>A thread puts a value into a queue of capacity one, and a second one waits for room.\<close>

definition example_push :: "'a push_fun" where
  "example_push cap xs x = (if length xs < cap then xs @ [x] else tl xs @ [x])"

definition go :: "tid \<Rightarrow> nat \<Rightarrow> (tid \<times> 'op option) list" where
  "go t n = replicate n (t, None)"

lemmas schedule_eval = go_def numeral_eq_Suc MutexLock_ctor_def mutex_defs waits_for_def

theorem BoundedBlockingQueue_correct_witness:
  "let prog = BoundedBlockingQueue_prog example_push;
       w = the (schedule prog [1, 2] ((1, Some (PutBounded ''a'')) # go 1 6 @ (2, Some (PutBounded ''b'')) # go 2 2)
             (start_world (BoundedBlockingQueue_ctor 1)))
   in \<not> aborts prog w \<and> wd_thread w 2 = Waiting (PutBounded ''b'') 1 notFull \<and> mx_mutex (wd_mutex w) = None \<and>
     bb_put (wd_state w) = bb_taken (wd_state w) @ bb_queue (wd_state w) \<and> length (bb_queue (wd_state w)) = 1"
proof -
  define prog where "prog = BoundedBlockingQueue_prog (example_push :: string push_fun)"
  define sched where "sched = (1, Some (PutBounded ''a'')) # go 1 6 @ (2, Some (PutBounded ''b'')) # go 2 2"
  define w where "w = the (schedule prog [1, 2] sched (start_world (BoundedBlockingQueue_ctor 1)))"
  have sch: "schedule prog [1, 2] sched (start_world (BoundedBlockingQueue_ctor 1)) = Some w"
    unfolding w_def sched_def prog_def
    by (simp add: schedule_eval bb_defs bb_full_def BoundedBlockingQueue_ctor_def example_push_def)
  have w: "wd_thread w 1 = Idle" "wd_thread w 2 = Waiting (PutBounded ''b'') 1 notFull" "mx_mutex (wd_mutex w) = None"
    unfolding w_def sched_def prog_def
    by (simp_all add: schedule_eval bb_defs bb_full_def BoundedBlockingQueue_ctor_def example_push_def)
  have reach: "reachable_from prog (\<lambda>_ _. True) (set [1, 2]) (BoundedBlockingQueue_ctor 1) w"
    by (rule schedule_reachable [OF sch reachable_from.Start]) (auto simp: sched_def go_def)
  have q: "quiescent prog (set [1, 2]) w"
    by (rule quiescentI) (use w in auto)
  have "circular_push_ok (example_push :: string push_fun)"
    by (simp add: circular_push_ok_def example_push_def)
  from BoundedBlockingQueue_correct [OF this _ reach [unfolded prog_def], of 2 "PutBounded ''b''" 1] w q
  show ?thesis
    unfolding Let_def w_def [unfolded sched_def prog_def, symmetric] by (simp add: prog_def)
qed

text \<open>However threads use a latch, a wait returns only once the count has reached zero, and when
  no thread can go on by itself no thread waits at a latch whose count is zero or less.\<close>

theorem CountDownLatch_correct:
  assumes "reachable_from CountDownLatch_prog calls T (CountDownLatch_ctor n) w" and "finite T"
  shows "(mx_mutex (wd_mutex w) = None \<and> la_passed (wd_state w) \<longrightarrow> la_count (wd_state w) \<le> 0) \<and>
    (quiescent CountDownLatch_prog T w \<and> wd_thread w t = Waiting op i zero \<longrightarrow> la_count (wd_state w) > 0)"
proof -
  have good: "latch_good (CountDownLatch_ctor n)"
    by (simp add: latch_good_def CountDownLatch_ctor_def)
  show ?thesis
    using latch.mon_invD(3) [OF latch.reachable_inv [OF assms(1) good]]
      latch.no_sleeper [OF assms(1) good assms(2), of t op i]
    by (auto simp: latch_good_def latch_open_def split: if_splits)
qed

end
