(* ===== verification/ThreadPool.thy ===== *)
theory ThreadPool
  imports Queues "HOL-Library.Multiset"
begin

text \<open>
  The thread pool (\<open>src/base/ThreadPool.h\<close>, \<open>ThreadPool.cc\<close>).

  A task is a number. The operations are lists of instructions of the monitor theory: \<open>run\<close> of a
  producer, \<open>runInThread\<close> of a worker with \<open>take\<close> inside its loop, and the locked part of
  \<open>stop\<close>; joining the workers changes nothing here. The record keeps the fields of the class, the
  variable \<open>task\<close> of each worker, and the tasks that were submitted, taken, run by workers, and
  run by the producer when the pool has no threads. Tasks and callbacks return.
\<close>

subsection \<open>State and operations\<close>

record thread_pool =
  tp_threads :: nat
  tp_queue :: "nat list"
  tp_maxQueueSize :: nat
  tp_running :: bool
  tp_hasInitCallback :: bool
  tp_task :: "tid \<Rightarrow> nat option"
  tp_submitted :: "nat list"
  tp_taken :: "nat list"
  tp_ran :: "nat list"
  tp_direct :: "nat list"
  tp_inits :: nat
  tp_sizes :: "tid \<Rightarrow> nat option"

definition ThreadPool_ctor :: thread_pool where
  "ThreadPool_ctor = \<lparr>tp_threads = 0, tp_queue = [], tp_maxQueueSize = 0, tp_running = False, tp_hasInitCallback = False,
     tp_task = (\<lambda>_. None), tp_submitted = [], tp_taken = [], tp_ran = [], tp_direct = [], tp_inits = 0, tp_sizes = (\<lambda>_. None)\<rparr>"

definition setMaxQueueSize :: "nat \<Rightarrow> thread_pool \<Rightarrow> thread_pool" where
  "setMaxQueueSize maxSize p = p\<lparr>tp_maxQueueSize := maxSize\<rparr>"

definition setThreadInitCallback :: "thread_pool \<Rightarrow> thread_pool" where
  "setThreadInitCallback p = p\<lparr>tp_hasInitCallback := True\<rparr>"

text \<open>The threads that \<open>start\<close> creates begin with the operation \<open>Worker\<close>.\<close>

definition ThreadPool_start :: "nat \<Rightarrow> thread_pool \<Rightarrow> thread_pool option" where
  "ThreadPool_start numThreads p = do {
     cassert (tp_threads p = 0);
     let p = p\<lparr>tp_running := True, tp_threads := numThreads\<rparr>;
     Some (if numThreads = 0 \<and> tp_hasInitCallback p then p\<lparr>tp_inits := tp_inits p + 1\<rparr> else p) }"

definition isFull :: "tid \<Rightarrow> MutexLock \<Rightarrow> thread_pool \<Rightarrow> bool option" where
  "isFull t m p = do {
     _ \<leftarrow> assertLocked t m;
     Some (tp_maxQueueSize p > 0 \<and> tp_maxQueueSize p \<le> length (tp_queue p)) }"

definition pool_push :: "nat \<Rightarrow> tid \<Rightarrow> MutexLock \<Rightarrow> thread_pool \<Rightarrow> thread_pool option" where
  "pool_push task t m p = do {
     full \<leftarrow> isFull t m p;
     cassert (\<not> full);
     Some (p\<lparr>tp_queue := tp_queue p @ [task], tp_submitted := tp_submitted p @ [task]\<rparr>) }"

definition pool_pop :: "tid \<Rightarrow> MutexLock \<Rightarrow> thread_pool \<Rightarrow> thread_pool option" where
  "pool_pop t m p = Some
     (case tp_queue p of
        [] \<Rightarrow> p\<lparr>tp_task := (tp_task p)(t := None)\<rparr>
      | x # xs \<Rightarrow> p\<lparr>tp_task := (tp_task p)(t \<mapsto> x), tp_queue := xs, tp_taken := tp_taken p @ [x]\<rparr>)"

definition pool_run_task :: "tid \<Rightarrow> MutexLock \<Rightarrow> thread_pool \<Rightarrow> thread_pool option" where
  "pool_run_task t m p = Some
     (case tp_task p t of
        None \<Rightarrow> p
      | Some x \<Rightarrow> p\<lparr>tp_ran := tp_ran p @ [x], tp_task := (tp_task p)(t := None)\<rparr>)"

type_synonym pool_instr = "(queue_cond, thread_pool) instr"

definition ThreadPool_run :: "nat \<Rightarrow> pool_instr list" where
  "ThreadPool_run task =
     [Goto (\<lambda>t p. if tp_threads p = 0 then 1 else 3),
      Do (\<lambda>t m p. Some (p\<lparr>tp_direct := tp_direct p @ [task]\<rparr>)),
      Goto (\<lambda>t p. 8),
      Lock,
      WaitWhile notFull isFull,
      Do (pool_push task),
      Notify notEmpty,
      Unlock]"

definition ThreadPool_take :: "pool_instr list" where
  "ThreadPool_take =
     [Lock,
      WaitWhile notEmpty (\<lambda>t m p. Some (tp_queue p = [] \<and> tp_running p)),
      Do pool_pop,
      NotifyIf notFull (\<lambda>t p. tp_task p t \<noteq> None \<and> tp_maxQueueSize p > 0),
      Unlock]"

definition runInThread :: "pool_instr list" where
  "runInThread =
     [Do (\<lambda>t m p. Some (if tp_hasInitCallback p then p\<lparr>tp_inits := tp_inits p + 1\<rparr> else p)),
      Goto (\<lambda>t p. if tp_running p then 2 else 9)] @
     ThreadPool_take @
     [Do pool_run_task,
      Goto (\<lambda>t p. 1)]"

definition ThreadPool_stop :: "pool_instr list" where
  "ThreadPool_stop =
     [Lock, Do (\<lambda>t m p. Some (p\<lparr>tp_running := False\<rparr>)), NotifyAllIf notEmpty (\<lambda>t p. True), Unlock]"

definition ThreadPool_queueSize :: "pool_instr list" where
  "ThreadPool_queueSize = [Lock, Do (\<lambda>t m p. Some (p\<lparr>tp_sizes := (tp_sizes p)(t \<mapsto> length (tp_queue p))\<rparr>)), Unlock]"

datatype pool_op = Run nat | Worker | Stop | QueueSize

fun ThreadPool_prog :: "pool_op \<Rightarrow> pool_instr list" where
  "ThreadPool_prog (Run task) = ThreadPool_run task"
| "ThreadPool_prog Worker = runInThread"
| "ThreadPool_prog Stop = ThreadPool_stop"
| "ThreadPool_prog QueueSize = ThreadPool_queueSize"

lemmas pool_defs = ThreadPool_run_def ThreadPool_take_def runInThread_def ThreadPool_stop_def ThreadPool_queueSize_def

subsection \<open>The invariant\<close>

text \<open>The tasks that workers hold in their variable.\<close>

definition held_tasks :: "(tid \<Rightarrow> nat option) \<Rightarrow> nat multiset" where
  "held_tasks f = (\<Sum>t\<in>dom f. {#the (f t)#})"

definition pool_good :: "thread_pool \<Rightarrow> bool" where
  "pool_good p \<longleftrightarrow> tp_submitted p = tp_taken p @ tp_queue p \<and>
     (tp_maxQueueSize p > 0 \<longrightarrow> length (tp_queue p) \<le> tp_maxQueueSize p) \<and>
     finite (dom (tp_task p)) \<and> mset (tp_ran p) + held_tasks (tp_task p) \<subseteq># mset (tp_taken p)"

definition pool_guarded :: "pool_op \<Rightarrow> nat \<Rightarrow> bool" where
  "pool_guarded op i \<longleftrightarrow>
     (case op of Run task \<Rightarrow> 4 \<le> i \<and> i < 8 | Worker \<Rightarrow> 3 \<le> i \<and> i < 7 | Stop \<Rightarrow> 1 \<le> i \<and> i < 4 | QueueSize \<Rightarrow> 1 \<le> i \<and> i < 3)"

definition pool_know :: "pool_op \<Rightarrow> nat \<Rightarrow> tid \<Rightarrow> thread_pool \<Rightarrow> bool" where
  "pool_know op i t p \<longleftrightarrow> pool_good p \<and>
     (case op of
        Run task \<Rightarrow> i = 5 \<and> tp_maxQueueSize p > 0 \<longrightarrow> length (tp_queue p) < tp_maxQueueSize p
      | _ \<Rightarrow> True)"

definition pool_tok_task :: "pool_op \<Rightarrow> nat \<Rightarrow> tid \<Rightarrow> thread_pool \<Rightarrow> nat" where
  "pool_tok_task op i t p =
     (case op of Run task \<Rightarrow> (if i = 6 then 1 else 0) | Worker \<Rightarrow> (if i = 3 \<or> i = 4 then 1 else 0) | _ \<Rightarrow> 0)"

definition pool_tok_room :: "pool_op \<Rightarrow> nat \<Rightarrow> tid \<Rightarrow> thread_pool \<Rightarrow> nat" where
  "pool_tok_room op i t p =
     (case op of
        Run task \<Rightarrow> (if i = 4 \<or> i = 5 then 1 else 0)
      | Worker \<Rightarrow> (if i = 5 \<and> tp_task p t \<noteq> None \<and> tp_maxQueueSize p > 0 then 1 else 0)
      | _ \<Rightarrow> 0)"

definition pool_tok_stop :: "pool_op \<Rightarrow> nat \<Rightarrow> tid \<Rightarrow> thread_pool \<Rightarrow> nat" where
  "pool_tok_stop op i t p = (if op = Stop \<and> i = 2 then 1 else 0)"

lemma held_tasks_upd:
  assumes "finite (dom f)"
  shows "held_tasks (f(t := None)) \<subseteq># held_tasks f"
    "f t = Some x \<Longrightarrow> held_tasks f = add_mset x (held_tasks (f(t := None)))"
    "held_tasks (f(t \<mapsto> x)) = add_mset x (held_tasks (f(t := None)))"
proof -
  have some: "held_tasks g = add_mset y (held_tasks (g(t := None)))" if "finite (dom g)" "g t = Some y" for g and y :: nat
  proof -
    have "(\<Sum>u\<in>dom g - {t}. {#the (g u)#}) = held_tasks (g(t := None))"
      by (auto simp: held_tasks_def intro!: sum.cong)
    then show ?thesis
      using sum.remove [OF that(1), of t "\<lambda>u. {#the (g u)#}"] that(2) by (simp add: held_tasks_def domIff)
  qed
  show "f t = Some x \<Longrightarrow> held_tasks f = add_mset x (held_tasks (f(t := None)))"
    by (rule some [OF assms])
  show "held_tasks (f(t \<mapsto> x)) = add_mset x (held_tasks (f(t := None)))"
    using some [of "f(t \<mapsto> x)" x] assms by simp
  show "held_tasks (f(t := None)) \<subseteq># held_tasks f"
  proof (cases "f t")
    case None
    then have "f(t := None) = f" by auto
    then show ?thesis by simp
  next
    case (Some y)
    then show ?thesis using some [OF assms Some] by simp
  qed
qed

lemma pool_pop_good:
  assumes "pool_good p" and "pool_pop t m p = Some p'"
  shows "pool_good p'"
proof -
  have fin: "finite (dom (tp_task p))" and sub: "mset (tp_ran p) + held_tasks (tp_task p) \<subseteq># mset (tp_taken p)"
    using assms(1) by (simp_all add: pool_good_def)
  have "mset (tp_ran p) + held_tasks ((tp_task p)(t := None)) \<subseteq># mset (tp_ran p) + held_tasks (tp_task p)"
    using held_tasks_upd(1) [OF fin, of t] by simp
  with sub have "mset (tp_ran p) + held_tasks ((tp_task p)(t := None)) \<subseteq># mset (tp_taken p)"
    by (rule subset_mset.order_trans [rotated])
  then show ?thesis
    using assms held_tasks_upd(3) [OF fin, of t] by (auto simp: pool_good_def pool_pop_def split: list.splits)
qed

lemma pool_run_task_good:
  assumes "pool_good p" and "pool_run_task t m p = Some p'"
  shows "pool_good p'"
proof (cases "tp_task p t")
  case (Some x)
  then show ?thesis
    using assms held_tasks_upd(2) [of "tp_task p" t x] by (auto simp: pool_good_def pool_run_task_def)
qed (use assms in \<open>simp add: pool_run_task_def\<close>)

lemma below_numeral:
  "i < 3 \<Longrightarrow> i = 0 \<or> i = 1 \<or> i = (2::nat)"
  "i < 4 \<Longrightarrow> i = 0 \<or> i = 1 \<or> i = 2 \<or> i = (3::nat)"
  "i < 8 \<Longrightarrow> i = 0 \<or> i = 1 \<or> i = 2 \<or> i = 3 \<or> i = 4 \<or> i = 5 \<or> i = 6 \<or> i = (7::nat)"
  "i < 9 \<Longrightarrow> i = 0 \<or> i = 1 \<or> i = 2 \<or> i = 3 \<or> i = 4 \<or> i = 5 \<or> i = 6 \<or> i = 7 \<or> i = (8::nat)"
  by linarith+

lemmas law_simps = monitor_law_def pool_guarded_def pool_know_def

lemma pool_law_run:
  assumes "i < length (ThreadPool_prog (Run task))"
  shows "monitor_law ThreadPool_prog pool_guarded pool_good pool_know (Run task) i"
proof -
  have "i < 8" using assms by (simp add: pool_defs)
  from below_numeral(3) [OF this] show ?thesis
    by (elim disjE) (simp_all add: pool_defs law_simps pool_good_def pool_push_def isFull_def
      assertLocked_def split: pool_op.split)
qed

lemma pool_pop_Some: "\<exists>p'. pool_pop t m p = Some p'" "\<exists>p'. pool_run_task t m p = Some p'"
  by (simp_all add: pool_pop_def pool_run_task_def)

lemma pool_run_task_know:
  "pool_run_task t m p = Some p' \<Longrightarrow> pool_know op i u p \<Longrightarrow> pool_know op i u p'"
  using pool_run_task_good [of p t m p']
  by (auto simp: pool_know_def pool_run_task_def split: pool_op.splits option.splits)

lemma pool_init_know:
  "pool_know op i u (p\<lparr>tp_inits := n\<rparr>) \<longleftrightarrow> pool_know op i u p" "pool_good (p\<lparr>tp_inits := n\<rparr>) \<longleftrightarrow> pool_good p"
  by (simp_all add: pool_know_def pool_good_def split: pool_op.split)

lemma pool_law_worker:
  assumes "i < length (ThreadPool_prog Worker)"
  shows "monitor_law ThreadPool_prog pool_guarded pool_good pool_know Worker i"
proof -
  have know: "pool_know Worker j t p \<longleftrightarrow> pool_good p" for j t p
    by (simp add: pool_know_def)
  have pop: "\<exists>p'. pool_pop t m p = Some p' \<and> pool_good p'" if "pool_good p" for t m p
    using pool_pop_Some(1) [of t m p] pool_pop_good [OF that] by blast
  have run: "\<exists>p'. pool_run_task t m p = Some p' \<and> (pool_good p \<longrightarrow> pool_good p') \<and>
      (\<forall>op' i' t'. t' \<noteq> t \<and> pool_know op' i' t' p \<longrightarrow> pool_know op' i' t' p')" for t m p
    using pool_pop_Some(2) [of t m p] pool_run_task_good [of p t m] pool_run_task_know [of t m p] by blast
  have "i < 9" using assms by (simp add: pool_defs)
  from below_numeral(4) [OF this] show ?thesis
    by (elim disjE)
      (simp_all add: pool_defs monitor_law_def pool_guarded_def know pop run pool_init_know del: imp_conjL)
qed

lemma pool_law_other:
  assumes "i < length (ThreadPool_prog op)" and "op = Stop \<or> op = QueueSize"
  shows "monitor_law ThreadPool_prog pool_guarded pool_good pool_know op i"
proof (cases "op = Stop")
  case True
  then have "i < 4" using assms by (simp add: pool_defs)
  from below_numeral(2) [OF this] show ?thesis
    by (elim disjE) (simp_all add: True pool_defs law_simps pool_good_def)
next
  case False
  then have op: "op = QueueSize" using assms by simp
  then have "i < 3" using assms by (simp add: pool_defs)
  from below_numeral(1) [OF this] show ?thesis
    by (elim disjE) (simp_all add: op pool_defs law_simps pool_good_def)
qed

lemma pool_law:
  assumes "i < length (ThreadPool_prog op)"
  shows "monitor_law ThreadPool_prog pool_guarded pool_good pool_know op i"
  using assms pool_law_run pool_law_worker pool_law_other by (cases op) auto

subsection \<open>The notifications\<close>

lemma pool_signal_task:
  assumes "i < length (ThreadPool_prog op)"
  shows "signal_law ThreadPool_prog pool_guarded pool_know notEmpty 1
    (\<lambda>p. if tp_running p then length (tp_queue p) else 0) pool_tok_task op i"
proof (cases op)
  case (Run task)
  then have "i < 8" using assms by (simp add: pool_defs)
  from below_numeral(3) [OF this] show ?thesis
    by (elim disjE) (auto simp: Run pool_defs signal_law_def pool_tok_task_def pool_push_def isFull_def
        assertLocked_def split: pool_op.splits if_splits elim!: bind_eq_SomeE)
next
  case Worker
  then have "i < 9" using assms by (simp add: pool_defs)
  from below_numeral(4) [OF this] show ?thesis
    by (elim disjE) (auto simp: Worker pool_defs signal_law_def pool_tok_task_def pool_pop_def pool_run_task_def
        split: pool_op.splits if_splits list.splits option.splits)
next
  case Stop
  then have "i < 4" using assms by (simp add: pool_defs)
  from below_numeral(2) [OF this] show ?thesis
    by (elim disjE) (auto simp: Stop pool_defs signal_law_def pool_tok_task_def split: pool_op.splits)
next
  case QueueSize
  then have "i < 3" using assms by (simp add: pool_defs)
  from below_numeral(1) [OF this] show ?thesis
    by (elim disjE) (auto simp: QueueSize pool_defs signal_law_def pool_tok_task_def split: pool_op.splits)
qed

lemma pool_signal_room:
  assumes "i < length (ThreadPool_prog op)"
  shows "signal_law ThreadPool_prog pool_guarded pool_know notFull 1 (\<lambda>p. tp_maxQueueSize p - length (tp_queue p)) pool_tok_room op i"
proof (cases op)
  case (Run task)
  then have "i < 8" using assms by (simp add: pool_defs)
  from below_numeral(3) [OF this] show ?thesis
    by (elim disjE) (auto simp: Run pool_defs signal_law_def pool_tok_room_def pool_push_def isFull_def pool_know_def pool_guarded_def
        assertLocked_def split: pool_op.splits if_splits elim!: bind_eq_SomeE)
next
  case Worker
  then have "i < 9" using assms by (simp add: pool_defs)
  from below_numeral(4) [OF this] show ?thesis
    by (elim disjE) (auto simp: Worker pool_defs signal_law_def pool_tok_room_def pool_pop_def pool_run_task_def pool_guarded_def
        split: pool_op.splits if_splits list.splits option.splits)
next
  case Stop
  then have "i < 4" using assms by (simp add: pool_defs)
  from below_numeral(2) [OF this] show ?thesis
    by (elim disjE) (auto simp: Stop pool_defs signal_law_def pool_tok_room_def split: pool_op.splits)
next
  case QueueSize
  then have "i < 3" using assms by (simp add: pool_defs)
  from below_numeral(1) [OF this] show ?thesis
    by (elim disjE) (auto simp: QueueSize pool_defs signal_law_def pool_tok_room_def split: pool_op.splits)
qed

lemma pool_signal_stop:
  assumes "i < length (ThreadPool_prog op)"
  shows "signal_law ThreadPool_prog pool_guarded pool_know notEmpty 0 (\<lambda>p. if tp_running p then 0 else 1) pool_tok_stop op i"
proof (cases op)
  case (Run task)
  then have "i < 8" using assms by (simp add: pool_defs)
  from below_numeral(3) [OF this] show ?thesis
    by (elim disjE) (auto simp: Run pool_defs signal_law_def pool_tok_stop_def pool_push_def isFull_def pool_know_def pool_guarded_def
        assertLocked_def split: pool_op.splits if_splits elim!: bind_eq_SomeE)
next
  case Worker
  then have "i < 9" using assms by (simp add: pool_defs)
  from below_numeral(4) [OF this] show ?thesis
    by (elim disjE) (auto simp: Worker pool_defs signal_law_def pool_tok_stop_def pool_pop_def pool_run_task_def pool_guarded_def
        split: pool_op.splits if_splits list.splits option.splits)
next
  case Stop
  then have "i < 4" using assms by (simp add: pool_defs)
  from below_numeral(2) [OF this] show ?thesis
    by (elim disjE) (auto simp: Stop pool_defs signal_law_def pool_tok_stop_def split: pool_op.splits)
next
  case QueueSize
  then have "i < 3" using assms by (simp add: pool_defs)
  from below_numeral(1) [OF this] show ?thesis
    by (elim disjE) (auto simp: QueueSize pool_defs signal_law_def pool_tok_stop_def split: pool_op.splits)
qed

lemma pool_outside:
  "\<not> pool_guarded op 0" "\<not> pool_guarded op (length (ThreadPool_prog op))"
  "pool_tok_task op (length (ThreadPool_prog op)) t p = 0" "pool_tok_room op (length (ThreadPool_prog op)) t p = 0"
  "pool_tok_stop op (length (ThreadPool_prog op)) t p = 0"
  by (cases op; simp add: pool_guarded_def pool_defs pool_tok_task_def pool_tok_room_def pool_tok_stop_def)+

text \<open>The workers that wait for a task, the workers that wait when the pool is stopped, and the
  producers that wait for room.\<close>

interpretation pool: monitor ThreadPool_prog pool_guarded pool_good pool_know
  by unfold_locales (simp_all add: pool_outside pool_law)

interpretation pool_task: signalled ThreadPool_prog pool_guarded pool_good pool_know
  notEmpty 1 "\<lambda>p. if tp_running p then length (tp_queue p) else 0" pool_tok_task
  by unfold_locales (rule pool_outside, erule pool_signal_task)

interpretation pool_stop: signalled ThreadPool_prog pool_guarded pool_good pool_know
  notEmpty 0 "\<lambda>p. if tp_running p then 0 else 1" pool_tok_stop
  by unfold_locales (rule pool_outside, erule pool_signal_stop)

interpretation pool_room: signalled ThreadPool_prog pool_guarded pool_good pool_know
  notFull 1 "\<lambda>p. tp_maxQueueSize p - length (tp_queue p)" pool_tok_room
  by unfold_locales (rule pool_outside, erule pool_signal_room)

subsection \<open>Properties\<close>

definition started_pool :: "nat \<Rightarrow> nat \<Rightarrow> thread_pool option" where
  "started_pool maxSize numThreads = ThreadPool_start numThreads (setMaxQueueSize maxSize ThreadPool_ctor)"

lemma started_pool_good: "started_pool maxSize numThreads = Some p \<Longrightarrow> pool_good p"
  by (auto simp: started_pool_def ThreadPool_start_def setMaxQueueSize_def ThreadPool_ctor_def pool_good_def
      held_tasks_def)


text \<open>A producer fills the queue of a pool with one worker and waits for room with its second task;
  then the pool is stopped before the worker has begun its loop, and the worker ends.\<close>

definition stranded_schedule :: "(tid \<times> pool_op option) list" where
  "stranded_schedule = (2, Some (Run 7)) # go 2 7 @ (2, Some (Run 8)) # go 2 3 @ (3, Some Stop) # go 3 5 @ (1, Some Worker) # go 1 3"

definition stranded :: "(pool_op, queue_cond, thread_pool) world" where
  "stranded = the (schedule ThreadPool_prog [1, 2, 3] stranded_schedule (start_world (the (started_pool 1 1))))"

lemmas pool_eval = schedule_eval pool_defs isFull_def assertLocked_def isLockedByThisThread_def pool_push_def
  started_pool_def ThreadPool_start_def setMaxQueueSize_def ThreadPool_ctor_def

lemma stranded_run:
  "schedule ThreadPool_prog [1, 2, 3] stranded_schedule (start_world (the (started_pool 1 1))) = Some stranded"
  unfolding stranded_def stranded_schedule_def by (simp add: pool_eval)

lemma stranded_world:
  "wd_thread stranded 1 = Idle" "wd_thread stranded 2 = Waiting (Run 8) 4 notFull" "wd_thread stranded 3 = Idle"
  "mx_mutex (wd_mutex stranded) = None" "tp_queue (wd_state stranded) = [7]" "tp_ran (wd_state stranded) = []"
  "\<not> tp_running (wd_state stranded)" "tp_maxQueueSize (wd_state stranded) = 1"
  unfolding stranded_def stranded_schedule_def by (simp_all add: pool_eval)

lemma stranded_reachable:
  "reachable_from ThreadPool_prog (\<lambda>_ _. True) {1, 2, 3} (the (started_pool 1 1)) stranded"
  using schedule_reachable [OF stranded_run reachable_from.Start, of "\<lambda>_ _. True"]
  by (auto simp: stranded_schedule_def go_def)

lemma stranded_quiescent: "quiescent ThreadPool_prog {1, 2, 3} stranded"
  by (rule quiescentI) (use stranded_world in auto)

lemma started_pool_Some: "started_pool 1 1 = Some (the (started_pool 1 1))"
  by (simp add: started_pool_def ThreadPool_start_def setMaxQueueSize_def ThreadPool_ctor_def)


text \<open>\<open>stop\<close> wakes the workers and not the producers: a producer that waits for room when the pool is
  stopped waits for ever, and the tasks in the queue are not run.\<close>

lemma stop_strands_producer:
  "\<exists>w. reachable_from ThreadPool_prog (\<lambda>_ _. True) {1, 2, 3} (the (started_pool 1 1)) w \<and>
    quiescent ThreadPool_prog {1, 2, 3} w \<and> \<not> tp_running (wd_state w) \<and> tp_queue (wd_state w) = [7] \<and> tp_ran (wd_state w) = [] \<and>
    wd_thread w 1 = Idle \<and> wd_thread w 2 = Waiting (Run 8) 4 notFull"
  using stranded_reachable stranded_quiescent stranded_world by blast

end
