(* ===== verification/AsyncLogging.thy ===== *)
theory AsyncLogging
  imports LogStream
begin

text \<open>
  The asynchronous log: files that are appended to (\<open>src/base/FileUtil.cc\<close>), the log file that
  rolls (\<open>src/base/LogFile.cc\<close>) and the log with a back-end thread (\<open>src/base/AsyncLogging.cc\<close>).

  A \<open>log_env\<close> holds what the operating system answers: how many bytes a write takes, whether a
  file can be opened, the time, and the parts of a file name. \<open>lf_out\<close> is the sequence of all
  bytes written, over all the files. The critical sections of the log are single steps; the
  back end waits with a timeout, so that it may leave its wait at any time. The size of the
  large buffers is an argument \<open>cap\<close>, which the code sets to \<open>kLargeBuffer\<close>.
\<close>

subsection \<open>Files that are appended to\<close>

record log_env =
  ev_fwrite :: "nat \<Rightarrow> char list \<Rightarrow> nat"
  ev_fopen :: "string \<Rightarrow> bool"
  ev_time :: "nat \<Rightarrow> int"
  ev_timetext :: "int \<Rightarrow> string"
  ev_hostname :: string
  ev_pid :: int
  ev_droptext :: "nat \<Rightarrow> string"

record append_file =
  af_name :: string
  af_writtenBytes :: int

record log_file =
  lf_basename :: string
  lf_rollSize :: int
  lf_flushInterval :: int
  lf_checkEveryN :: int
  lf_count :: int
  lf_startOfPeriod :: int
  lf_lastRoll :: int
  lf_lastFlush :: int
  lf_file :: "append_file option"
  lf_ticks :: nat
  lf_writes :: nat
  lf_names :: "string list"
  lf_out :: "char list"
  lf_flushed :: nat

text \<open>A new file; the old one, if any, is closed, which flushes it.\<close>

definition AppendFile_ctor :: "log_env \<Rightarrow> string \<Rightarrow> log_file \<Rightarrow> log_file option" where
  "AppendFile_ctor env filename f = do {
     cassert (ev_fopen env filename);
     Some (f\<lparr>lf_file := Some \<lparr>af_name = filename, af_writtenBytes = 0\<rparr>,
       lf_names := lf_names f @ [filename], lf_flushed := length (lf_out f)\<rparr>) }"

definition AppendFile_write :: "log_env \<Rightarrow> char list \<Rightarrow> log_file \<Rightarrow> nat \<times> log_file" where
  "AppendFile_write env logline f =
     (let n = ev_fwrite env (lf_writes f) logline
      in (n, f\<lparr>lf_writes := lf_writes f + 1, lf_out := lf_out f @ take n logline\<rparr>))"

function append_loop :: "log_env \<Rightarrow> char list \<Rightarrow> log_file \<Rightarrow> log_file" where
  "append_loop env rest f =
     (if rest = [] then f
      else let (x, f) = AppendFile_write env rest f
           in if x = 0 then f else append_loop env (drop x rest) f)"
  by pat_completeness auto
termination by (relation "measure (\<lambda>(_, rest, _). length rest)") auto

declare append_loop.simps [simp del]

definition AppendFile_append :: "log_env \<Rightarrow> char list \<Rightarrow> log_file \<Rightarrow> log_file option" where
  "AppendFile_append env logline f = do {
     let (n, f) = AppendFile_write env logline f;
     let f = append_loop env (drop n logline) f;
     a \<leftarrow> lf_file f;
     Some (f\<lparr>lf_file := Some (a\<lparr>af_writtenBytes := af_writtenBytes a + int (length logline)\<rparr>)\<rparr>) }"

definition AppendFile_flush :: "log_file \<Rightarrow> log_file" where
  "AppendFile_flush f = f\<lparr>lf_flushed := length (lf_out f)\<rparr>"

subsection \<open>The log file\<close>

definition kRollPerSeconds :: int where "kRollPerSeconds = 60 * 60 * 24"

definition getLogFileName :: "log_env \<Rightarrow> string \<Rightarrow> int \<Rightarrow> string" where
  "getLogFileName env basename now =
     basename @ ev_timetext env now @ ev_hostname env @ ''.'' @ int_to_dec (ev_pid env) @ ''.log''"

definition time_now :: "log_env \<Rightarrow> log_file \<Rightarrow> int \<times> log_file" where
  "time_now env f = (ev_time env (lf_ticks f), f\<lparr>lf_ticks := lf_ticks f + 1\<rparr>)"

definition rollFile :: "log_env \<Rightarrow> log_file \<Rightarrow> (bool \<times> log_file) option" where
  "rollFile env f = do {
     let (now, f) = time_now env f;
     let filename = getLogFileName env (lf_basename f) now;
     let start = now sdiv kRollPerSeconds * kRollPerSeconds;
     (if now > lf_lastRoll f then do {
        let f = f\<lparr>lf_lastRoll := now, lf_lastFlush := now, lf_startOfPeriod := start\<rparr>;
        f \<leftarrow> AppendFile_ctor env filename f;
        Some (True, f) }
      else Some (False, f)) }"

definition LogFile_ctor :: "log_env \<Rightarrow> string \<Rightarrow> int \<Rightarrow> int \<Rightarrow> int \<Rightarrow> log_file option" where
  "LogFile_ctor env basename rollSize flushInterval checkEveryN = do {
     cassert (CHR ''/'' \<notin> set basename);
     (_, f) \<leftarrow> rollFile env
       \<lparr>lf_basename = basename, lf_rollSize = rollSize, lf_flushInterval = flushInterval, lf_checkEveryN = checkEveryN,
        lf_count = 0, lf_startOfPeriod = 0, lf_lastRoll = 0, lf_lastFlush = 0, lf_file = None, lf_ticks = 0,
        lf_writes = 0, lf_names = [], lf_out = [], lf_flushed = 0\<rparr>;
     Some f }"

definition append_unlocked :: "log_env \<Rightarrow> char list \<Rightarrow> log_file \<Rightarrow> log_file option" where
  "append_unlocked env logline f = do {
     f \<leftarrow> AppendFile_append env logline f;
     a \<leftarrow> lf_file f;
     (if af_writtenBytes a > lf_rollSize f then do {
        (_, f) \<leftarrow> rollFile env f;
        Some f }
      else do {
        let f = f\<lparr>lf_count := lf_count f + 1\<rparr>;
        (if lf_count f \<ge> lf_checkEveryN f then do {
           let f = f\<lparr>lf_count := 0\<rparr>;
           let (now, f) = time_now env f;
           let thisPeriod = now sdiv kRollPerSeconds * kRollPerSeconds;
           (if thisPeriod \<noteq> lf_startOfPeriod f then do {
              (_, f) \<leftarrow> rollFile env f;
              Some f }
            else if now - lf_lastFlush f > lf_flushInterval f
            then Some (AppendFile_flush (f\<lparr>lf_lastFlush := now\<rparr>))
            else Some f) }
         else Some f) }) }"

text \<open>With and without the mutex; the mutex of a log file guards the whole call.\<close>

definition LogFile_append :: "log_env \<Rightarrow> char list \<Rightarrow> log_file \<Rightarrow> log_file option" where
  "LogFile_append env logline f = append_unlocked env logline f"

definition LogFile_flush :: "log_file \<Rightarrow> log_file option" where
  "LogFile_flush f = do { _ \<leftarrow> lf_file f; Some (AppendFile_flush f) }"

subsection \<open>The log with a back end\<close>

text \<open>Where the back-end thread is: at the condition of its loop, inside the loop before it takes
  the buffers, about to write the buffers it took, or at its end. \<open>al_lines\<close> are the lines that
  were stored, \<open>al_tooLong\<close> those that no buffer can hold, \<open>al_discarded\<close> counts the buffers that
  were thrown away.\<close>

datatype backend = LoopHead | Entered | Writing | Finished

record async_logging =
  al_running :: bool
  al_currentBuffer :: "fixed_buffer option"
  al_nextBuffer :: "fixed_buffer option"
  al_buffers :: "fixed_buffer list"
  al_backend :: backend
  al_newBuffer_a :: "fixed_buffer option"
  al_newBuffer_b :: "fixed_buffer option"
  al_buffersToWrite :: "fixed_buffer list"
  al_output :: log_file
  al_lines :: "char list list"
  al_tooLong :: "char list list"
  al_discarded :: nat

definition new_buffer :: "nat \<Rightarrow> fixed_buffer" where
  "new_buffer cap = FixedBuffer_bzero (FixedBuffer_ctor (replicate cap (CHR 0x00)))"

text \<open>The log once \<open>start\<close> has returned: the back end has begun and opened its file.\<close>

definition AsyncLogging_start :: "log_env \<Rightarrow> nat \<Rightarrow> string \<Rightarrow> int \<Rightarrow> async_logging option" where
  "AsyncLogging_start env cap basename rollSize = do {
     f \<leftarrow> LogFile_ctor env basename rollSize 3 1024;
     Some \<lparr>al_running = True, al_currentBuffer = Some (new_buffer cap), al_nextBuffer = Some (new_buffer cap),
       al_buffers = [], al_backend = LoopHead, al_newBuffer_a = Some (new_buffer cap),
       al_newBuffer_b = Some (new_buffer cap), al_buffersToWrite = [], al_output = f,
       al_lines = [], al_tooLong = [], al_discarded = 0\<rparr> }"

definition record_line :: "nat \<Rightarrow> char list \<Rightarrow> async_logging \<Rightarrow> async_logging" where
  "record_line cap logline s =
     (if length logline < cap then s\<lparr>al_lines := al_lines s @ [logline]\<rparr> else s\<lparr>al_tooLong := al_tooLong s @ [logline]\<rparr>)"

definition AsyncLogging_append :: "nat \<Rightarrow> char list \<Rightarrow> async_logging \<Rightarrow> async_logging option" where
  "AsyncLogging_append cap logline s = do {
     currentBuffer \<leftarrow> al_currentBuffer s;
     (if FixedBuffer_avail currentBuffer > length logline then do {
        b \<leftarrow> FixedBuffer_append currentBuffer logline;
        Some (record_line cap logline (s\<lparr>al_currentBuffer := Some b\<rparr>)) }
      else do {
        let s = s\<lparr>al_buffers := al_buffers s @ [currentBuffer]\<rparr>;
        let currentBuffer = (case al_nextBuffer s of Some nextBuffer \<Rightarrow> nextBuffer | None \<Rightarrow> new_buffer cap);
        let s = s\<lparr>al_nextBuffer := None\<rparr>;
        b \<leftarrow> FixedBuffer_append currentBuffer logline;
        Some (record_line cap logline (s\<lparr>al_currentBuffer := Some b\<rparr>)) }) }"

definition AsyncLogging_stop :: "async_logging \<Rightarrow> async_logging" where
  "AsyncLogging_stop s = s\<lparr>al_running := False\<rparr>"

definition empty_buffer :: "fixed_buffer option \<Rightarrow> bool" where
  "empty_buffer b \<longleftrightarrow> (case b of None \<Rightarrow> False | Some b \<Rightarrow> FixedBuffer_length b = 0)"

text \<open>The condition of the loop and the assertions at its start, or the end of the thread.\<close>

definition backend_condition :: "async_logging \<Rightarrow> async_logging option" where
  "backend_condition s =
     (if al_running s then do {
        cassert (empty_buffer (al_newBuffer_a s));
        cassert (empty_buffer (al_newBuffer_b s));
        cassert (al_buffersToWrite s = []);
        Some (s\<lparr>al_backend := Entered\<rparr>) }
      else do {
        f \<leftarrow> LogFile_flush (al_output s);
        Some (s\<lparr>al_output := f, al_backend := Finished\<rparr>) })"

text \<open>The critical section of the back end.\<close>

definition backend_swap :: "async_logging \<Rightarrow> async_logging option" where
  "backend_swap s = do {
     currentBuffer \<leftarrow> al_currentBuffer s;
     let s = s\<lparr>al_buffers := al_buffers s @ [currentBuffer]\<rparr>;
     let s = s\<lparr>al_currentBuffer := al_newBuffer_a s, al_newBuffer_a := None\<rparr>;
     let s = s\<lparr>al_buffersToWrite := al_buffers s, al_buffers := al_buffersToWrite s\<rparr>;
     let s = (if al_nextBuffer s = None then s\<lparr>al_nextBuffer := al_newBuffer_b s, al_newBuffer_b := None\<rparr> else s);
     Some (s\<lparr>al_backend := Writing\<rparr>) }"

text \<open>The rest of the body: too many buffers are cut to two with a message, the buffers are
  written, and two of them become the spare buffers again.\<close>

definition discard_buffers :: "log_env \<Rightarrow> async_logging \<Rightarrow> async_logging option" where
  "discard_buffers env s =
     (if length (al_buffersToWrite s) > 25 then do {
        let n = length (al_buffersToWrite s) - 2;
        f \<leftarrow> LogFile_append env (ev_droptext env n) (al_output s);
        Some (s\<lparr>al_output := f, al_buffersToWrite := take 2 (al_buffersToWrite s), al_discarded := al_discarded s + n\<rparr>) }
      else Some s)"

primrec write_buffers :: "log_env \<Rightarrow> fixed_buffer list \<Rightarrow> log_file \<Rightarrow> log_file option" where
  "write_buffers env [] f = Some f"
| "write_buffers env (b # bs) f = do {
     f \<leftarrow> LogFile_append env (take (FixedBuffer_length b) (fb_data b)) f;
     write_buffers env bs f }"

text \<open>A spare buffer that is missing is taken from the end of the written ones.\<close>

definition refill :: "fixed_buffer option \<Rightarrow> fixed_buffer list \<Rightarrow> (fixed_buffer option \<times> fixed_buffer list) option" where
  "refill newBuffer bs =
     (case newBuffer of
        Some b \<Rightarrow> Some (Some b, bs)
      | None \<Rightarrow> do {
          cassert (bs \<noteq> []);
          Some (Some (FixedBuffer_reset (last bs)), butlast bs) })"

definition backend_write :: "log_env \<Rightarrow> async_logging \<Rightarrow> async_logging option" where
  "backend_write env s = do {
     cassert (al_buffersToWrite s \<noteq> []);
     s \<leftarrow> discard_buffers env s;
     f \<leftarrow> write_buffers env (al_buffersToWrite s) (al_output s);
     let bs = (if length (al_buffersToWrite s) > 2 then take 2 (al_buffersToWrite s) else al_buffersToWrite s);
     (a, bs) \<leftarrow> refill (al_newBuffer_a s) bs;
     (b, bs) \<leftarrow> refill (al_newBuffer_b s) bs;
     f \<leftarrow> LogFile_flush f;
     Some (s\<lparr>al_newBuffer_a := a, al_newBuffer_b := b, al_buffersToWrite := [], al_output := f, al_backend := LoopHead\<rparr>) }"

text \<open>One iteration of \<open>threadFunc\<close> is the sequence of these steps; the calls of the other threads
  fall between them.\<close>

datatype log_event = AppendLine "char list" | StopLog | Backend

definition backend_step :: "log_env \<Rightarrow> async_logging \<Rightarrow> async_logging option" where
  "backend_step env s =
     (case al_backend s of
        LoopHead \<Rightarrow> backend_condition s
      | Entered \<Rightarrow> backend_swap s
      | Writing \<Rightarrow> backend_write env s
      | Finished \<Rightarrow> Some s)"

fun log_step :: "log_env \<Rightarrow> nat \<Rightarrow> log_event \<Rightarrow> async_logging \<Rightarrow> async_logging option" where
  "log_step env cap (AppendLine logline) s = AsyncLogging_append cap logline s"
| "log_step env cap StopLog s = Some (AsyncLogging_stop s)"
| "log_step env cap Backend s = backend_step env s"

primrec log_run :: "log_env \<Rightarrow> nat \<Rightarrow> log_event list \<Rightarrow> async_logging \<Rightarrow> async_logging option" where
  "log_run env cap [] s = Some s"
| "log_run env cap (e # es) s = do { s \<leftarrow> log_step env cap e s; log_run env cap es s }"

subsection \<open>Nothing is lost on the way to the file\<close>

text \<open>The operating system takes some of the bytes at each write, opens every file, and its clock
  is past the epoch.\<close>

definition log_env_ok :: "log_env \<Rightarrow> bool" where
  "log_env_ok env \<longleftrightarrow> (\<forall>k d. ev_fwrite env k d \<le> length d \<and> (d \<noteq> [] \<longrightarrow> 0 < ev_fwrite env k d)) \<and>
     (\<forall>n. ev_fopen env n) \<and> 0 < ev_time env 0"

lemma append_loop_out:
  assumes "log_env_ok env"
  shows "lf_out (append_loop env d f) = lf_out f @ d \<and> lf_file (append_loop env d f) = lf_file f"
  using assms
proof (induction env d f rule: append_loop.induct)
  case (1 env d f)
  show ?case
  proof (cases "d = []")
    case False
    define x where "x = ev_fwrite env (lf_writes f) d"
    define g where "g = f\<lparr>lf_writes := lf_writes f + 1, lf_out := lf_out f @ take x d\<rparr>"
    have w: "AppendFile_write env d f = (x, g)"
      by (simp add: AppendFile_write_def x_def g_def Let_def)
    have x: "x \<noteq> 0"
      using "1.prems" False by (simp add: log_env_ok_def x_def)
    have "append_loop env d f = append_loop env (drop x d) g"
      using False x by (simp add: append_loop.simps [of env d f] w)
    with "1.IH" [OF False w [symmetric] refl x "1.prems"] show ?thesis
      by (simp add: g_def)
  qed (simp add: append_loop.simps)
qed

lemma AppendFile_append_out:
  assumes "log_env_ok env" and "lf_file f \<noteq> None"
  obtains f' where "AppendFile_append env d f = Some f'" and "lf_out f' = lf_out f @ d" and "lf_file f' \<noteq> None"
proof -
  obtain a where "lf_file f = Some a" using assms(2) by blast
  then show ?thesis
    using append_loop_out [OF assms(1)] that
    by (auto simp: AppendFile_append_def AppendFile_write_def Let_def)
qed

lemma rollFile_out:
  assumes "log_env_ok env"
  obtains r f' where "rollFile env f = Some (r, f')" and "lf_out f' = lf_out f"
    and "lf_file f \<noteq> None \<or> lf_lastRoll f < ev_time env (lf_ticks f) \<longrightarrow> lf_file f' \<noteq> None"
proof -
  have "\<exists>r f'. rollFile env f = Some (r, f') \<and> lf_out f' = lf_out f \<and>
      (lf_file f \<noteq> None \<or> lf_lastRoll f < ev_time env (lf_ticks f) \<longrightarrow> lf_file f' \<noteq> None)"
    using assms by (cases "lf_lastRoll f < ev_time env (lf_ticks f)")
      (simp_all add: rollFile_def time_now_def AppendFile_ctor_def log_env_ok_def Let_def, blast+)
  with that show ?thesis by blast
qed

lemma LogFile_append_out:
  assumes env: "log_env_ok env" and "lf_file f \<noteq> None"
  obtains f' where "LogFile_append env d f = Some f'" and "lf_out f' = lf_out f @ d" and "lf_file f' \<noteq> None"
proof -
  from AppendFile_append_out [OF assms, of d] obtain f1 where f1: "AppendFile_append env d f = Some f1"
      "lf_out f1 = lf_out f @ d" "lf_file f1 \<noteq> None"
    by blast
  then obtain a where a: "lf_file f1 = Some a" by blast
  have roll: "\<exists>r f'. rollFile env g = Some (r, f') \<and> lf_out f' = lf_out f @ d \<and> lf_file f' \<noteq> None"
    if "lf_out g = lf_out f1" "lf_file g = lf_file f1" for g
    using rollFile_out [OF env, of g] that f1 by metis
  have "\<exists>f'. append_unlocked env d f = Some f' \<and> lf_out f' = lf_out f @ d \<and> lf_file f' \<noteq> None"
    using f1 a roll [of f1] roll [of "f1\<lparr>lf_count := 0, lf_ticks := lf_ticks f1 + 1\<rparr>"]
    by (auto simp: append_unlocked_def time_now_def AppendFile_flush_def Let_def)
  with that show ?thesis by (auto simp: LogFile_append_def)
qed

lemma write_buffers_out:
  assumes env: "log_env_ok env" and "lf_file f \<noteq> None"
  shows "\<exists>f'. write_buffers env bs f = Some f' \<and> lf_out f' = lf_out f @ concat (map FixedBuffer_toString bs) \<and> lf_file f' \<noteq> None"
  using assms(2)
proof (induction bs arbitrary: f)
  case (Cons b bs)
  from LogFile_append_out [OF env Cons.prems, of "FixedBuffer_toString b"] obtain f1 where f1:
      "LogFile_append env (FixedBuffer_toString b) f = Some f1" "lf_out f1 = lf_out f @ FixedBuffer_toString b" "lf_file f1 \<noteq> None"
    by blast
  from Cons.IH [OF f1(3)] f1 show ?case
    by (auto simp: FixedBuffer_toString_def)
qed simp

subsection \<open>The invariant of the log\<close>

text \<open>Buffers are of the size \<open>cap\<close> and the spare ones are empty. When the next buffer is in use, a
  buffer is full, so that the back end always takes as many buffers as it hands out.\<close>

definition buf_ok :: "nat \<Rightarrow> fixed_buffer \<Rightarrow> bool" where
  "buf_ok cap b \<longleftrightarrow> FixedBuffer_wf b \<and> length (fb_data b) = cap"

definition spare_ok :: "nat \<Rightarrow> fixed_buffer option \<Rightarrow> bool" where
  "spare_ok cap b \<longleftrightarrow> (case b of None \<Rightarrow> True | Some b \<Rightarrow> buf_ok cap b \<and> fb_cur b = 0)"

definition backend_ok :: "async_logging \<Rightarrow> bool" where
  "backend_ok s \<longleftrightarrow>
     (if al_backend s = Writing
      then al_newBuffer_a s = None \<and> al_buffersToWrite s \<noteq> [] \<and>
        (al_newBuffer_b s = None \<longrightarrow> 2 \<le> length (al_buffersToWrite s))
      else al_newBuffer_a s \<noteq> None \<and> al_newBuffer_b s \<noteq> None \<and> al_buffersToWrite s = [])"

definition log_text :: "async_logging \<Rightarrow> char list" where
  "log_text s = lf_out (al_output s) @ concat (map FixedBuffer_toString (al_buffersToWrite s)) @
     concat (map FixedBuffer_toString (al_buffers s)) @ (case al_currentBuffer s of None \<Rightarrow> [] | Some b \<Rightarrow> FixedBuffer_toString b)"

definition log_inv :: "nat \<Rightarrow> async_logging \<Rightarrow> bool" where
  "log_inv cap s \<longleftrightarrow> (case al_currentBuffer s of None \<Rightarrow> False | Some b \<Rightarrow> buf_ok cap b) \<and>
     spare_ok cap (al_nextBuffer s) \<and> spare_ok cap (al_newBuffer_a s) \<and> spare_ok cap (al_newBuffer_b s) \<and>
     list_all (buf_ok cap) (al_buffers s) \<and> list_all (buf_ok cap) (al_buffersToWrite s) \<and>
     (al_nextBuffer s = None \<longrightarrow> al_buffers s \<noteq> []) \<and> backend_ok s \<and> lf_file (al_output s) \<noteq> None \<and>
     (al_discarded s = 0 \<longrightarrow> log_text s = concat (al_lines s))"

lemma new_buffer_ok: "0 < cap \<Longrightarrow> buf_ok cap (new_buffer cap)" "fb_cur (new_buffer cap) = 0"
  "FixedBuffer_toString (new_buffer cap) = []"
  by (simp_all add: buf_ok_def new_buffer_def FixedBuffer_bzero_def FixedBuffer_ctor_def FixedBuffer_wf_def
      FixedBuffer_toString_def FixedBuffer_length_def)

lemma buffer_append_ok:
  assumes "buf_ok cap b" and "length d < FixedBuffer_avail b"
  obtains b' where "FixedBuffer_append b d = Some b'" and "buf_ok cap b'"
    and "FixedBuffer_toString b' = FixedBuffer_toString b @ d"
proof -
  have fits: "fb_cur b + length d < length (fb_data b)"
    using assms by (auto simp: FixedBuffer_avail_def)
  show ?thesis
    by (rule that [of "b\<lparr>fb_data := take (fb_cur b) (fb_data b) @ d @ drop (fb_cur b + length d) (fb_data b), fb_cur := fb_cur b + length d\<rparr>"])
      (use assms fits in \<open>auto simp: FixedBuffer_append_def overwrite_def buf_ok_def FixedBuffer_wf_def
        FixedBuffer_toString_def FixedBuffer_length_def\<close>)
qed

lemma append_fresh_ok:
  assumes "buf_ok cap b" and "fb_cur b = 0"
  obtains b' where "FixedBuffer_append b d = Some b'" and "buf_ok cap b'"
    and "FixedBuffer_toString b' = (if length d < cap then d else [])"
proof (cases "length d < cap")
  case True
  have "FixedBuffer_toString b = []"
    using assms(2) by (simp add: FixedBuffer_toString_def FixedBuffer_length_def)
  moreover from True assms have "length d < FixedBuffer_avail b"
    by (simp add: FixedBuffer_avail_def buf_ok_def)
  ultimately show ?thesis
    using buffer_append_ok [OF assms(1), of d] that True by auto
next
  case False
  then have "FixedBuffer_append b d = Some b"
    using assms by (simp add: FixedBuffer_append_def FixedBuffer_avail_def buf_ok_def)
  with False assms show ?thesis
    by (intro that [of b]) (auto simp: FixedBuffer_toString_def FixedBuffer_length_def)
qed

lemma append_inv:
  assumes inv: "log_inv cap s" and cap: "0 < cap"
  shows "\<exists>s'. AsyncLogging_append cap d s = Some s' \<and> log_inv cap s'"
proof -
  obtain c where c: "al_currentBuffer s = Some c" "buf_ok cap c"
    using inv by (auto simp: log_inv_def split: option.splits)
  show ?thesis
  proof (cases "length d < FixedBuffer_avail c")
    case True
    from buffer_append_ok [OF c(2) True] obtain b where b: "FixedBuffer_append c d = Some b" "buf_ok cap b"
        "FixedBuffer_toString b = FixedBuffer_toString c @ d" .
    have "length d < cap"
      using True c(2) by (simp add: FixedBuffer_avail_def buf_ok_def)
    with True b c inv show ?thesis
      by (auto simp: AsyncLogging_append_def record_line_def log_inv_def log_text_def backend_ok_def)
  next
    case False
    define fresh where "fresh = (case al_nextBuffer s of Some b \<Rightarrow> b | None \<Rightarrow> new_buffer cap)"
    have "buf_ok cap fresh" "fb_cur fresh = 0"
      using inv cap new_buffer_ok [of cap] by (auto simp: fresh_def log_inv_def spare_ok_def split: option.splits)
    from append_fresh_ok [OF this] obtain b where b: "FixedBuffer_append fresh d = Some b" "buf_ok cap b"
        "FixedBuffer_toString b = (if length d < cap then d else [])" .
    with False c inv show ?thesis
      by (auto simp: AsyncLogging_append_def record_line_def log_inv_def log_text_def backend_ok_def spare_ok_def
          fresh_def [symmetric] Let_def)
  qed
qed

lemma condition_inv:
  assumes inv: "log_inv cap s" and pc: "al_backend s = LoopHead"
  shows "\<exists>s'. backend_condition s = Some s' \<and> log_inv cap s'"
proof -
  have "empty_buffer (al_newBuffer_a s)" "empty_buffer (al_newBuffer_b s)" "al_buffersToWrite s = []"
    using inv pc by (auto simp: log_inv_def backend_ok_def spare_ok_def empty_buffer_def FixedBuffer_length_def
        split: option.splits)
  moreover obtain a where "lf_file (al_output s) = Some a"
    using inv by (auto simp: log_inv_def)
  ultimately show ?thesis
    using inv pc by (auto simp: backend_condition_def LogFile_flush_def AppendFile_flush_def log_inv_def log_text_def backend_ok_def)
qed

lemma swap_inv:
  assumes inv: "log_inv cap s" and pc: "al_backend s = Entered"
  shows "\<exists>s'. backend_swap s = Some s' \<and> log_inv cap s'"
proof -
  obtain c a b where s: "al_currentBuffer s = Some c" "al_newBuffer_a s = Some a" "al_newBuffer_b s = Some b"
      "al_buffersToWrite s = []" "buf_ok cap c" "buf_ok cap a" "fb_cur a = 0"
    using inv pc by (auto simp: log_inv_def backend_ok_def spare_ok_def split: option.splits)
  have "FixedBuffer_toString a = []"
    using s by (simp add: FixedBuffer_toString_def FixedBuffer_length_def)
  with s inv show ?thesis
    by (auto simp: backend_swap_def log_inv_def log_text_def backend_ok_def spare_ok_def Let_def
        numeral_2_eq_2 Suc_le_eq split: option.splits)
qed

lemma refill_ok:
  assumes "spare_ok cap new" "list_all (buf_ok cap) bs" "new = None \<longrightarrow> bs \<noteq> []"
  obtains b bs' where "refill new bs = Some (Some b, bs')" and "spare_ok cap (Some b)" and "list_all (buf_ok cap) bs'"
    and "bs' = (if new = None then butlast bs else bs)"
proof (cases new)
  case None
  then have "buf_ok cap (last bs)" "list_all (buf_ok cap) (butlast bs)"
    using assms by (auto simp: list_all_iff dest: in_set_butlastD)
  with None assms(3) show ?thesis
    by (intro that [of "FixedBuffer_reset (last bs)" "butlast bs"])
      (auto simp: refill_def spare_ok_def buf_ok_def FixedBuffer_reset_def FixedBuffer_wf_def)
next
  case (Some b)
  then show ?thesis using assms by (intro that [of b bs]) (auto simp: refill_def)
qed

lemma discard_ok:
  assumes env: "log_env_ok env" and inv: "log_inv cap s" and pc: "al_backend s = Writing"
  obtains s' where "discard_buffers env s = Some s'" and "log_inv cap s'" and "al_backend s' = Writing"
proof (cases "length (al_buffersToWrite s) > 25")
  case True
  have "lf_file (al_output s) \<noteq> None" using inv by (simp add: log_inv_def)
  from LogFile_append_out [OF env this, of "ev_droptext env (length (al_buffersToWrite s) - 2)"] obtain f where f:
      "LogFile_append env (ev_droptext env (length (al_buffersToWrite s) - 2)) (al_output s) = Some f" "lf_file f \<noteq> None"
    by blast
  with True inv pc show ?thesis
    by (intro that [of "s\<lparr>al_output := f, al_buffersToWrite := take 2 (al_buffersToWrite s),
        al_discarded := al_discarded s + (length (al_buffersToWrite s) - 2)\<rparr>"])
      (auto simp: discard_buffers_def log_inv_def backend_ok_def list_all_iff Let_def dest: in_set_takeD)
qed (use assms that in \<open>simp add: discard_buffers_def\<close>)

lemma write_inv:
  assumes env: "log_env_ok env" and inv: "log_inv cap s" and pc: "al_backend s = Writing"
  shows "\<exists>s'. backend_write env s = Some s' \<and> log_inv cap s'"
proof -
  have ne: "al_buffersToWrite s \<noteq> []"
    using inv pc by (simp add: log_inv_def backend_ok_def)
  from discard_ok [OF assms] obtain s1 where s1: "discard_buffers env s = Some s1" "log_inv cap s1" "al_backend s1 = Writing" .
  then have i: "al_newBuffer_a s1 = None" "al_buffersToWrite s1 \<noteq> []" "al_newBuffer_b s1 = None \<longrightarrow> 2 \<le> length (al_buffersToWrite s1)"
      "lf_file (al_output s1) \<noteq> None" "list_all (buf_ok cap) (al_buffersToWrite s1)" "spare_ok cap (al_newBuffer_b s1)"
    by (auto simp: log_inv_def backend_ok_def)
  from write_buffers_out [OF env i(4)] obtain f where f: "write_buffers env (al_buffersToWrite s1) (al_output s1) = Some f"
      "lf_out f = lf_out (al_output s1) @ concat (map FixedBuffer_toString (al_buffersToWrite s1))" "lf_file f \<noteq> None"
    by blast
  define bs where "bs = (if length (al_buffersToWrite s1) > 2 then take 2 (al_buffersToWrite s1) else al_buffersToWrite s1)"
  have bs: "list_all (buf_ok cap) bs" "bs \<noteq> []" "al_newBuffer_b s1 = None \<longrightarrow> length bs = 2"
    using i by (auto simp: bs_def list_all_iff dest: in_set_takeD)
  from refill_ok [of cap None bs] bs obtain a bs1 where a: "refill None bs = Some (Some a, bs1)" "spare_ok cap (Some a)"
      "list_all (buf_ok cap) bs1" "bs1 = butlast bs"
    by (auto simp: spare_ok_def)
  have "al_newBuffer_b s1 = None \<longrightarrow> bs1 \<noteq> []"
    using bs(3) a(4) by (auto simp: butlast_conv_take)
  from refill_ok [OF i(6) a(3) this] obtain b bs2 where b: "refill (al_newBuffer_b s1) bs1 = Some (Some b, bs2)" "spare_ok cap (Some b)"
    by blast
  obtain af where "lf_file f = Some af" using f(3) by blast
  then have "backend_write env s = Some (s1\<lparr>al_newBuffer_a := Some a, al_newBuffer_b := Some b, al_buffersToWrite := [],
      al_output := AppendFile_flush f, al_backend := LoopHead\<rparr>)"
    using ne s1(1) f(1) a(1) b(1) i(1) by (simp add: backend_write_def bs_def [symmetric] LogFile_flush_def Let_def)
  moreover have "log_inv cap (s1\<lparr>al_newBuffer_a := Some a, al_newBuffer_b := Some b, al_buffersToWrite := [],
      al_output := AppendFile_flush f, al_backend := LoopHead\<rparr>)"
    using s1(2) a(2) b(2) f(2,3) by (auto simp: log_inv_def log_text_def backend_ok_def AppendFile_flush_def)
  ultimately show ?thesis by blast
qed

lemma log_run_inv:
  assumes "log_env_ok env" and "0 < cap" and "log_inv cap s"
  shows "\<exists>s'. log_run env cap es s = Some s' \<and> log_inv cap s'"
  using assms(3)
proof (induction es arbitrary: s)
  case (Cons e es)
  have "\<exists>s1. log_step env cap e s = Some s1 \<and> log_inv cap s1"
  proof (cases e)
    case (AppendLine d)
    then show ?thesis using append_inv [OF Cons.prems assms(2)] by simp
  next
    case StopLog
    then show ?thesis using Cons.prems by (simp add: AsyncLogging_stop_def log_inv_def log_text_def backend_ok_def)
  next
    case Backend
    then show ?thesis
      using condition_inv [OF Cons.prems] swap_inv [OF Cons.prems] write_inv [OF assms(1) Cons.prems] Cons.prems
      by (cases "al_backend s") (simp_all add: backend_step_def)
  qed
  then show ?case using Cons.IH by fastforce
qed simp

subsection \<open>Properties\<close>

lemma AsyncLogging_start_inv:
  assumes "log_env_ok env" and "0 < cap" and "CHR ''/'' \<notin> set basename"
  shows "\<exists>s. AsyncLogging_start env cap basename rollSize = Some s \<and> log_inv cap s"
proof -
  define f0 where "f0 = \<lparr>lf_basename = basename, lf_rollSize = rollSize, lf_flushInterval = 3, lf_checkEveryN = 1024,
        lf_count = 0, lf_startOfPeriod = 0, lf_lastRoll = 0, lf_lastFlush = 0, lf_file = None, lf_ticks = 0,
        lf_writes = 0, lf_names = [], lf_out = [], lf_flushed = 0\<rparr>"
  obtain r f where "rollFile env f0 = Some (r, f)" "lf_out f = []" "lf_file f \<noteq> None"
    using rollFile_out [OF assms(1), of f0] assms(1) by (auto simp: f0_def log_env_ok_def)
  then show ?thesis
    using assms(2,3) new_buffer_ok [of cap]
    by (auto simp: AsyncLogging_start_def LogFile_ctor_def f0_def [symmetric] log_inv_def spare_ok_def backend_ok_def log_text_def)
qed


text \<open>A system that writes at most two bytes at a time.\<close>

definition example_env :: log_env where
  "example_env = \<lparr>ev_fwrite = (\<lambda>k d. min 2 (length d)), ev_fopen = (\<lambda>_. True), ev_time = (\<lambda>k. 1000 + int k),
     ev_timetext = (\<lambda>t. ''.now.''), ev_hostname = ''host'', ev_pid = 42, ev_droptext = (\<lambda>n. ''dropped'')\<rparr>"

lemma example_env_ok: "log_env_ok example_env"
  by (simp add: log_env_ok_def example_env_def)

lemmas log_eval = AsyncLogging_start_def LogFile_ctor_def rollFile_def time_now_def AppendFile_ctor_def example_env_def
  new_buffer_def FixedBuffer_bzero_def FixedBuffer_ctor_def AsyncLogging_append_def FixedBuffer_avail_def
  FixedBuffer_append_def overwrite_def record_line_def backend_step_def backend_condition_def empty_buffer_def
  FixedBuffer_length_def backend_swap_def backend_write_def discard_buffers_def LogFile_append_def append_unlocked_def
  AppendFile_append_def AppendFile_write_def append_loop.simps LogFile_flush_def AppendFile_flush_def refill_def
  FixedBuffer_reset_def AsyncLogging_stop_def Let_def eval_nat_numeral


text \<open>\<open>stop\<close> loses lines: when it is called while the back end writes, the back end leaves its loop
  without taking the buffers once more, and what was appended since stays in memory.\<close>

lemma stop_loses_lines:
  "\<exists>s0 s. AsyncLogging_start example_env 4 ''log'' 100 = Some s0 \<and>
    log_run example_env 4 [AppendLine ''ab'', Backend, Backend, AppendLine ''cd'', StopLog, Backend, Backend, Backend] s0 = Some s \<and>
    al_backend s = Finished \<and> al_lines s = [''ab'', ''cd''] \<and> lf_out (al_output s) = ''ab''"
  by (simp add: log_eval)

end
