(* ===== verification/Spec2Isabelle.thy ===== *)
theory Spec2Isabelle
  imports Http TimeZone LogStream TcpConnections EventLoop Connector ProtobufCodec ThreadPool AsyncLogging
begin

text \<open>
  A verification library of the muduo network library.
\<close>

end
